(* ===== verification/Hobbes_Prelude.thy ===== *)
theory Hobbes_Prelude
  imports Main "HOL-Library.Word" "HOL-Library.Char_ord" "HOL-Library.List_Lexorder"
begin

text \<open>
  Names and lemmas shared by the theories of the development: the machine integer types of
  the C++ code, the two collections of simplification facts the components extend, and
  generic facts about words, lists and finite sets of numbers.
\<close>

section \<open>Machine integers\<close>

text \<open>The integer types of the x86-64 targets the code is built for (LP64).\<close>

type_synonym u8 = "8 word"
type_synonym u32 = "32 word"
type_synonym u64 = "64 word"

text \<open>
  \<open>char_ranges\<close> collects facts that decide comparisons between the end points of
  character ranges, \<open>nfa_frame\<close> the facts that say what a construction step leaves alone.
\<close>

named_theorems char_ranges
named_theorems nfa_frame

section \<open>Words\<close>

lemma word_succ_le_iff [char_ranges]:
  fixes a b z :: "'a::len word"
  assumes "a < b"
  shows "a + 1 \<le> z \<longleftrightarrow> a < z"
  by (meson assms inc_le inc_less_eq_self_imp_top less_le_not_le nle_le order.trans)

lemma word_le_pred_iff [char_ranges]:
  fixes a b z :: "'a::len word"
  assumes "a < b"
  shows "z \<le> b - 1 \<longleftrightarrow> z < b"
  using assms less_eq_dec_iff by auto

lemma unat_plus_no_wrap:
  fixes a b :: "'a::len word"
  assumes "unat a + unat b < 2 ^ LENGTH('a)"
  shows "unat (a + b) = unat a + unat b"
  using assms by (simp add: unat_add_lem)

section \<open>Finite sets of state numbers\<close>

text \<open>
  A \<open>std::set\<close> is modelled by a set; where the code iterates over one in ascending order the
  model walks \<open>sorted_list_of_set\<close>.
\<close>

lemma finite_below: "S \<subseteq> {..<n::nat} \<Longrightarrow> finite S"
  by (rule finite_subset) auto

end
