(* ===== verification/Region.thy ===== *)
theory Region
  imports Hobbes_Prelude
begin

text \<open>
  The memory region of \<^verbatim>\<open>lib/hobbes/util/region.C\<close>: a bump allocator over a list of pages
  in use and a list of free pages, from which all memory of compiled expressions comes.

  A page list linked by \<open>succ\<close> is a list of pages, head first; a null pointer is the empty
  list. The block \<open>::malloc\<close> returns for a page is named by a number: \<open>nextBase\<close> counts the
  blocks handed out so far, so distinct pages have distinct blocks (\<open>::malloc\<close> is assumed to
  succeed, the code never tests its result). A pointer into a block is the block and an
  offset. Sizes are \<open>size_t\<close>, whose additions wrap. \<open>abort()\<close> and the use of a null page are
  \<open>None\<close>. Left out: the \<open>show\<close> functions, which only print.
\<close>

section \<open>State\<close>

record mempage =
  pg_base :: nat
  pg_size :: u64
  pg_read :: u64

record region =
  minPageSize :: u64
  maxPageSize :: u64
  lastAllocPageSize :: u64
  abortOnOOM :: bool
  maxTotalAllocation :: u64
  totalAllocation :: u64
  usedp :: "mempage list"
  freep :: "mempage list"
  nextBase :: nat

type_synonym ptr = "nat \<times> u64"

section \<open>Operations\<close>

definition newpage :: "u64 \<Rightarrow> region \<Rightarrow> (mempage \<times> region) option" where
  "newpage sz r =
     (let (psz, last) =
        (if lastAllocPageSize r < maxPageSize r
         then (max sz (lastAllocPageSize r), lastAllocPageSize r * 2)
         else (max sz (maxPageSize r), lastAllocPageSize r));
        tot = totalAllocation r + psz
      in if abortOnOOM r \<and> maxTotalAllocation r \<le> tot then None
         else Some (\<lparr>pg_base = nextBase r, pg_size = psz, pg_read = 0\<rparr>,
                r\<lparr>lastAllocPageSize := last, totalAllocation := tot,
                  nextBase := Suc (nextBase r)\<rparr>))"

definition allocpage :: "u64 \<Rightarrow> region \<Rightarrow> region option" where
  "allocpage sz r =
     (case freep r of
        p # ps \<Rightarrow>
          (if sz \<le> pg_size p then Some (r\<lparr>usedp := p # usedp r, freep := ps\<rparr>)
           else map_option (\<lambda>(q, r'). r'\<lparr>usedp := q # usedp r\<rparr>) (newpage sz r))
      | [] \<Rightarrow> map_option (\<lambda>(q, r'). r'\<lparr>usedp := q # usedp r\<rparr>) (newpage sz r))"

definition region_malloc :: "u64 \<Rightarrow> region \<Rightarrow> (ptr \<times> region) option" where
  "region_malloc sz r =
     (case usedp r of
        [] \<Rightarrow> None
      | p # ps \<Rightarrow>
          (let nr = pg_read p + sz in
           if nr \<le> pg_size p
           then Some ((pg_base p, pg_read p), r\<lparr>usedp := p\<lparr>pg_read := nr\<rparr> # ps\<rparr>)
           else (case allocpage sz r of
                   None \<Rightarrow> None
                 | Some r' \<Rightarrow>
                     (case usedp r' of
                        [] \<Rightarrow> None
                      | q # qs \<Rightarrow>
                          Some ((pg_base q, 0), r'\<lparr>usedp := q\<lparr>pg_read := sz\<rparr> # qs\<rparr>)))))"

fun addFreePages :: "nat \<Rightarrow> region \<Rightarrow> region option" where
  "addFreePages 0 r = Some r"
| "addFreePages (Suc n) r =
     (case newpage (minPageSize r) r of
        None \<Rightarrow> None
      | Some (p, r') \<Rightarrow> addFreePages n (r'\<lparr>freep := p # freep r'\<rparr>))"

definition region_new :: "u64 \<Rightarrow> nat \<Rightarrow> u64 \<Rightarrow> region option" where
  "region_new minsz initialFreePages maxsz =
     (let r0 = \<lparr>minPageSize = minsz, maxPageSize = maxsz, lastAllocPageSize = minsz,
                abortOnOOM = False, maxTotalAllocation = 0, totalAllocation = 0,
                usedp = [], freep = [], nextBase = 0\<rparr>
      in case newpage minsz r0 of
           None \<Rightarrow> None
         | Some (p, r1) \<Rightarrow> addFreePages initialFreePages (r1\<lparr>usedp := [p]\<rparr>))"

text \<open>\<open>freepage\<close> gives the block back and takes the page's size off the running total.\<close>

definition freepage :: "mempage \<Rightarrow> region \<Rightarrow> region" where
  "freepage p r = r\<lparr>totalAllocation := totalAllocation r - pg_size p\<rparr>"

fun freepages :: "mempage list \<Rightarrow> region \<Rightarrow> region" where
  "freepages [] r = r"
| "freepages (p # ps) r = freepages ps (freepage p r)"

definition region_clear :: "region \<Rightarrow> region option" where
  "region_clear r =
     (case usedp r of
        [] \<Rightarrow> None
      | p # ps \<Rightarrow>
          (let r' = freepages ps (freepages (freep r) r) in
           Some (r'\<lparr>freep := [], usedp := [p\<lparr>pg_read := 0\<rparr>],
                    lastAllocPageSize := minPageSize r'\<rparr>)))"

text \<open>
  \<open>reset\<close> walks the used pages, rewinds each and links the last one to the first free page;
  the head stays in use and everything after it is free.
\<close>

definition region_reset :: "region \<Rightarrow> region option" where
  "region_reset r =
     (case usedp r of
        [] \<Rightarrow> None
      | p # ps \<Rightarrow>
          Some (r\<lparr>usedp := [p\<lparr>pg_read := 0\<rparr>],
                  freep := map (\<lambda>q. q\<lparr>pg_read := 0\<rparr>) ps @ freep r\<rparr>))"

definition abortAtMemCeiling :: "u64 \<Rightarrow> region \<Rightarrow> region" where
  "abortAtMemCeiling maxsz r = r\<lparr>abortOnOOM := True, maxTotalAllocation := maxsz\<rparr>"

datatype pattr = pa_allocated | pa_used | pa_wasted

fun sumAttr :: "mempage list \<Rightarrow> pattr \<Rightarrow> u64" where
  "sumAttr ps pa_allocated = sum_list (map pg_size ps)"
| "sumAttr ps pa_used = sum_list (map pg_read ps)"
| "sumAttr ps pa_wasted = sum_list (map (\<lambda>p. pg_size p - pg_read p) (tl ps))"

definition region_allocated :: "region \<Rightarrow> u64" where
  "region_allocated r = sumAttr (usedp r) pa_allocated + sumAttr (freep r) pa_allocated"

definition region_used :: "region \<Rightarrow> u64" where
  "region_used r = sumAttr (usedp r) pa_used"

definition region_wasted :: "region \<Rightarrow> u64" where
  "region_wasted r = sumAttr (usedp r) pa_wasted"

section \<open>Invariant\<close>

text \<open>
  What every operation keeps: a page is in use, no read pointer is past its page, free pages are
  unread, pages own distinct blocks, and the running total is the size of all pages.
\<close>

definition region_ok :: "region \<Rightarrow> bool" where
  "region_ok r \<longleftrightarrow>
     usedp r \<noteq> [] \<and>
     (\<forall>p \<in> set (usedp r). pg_read p \<le> pg_size p) \<and>
     (\<forall>p \<in> set (freep r). pg_read p = 0) \<and>
     distinct (map pg_base (usedp r @ freep r)) \<and>
     (\<forall>p \<in> set (usedp r @ freep r). pg_base p < nextBase r) \<and>
     totalAllocation r = region_allocated r"

lemma newpage_ok:
  assumes "newpage sz r = Some (p, r')"
  shows "pg_read p = 0" "sz \<le> pg_size p" "pg_base p = nextBase r"
    and "nextBase r' = Suc (nextBase r)" "totalAllocation r' = totalAllocation r + pg_size p"
    and "usedp r' = usedp r" "freep r' = freep r"
    and "minPageSize r' = minPageSize r" "maxPageSize r' = maxPageSize r"
  using assms by (auto simp: newpage_def Let_def split: if_splits)

lemma region_ok_push_new:
  assumes "region_ok r" "newpage sz r = Some (p, r')" "k \<le> pg_size p"
  shows "region_ok (r'\<lparr>usedp := p\<lparr>pg_read := k\<rparr> # usedp r\<rparr>)"
    and "region_ok (r'\<lparr>freep := p # freep r\<rparr>)"
  using assms(1,3) newpage_ok[OF assms(2)]
  by (auto simp: region_ok_def region_allocated_def less_Suc_eq algebra_simps)

lemma allocpage_ok:
  assumes "region_ok r" "allocpage sz r = Some r'"
  shows "region_ok r' \<and> (\<exists>q. usedp r' = q # usedp r \<and> pg_read q = 0 \<and> sz \<le> pg_size q)"
proof (cases "\<exists>p ps. freep r = p # ps \<and> sz \<le> pg_size p")
  case True
  with assms show ?thesis
    by (auto simp: allocpage_def region_ok_def region_allocated_def algebra_simps)
      (metis IntI empty_iff imageI)
next
  case False
  with assms(2) obtain q r1 where new: "newpage sz r = Some (q, r1)"
    and r': "r' = r1\<lparr>usedp := q # usedp r\<rparr>"
    by (auto simp: allocpage_def split: list.splits if_splits)
  note q = newpage_ok[OF new]
  have "q\<lparr>pg_read := 0\<rparr> = q" using q(1) by simp
  with region_ok_push_new(1)[OF assms(1) new, of 0] q r' show ?thesis by auto
qed

lemma region_malloc_cases:
  assumes "region_ok r" "region_malloc sz r = Some (a, r')"
  obtains (bump) p ps where "usedp r = p # ps" "pg_read p + sz \<le> pg_size p"
      "a = (pg_base p, pg_read p)" "r' = r\<lparr>usedp := p\<lparr>pg_read := pg_read p + sz\<rparr> # ps\<rparr>"
    | (page) q r1 where "allocpage sz r = Some r1" "usedp r1 = q # usedp r"
      "pg_read q = 0" "sz \<le> pg_size q" "a = (pg_base q, 0)"
      "r' = r1\<lparr>usedp := q\<lparr>pg_read := sz\<rparr> # usedp r\<rparr>"
proof (cases "\<exists>p ps. usedp r = p # ps \<and> pg_read p + sz \<le> pg_size p")
  case True
  with assms(2) bump show ?thesis by (auto simp: region_malloc_def Let_def)
next
  case False
  with assms obtain r1 where r1: "allocpage sz r = Some r1"
    by (auto simp: region_malloc_def Let_def split: list.splits if_splits option.splits)
  from allocpage_ok[OF assms(1) r1] obtain q
    where "usedp r1 = q # usedp r" "pg_read q = 0" "sz \<le> pg_size q" by auto
  with False assms r1 page show ?thesis
    by (auto simp: region_malloc_def Let_def split: list.splits if_splits option.splits)
qed

lemma region_malloc_ok:
  assumes "region_ok r" "region_malloc sz r = Some (a, r')"
  shows "region_ok r'"
  using assms
proof (cases rule: region_malloc_cases)
  case (bump p ps)
  with assms(1) show ?thesis by (auto simp: region_ok_def region_allocated_def)
next
  case (page q r1)
  from allocpage_ok[OF assms(1) page(1)] page(2,4,6) show ?thesis
    by (auto simp: region_ok_def region_allocated_def)
qed

lemma addFreePages_ok:
  assumes "region_ok r" "addFreePages n r = Some r'"
  shows "region_ok r'"
  using assms
proof (induction n arbitrary: r)
  case (Suc n)
  from Suc.prems(2) obtain p r1 where new: "newpage (minPageSize r) r = Some (p, r1)"
    and rest: "addFreePages n (r1\<lparr>freep := p # freep r1\<rparr>) = Some r'"
    by (auto split: option.splits)
  have "region_ok (r1\<lparr>freep := p # freep r1\<rparr>)"
    using region_ok_push_new(2)[OF Suc.prems(1) new, of 0] newpage_ok[OF new] by simp
  then show ?case using Suc.IH rest by blast
qed simp

lemma region_new_ok:
  assumes "region_new minsz n maxsz = Some r"
  shows "region_ok r"
proof -
  let ?r0 = "\<lparr>minPageSize = minsz, maxPageSize = maxsz, lastAllocPageSize = minsz,
    abortOnOOM = False, maxTotalAllocation = 0, totalAllocation = 0,
    usedp = [], freep = [], nextBase = 0\<rparr>"
  from assms obtain p r1 where new: "newpage minsz ?r0 = Some (p, r1)"
    and rest: "addFreePages n (r1\<lparr>usedp := [p]\<rparr>) = Some r"
    by (auto simp: region_new_def Let_def split: option.splits)
  have "region_ok (r1\<lparr>usedp := [p]\<rparr>)"
    using newpage_ok[OF new] by (simp add: region_ok_def region_allocated_def)
  then show ?thesis using rest by (rule addFreePages_ok)
qed

lemma freepages_simps:
  "freepages ps r = r\<lparr>totalAllocation := totalAllocation r - sum_list (map pg_size ps)\<rparr>"
  by (induction ps arbitrary: r) (simp_all add: freepage_def algebra_simps)

lemma region_clear_ok:
  assumes "region_ok r" "region_clear r = Some r'"
  shows "region_ok r'"
  using assms
  by (auto simp: region_clear_def region_ok_def region_allocated_def freepages_simps Let_def
      split: list.splits)

lemma sum_sizes_unread [simp]:
  "map (pg_size \<circ> (\<lambda>q. q\<lparr>pg_read := 0\<rparr>)) ps = map pg_size ps"
  "map (pg_base \<circ> (\<lambda>q. q\<lparr>pg_read := 0\<rparr>)) ps = map pg_base ps"
  by simp_all

lemma region_reset_ok:
  assumes "region_ok r" "region_reset r = Some r'"
  shows "region_ok r'"
  using assms
  by (auto simp: region_reset_def region_ok_def region_allocated_def algebra_simps
      split: list.splits)

section \<open>Blocks do not overlap\<close>

fun region_mallocs :: "u64 list \<Rightarrow> region \<Rightarrow> (ptr list \<times> region) option" where
  "region_mallocs [] r = Some ([], r)"
| "region_mallocs (sz # szs) r =
     (case region_malloc sz r of
        None \<Rightarrow> None
      | Some (a, r1) \<Rightarrow> map_option (\<lambda>(as, r2). (a # as, r2)) (region_mallocs szs r1))"

text \<open>
  \<open>region_small\<close> bounds the pages and the page limit by \<open>2 ^ 62\<close>, so that adding two sizes
  does not wrap. A block ending at offset \<open>e\<close> of page block \<open>b\<close> is \<open>reserved\<close> when nothing the
  region still has to give out overlaps it.
\<close>

definition region_small :: "region \<Rightarrow> bool" where
  "region_small r \<longleftrightarrow>
     (\<forall>p \<in> set (usedp r @ freep r). unat (pg_size p) \<le> 2 ^ 62) \<and> unat (maxPageSize r) \<le> 2 ^ 62"

definition reserved :: "region \<Rightarrow> nat \<Rightarrow> nat \<Rightarrow> bool" where
  "reserved r b e \<longleftrightarrow>
     b < nextBase r \<and> b \<notin> pg_base ` set (freep r) \<and>
     (\<forall>p \<in> set (usedp r). pg_base p = b \<longrightarrow> e \<le> unat (pg_read p))"

lemma newpage_small:
  assumes "newpage sz r = Some (p, r')" "region_small r" "unat sz \<le> 2 ^ 62"
  shows "unat (pg_size p) \<le> 2 ^ 62"
  using assms by (auto simp: newpage_def region_small_def Let_def max_def word_less_nat_alt
      split: if_splits)

lemma allocpage_frame:
  assumes "allocpage sz r = Some r'" "region_ok r" "region_small r" "unat sz \<le> 2 ^ 62"
  shows "region_small r'" and "reserved r b e \<Longrightarrow> reserved r' b e"
    and "reserved r b e \<Longrightarrow> usedp r' = q # usedp r \<Longrightarrow> pg_base q \<noteq> b"
    and "usedp r' = q # usedp r \<Longrightarrow> pg_base q < nextBase r' \<and> pg_base q \<notin> pg_base ` set (freep r')"
proof -
  consider (reuse) p where "freep r = p # freep r'" "r' = r\<lparr>usedp := p # usedp r, freep := freep r'\<rparr>"
    | (new) p r1 where "newpage sz r = Some (p, r1)" "r' = r1\<lparr>usedp := p # usedp r\<rparr>"
    using assms(1) by (auto simp: allocpage_def split: list.splits if_splits)
  then have "region_small r' \<and> (reserved r b e \<longrightarrow> reserved r' b e \<and>
      (usedp r' = q # usedp r \<longrightarrow> pg_base q \<noteq> b)) \<and>
      (usedp r' = q # usedp r \<longrightarrow> pg_base q < nextBase r' \<and> pg_base q \<notin> pg_base ` set (freep r'))"
  proof cases
    case reuse
    then show ?thesis using assms(2,3)
      by (cases r') (auto simp: region_small_def reserved_def region_ok_def)
  next
    case new
    note p = newpage_ok[OF new(1)] newpage_small[OF new(1) assms(3,4)]
    have "\<forall>x \<in> set (freep r). pg_base x \<noteq> nextBase r"
      using assms(2) by (force simp: region_ok_def)
    then show ?thesis using p new(2) assms(2,3)
      by (auto simp: region_small_def reserved_def region_ok_def)
  qed
  then show "region_small r'" "reserved r b e \<Longrightarrow> reserved r' b e"
    "reserved r b e \<Longrightarrow> usedp r' = q # usedp r \<Longrightarrow> pg_base q \<noteq> b"
    "usedp r' = q # usedp r \<Longrightarrow> pg_base q < nextBase r' \<and> pg_base q \<notin> pg_base ` set (freep r')"
    by auto
qed

lemma region_malloc_step:
  assumes "region_malloc sz r = Some ((b, off), r')" "region_ok r" "region_small r"
    and "unat sz \<le> 2 ^ 62"
  shows "region_small r'" and "reserved r' b (unat off + unat sz)"
    and "reserved r c e \<Longrightarrow> reserved r' c e"
    and "reserved r b e \<Longrightarrow> e \<le> unat off"
proof -
  have "region_small r' \<and> reserved r' b (unat off + unat sz) \<and>
       (reserved r c e \<longrightarrow> reserved r' c e) \<and> (reserved r b e \<longrightarrow> e \<le> unat off)"
    using assms(2,1)
  proof (cases rule: region_malloc_cases)
    case (bump p ps)
    have "pg_read p \<le> pg_size p" "unat (pg_size p) \<le> 2 ^ 62"
      using assms(2,3) bump(1) by (auto simp: region_ok_def region_small_def)
    then have le: "unat (pg_read p) \<le> 2 ^ 62" by (simp add: word_le_nat_alt)
    then have sum: "unat (pg_read p + sz) = unat (pg_read p) + unat sz"
      using assms(4) by (intro unat_plus_no_wrap) simp
    from bump assms(2,3) sum show ?thesis
      by (auto simp: region_small_def reserved_def region_ok_def image_iff)
  next
    case (page q r1)
    have ok1: "region_ok r1" using allocpage_ok[OF assms(2) page(1)] by simp
    note f = allocpage_frame[OF page(1) assms(2,3,4)]
    from f(1) f(2)[of c e] f(3)[of b e q] f(4)[of q] page ok1 show ?thesis
      by (auto simp: region_small_def reserved_def region_ok_def image_iff)
  qed
  then show "region_small r'" "reserved r' b (unat off + unat sz)"
    "reserved r c e \<Longrightarrow> reserved r' c e" "reserved r b e \<Longrightarrow> e \<le> unat off"
    by auto
qed

lemma region_mallocs_above:
  assumes "region_mallocs szs r = Some (ps, r')" "region_ok r" "region_small r"
    and "\<forall>sz \<in> set szs. unat sz \<le> 2 ^ 62" "reserved r b e"
    and "j < length szs" "fst (ps ! j) = b"
  shows "e \<le> unat (snd (ps ! j))"
  using assms
proof (induction szs arbitrary: r ps j)
  case (Cons sz szs)
  from Cons.prems(1) obtain a o1 r1 qs where m: "region_malloc sz r = Some ((a, o1), r1)"
    and ms: "region_mallocs szs r1 = Some (qs, r')" and ps: "ps = (a, o1) # qs"
    by (auto split: option.splits)
  note st = region_malloc_step[OF m Cons.prems(2,3)] and ok = region_malloc_ok[OF Cons.prems(2) m]
  show ?case
  proof (cases j)
    case 0
    with Cons.prems(4,5,7) st(4) ps show ?thesis by auto
  next
    case (Suc k)
    with Cons.prems st ps show ?thesis
      by (auto intro!: Cons.IH[OF ms ok])
  qed
qed simp

lemma region_mallocs_length:
  "region_mallocs szs r = Some (ps, r') \<Longrightarrow> length ps = length szs"
  by (induction szs arbitrary: r ps) (auto split: option.splits)


text \<open>
  The steps a region can take after its construction: whatever order they come in, the
  invariant holds.
\<close>

inductive region_reach :: "region \<Rightarrow> bool" where
  reach_new: "region_new minsz n maxsz = Some r \<Longrightarrow> region_reach r"
| reach_malloc: "region_reach r \<Longrightarrow> region_malloc sz r = Some (a, r') \<Longrightarrow> region_reach r'"
| reach_clear: "region_reach r \<Longrightarrow> region_clear r = Some r' \<Longrightarrow> region_reach r'"
| reach_reset: "region_reach r \<Longrightarrow> region_reset r = Some r' \<Longrightarrow> region_reach r'"
| reach_ceiling: "region_reach r \<Longrightarrow> region_reach (abortAtMemCeiling sz r)"

text \<open>
  C15. In every state a region reaches from its constructor by \<open>malloc\<close>, \<open>clear\<close>, \<open>reset\<close> and
  \<open>abortAtMemCeiling\<close>, in any order, a page is in use, no read pointer is past the end of its
  page, pages own distinct blocks and \<open>totalAllocation\<close> is what \<open>allocated()\<close> sums up.
\<close>

theorem region_reach_ok:
  assumes "region_reach r"
  shows "region_ok r"
  using assms
proof induction
  case (reach_ceiling r sz)
  then show ?case by (simp add: abortAtMemCeiling_def region_ok_def region_allocated_def)
qed (auto intro: region_new_ok region_malloc_ok region_clear_ok region_reset_ok)

text \<open>
  \<open>reset\<close> keeps every page: what is allocated stays the same, nothing counts as used or
  wasted any more.
\<close>

theorem reset_reuses:
  assumes "region_reset r = Some r'"
  shows "region_allocated r' = region_allocated r \<and> region_used r' = 0 \<and> region_wasted r' = 0"
  using assms
  by (auto simp: region_reset_def region_allocated_def region_used_def region_wasted_def
      algebra_simps split: list.splits)


section \<open>Witnesses\<close>


lemma region_reach_ok_witness:
  "\<exists>r. region_new 64 (Suc 0) 1024 = Some r \<and> region_ok r"
proof -
  obtain r where new: "region_new 64 (Suc 0) 1024 = Some r"
    by (auto simp: region_new_def newpage_def Let_def)
  show ?thesis using new region_reach_ok [OF reach_new [OF new]] by auto
qed

lemma reset_reuses_witness:
  "\<exists>r r'. region_new 64 (Suc 0) 1024 = Some r \<and> region_reset r = Some r' \<and>
     region_allocated r' = region_allocated r \<and> region_used r' = 0"
proof -
  obtain r where new: "region_new 64 (Suc 0) 1024 = Some r"
    by (auto simp: region_new_def newpage_def Let_def)
  obtain r' where reset: "region_reset r = Some r'"
    using region_new_ok [OF new] by (cases "usedp r") (auto simp: region_reset_def region_ok_def)
  show ?thesis using new reset reset_reuses [OF reset] by auto
qed

end
