(* ===== verification/Range_Map.thy ===== *)
theory Range_Map
  imports Hobbes_Prelude
begin

text \<open>
  The range map of \<^verbatim>\<open>include/hobbes/util/rmap.H\<close> at the key type its two users have
  (\<^verbatim>\<open>ntransitions\<close> and \<^verbatim>\<open>dtransitions\<close> of \<^verbatim>\<open>lib/hobbes/lang/pat/regex.C\<close>): bytes ordered by
  \<open>char_range_ord\<close>. The class keeps two vectors, \<open>rs\<close> and \<open>vs\<close>, that every operation grows
  and shrinks at the same index; the model keeps one list of range/value pairs. An update
  loop that walks an index \<open>i\<close> is a recursion on the rest of the list from \<open>i\<close> on.
\<close>

section \<open>Characters and their order\<close>

type_synonym rchar = u8

definition ord_pred :: "rchar \<Rightarrow> rchar" where
  "ord_pred x = x - 1"

definition ord_succ :: "rchar \<Rightarrow> rchar" where
  "ord_succ x = x + 1"

lemma ord_succ_le [char_ranges]: "a < b \<Longrightarrow> ord_succ a \<le> z \<longleftrightarrow> a < z"
  by (simp add: ord_succ_def word_succ_le_iff)

lemma ord_succ_gr [char_ranges]: "a < b \<Longrightarrow> z < ord_succ a \<longleftrightarrow> z \<le> a"
  using ord_succ_le [of a b z] by (simp add: linorder_not_le [symmetric] linorder_not_less)

lemma le_ord_pred [char_ranges]: "a < b \<Longrightarrow> z \<le> ord_pred b \<longleftrightarrow> z < b"
  by (simp add: ord_pred_def word_le_pred_iff)

lemma gr_ord_pred [char_ranges]: "a < b \<Longrightarrow> ord_pred b < z \<longleftrightarrow> b \<le> z"
  using le_ord_pred [of a b z] by (simp add: linorder_not_le [symmetric] linorder_not_less)

lemma le_ord_succ [char_ranges]: "a < b \<Longrightarrow> z \<le> a \<Longrightarrow> z \<le> ord_succ a"
  using ord_succ_gr [of a b a] by (meson le_less_trans less_imp_le order_refl)

lemma ord_pred_le [char_ranges]: "a < b \<Longrightarrow> b \<le> z \<Longrightarrow> ord_pred b \<le> z"
  using gr_ord_pred [of a b z] by (simp add: less_imp_le)

lemma ord_pred_succ [simp]: "ord_pred (ord_succ x) = x" "ord_succ (ord_pred x) = x"
  by (simp_all add: ord_pred_def ord_succ_def)

text \<open>\<open>copyRange\<close> runs its byte counter up to and including the last key.\<close>

function copyRange :: "rchar \<Rightarrow> rchar \<Rightarrow> rchar set \<Rightarrow> rchar set" where
  "copyRange t e out =
     (if t = e then insert t out else copyRange (ord_succ t) e (insert t out))"
  by pat_completeness auto
termination
proof (relation "measure (\<lambda>(t, e, out). unat (e - t))")
  fix t e :: rchar and out :: "rchar set"
  assume "t \<noteq> e"
  then have "e - t \<noteq> 0" by simp
  then have "unat (e - t - 1) < unat (e - t)" by (rule measure_unat)
  moreover have "e - ord_succ t = e - t - 1" by (simp add: ord_succ_def algebra_simps)
  ultimately show "((ord_succ t, e, insert t out), t, e, out) \<in> measure (\<lambda>(t, e, out). unat (e - t))"
    by (simp only: in_measure prod.case)
qed simp

declare copyRange.simps [simp del]

section \<open>Classifying intersections\<close>

type_synonym range = "rchar \<times> rchar"

type_synonym 'v rmap = "(range \<times> 'v) list"

datatype range_intersection =
  LLRR | RRLL | EE | ELR | ERL | LRE | RLE | LRRL | RLLR | LRLR | RLRL

definition classifyIntersection :: "range \<Rightarrow> range \<Rightarrow> range_intersection" where
  "classifyIntersection lr rr =
     (if snd lr < fst rr then LLRR
      else if snd rr < fst lr then RRLL
      else if fst lr = fst rr then
        (if snd lr = snd rr then EE else if snd lr < snd rr then ELR else ERL)
      else if snd lr = snd rr then
        (if fst lr < fst rr then LRE else RLE)
      else if fst lr < fst rr \<and> snd rr < snd lr then LRRL
      else if fst rr < fst lr \<and> snd lr < snd rr then RLLR
      else if fst rr < fst lr \<and> snd rr < snd lr then RLRL
      else LRLR)"

section \<open>Operations\<close>

fun rm_find :: "rchar \<Rightarrow> 'v rmap \<Rightarrow> nat" where
  "rm_find k [] = 0"
| "rm_find k ((r, v) # m) =
     (if k = fst r \<or> k = snd r \<or> (fst r < k \<and> k < snd r) then 0
      else if k < fst r then Suc (length m)
      else Suc (rm_find k m))"

definition rm_lookup :: "'v rmap \<Rightarrow> rchar \<Rightarrow> 'v option" where
  "rm_lookup m k = (let i = rm_find k m in if i < length m then Some (snd (m ! i)) else None)"

definition rm_lookupRangeSubset :: "'v rmap \<Rightarrow> range \<Rightarrow> 'v option" where
  "rm_lookupRangeSubset m kr =
     (let i = rm_find (fst kr) m; j = rm_find (snd kr) m
      in if i = j \<and> i < length m then Some (snd (m ! i)) else None)"

fun rm_deleteFrom :: "range \<Rightarrow> 'v rmap \<Rightarrow> 'v rmap" where
  "rm_deleteFrom rr [] = []"
| "rm_deleteFrom rr ((lr, lv) # m) =
     (case classifyIntersection lr rr of
        LLRR \<Rightarrow> (lr, lv) # rm_deleteFrom rr m
      | RRLL \<Rightarrow> (lr, lv) # m
      | EE \<Rightarrow> m
      | ELR \<Rightarrow> rm_deleteFrom rr m
      | ERL \<Rightarrow> ((ord_succ (snd rr), snd lr), lv) # m
      | LRE \<Rightarrow> ((fst lr, ord_pred (fst rr)), lv) # m
      | RLE \<Rightarrow> m
      | LRRL \<Rightarrow> ((fst lr, ord_pred (fst rr)), lv) # ((ord_succ (snd rr), snd lr), lv) # m
      | RLLR \<Rightarrow> rm_deleteFrom rr m
      | LRLR \<Rightarrow> ((fst lr, ord_pred (fst rr)), lv) # rm_deleteFrom rr m
      | RLRL \<Rightarrow> ((ord_succ (snd rr), snd lr), lv) # m)"

fun rm_insert :: "range \<Rightarrow> 'v \<Rightarrow> 'v rmap \<Rightarrow> 'v rmap" where
  "rm_insert rr v [] = [(rr, v)]"
| "rm_insert rr v ((lr, lv) # m) =
     (case classifyIntersection lr rr of
        LLRR \<Rightarrow> (lr, lv) # rm_insert rr v m
      | RRLL \<Rightarrow> (rr, v) # (lr, lv) # m
      | EE \<Rightarrow> (lr, v) # m
      | ELR \<Rightarrow> ((fst lr, snd rr), v) # rm_deleteFrom rr m
      | ERL \<Rightarrow> (rr, v) # ((ord_succ (snd rr), snd lr), lv) # m
      | LRE \<Rightarrow> ((fst lr, ord_pred (fst rr)), lv) # (rr, v) # m
      | RLE \<Rightarrow> ((fst rr, snd lr), v) # m
      | LRRL \<Rightarrow> ((fst lr, ord_pred (fst rr)), lv) # (rr, v) #
                ((ord_succ (snd rr), snd lr), lv) # m
      | RLLR \<Rightarrow> ((fst rr, snd rr), v) # rm_deleteFrom rr m
      | LRLR \<Rightarrow> ((fst lr, ord_pred (fst rr)), lv) # (rr, v) # rm_deleteFrom rr m
      | RLRL \<Rightarrow> (rr, v) # ((ord_succ (snd rr), snd lr), lv) # m)"

text \<open>
  \<open>mergeRange\<close> applies \<open>f\<close> to the value of every key of the range, giving keys without one
  the value \<open>f V()\<close>; \<open>dv\<close> is \<open>V()\<close>. Where the C++ loop carries on with a shortened range
  (\<open>ELR\<close>, \<open>RLLR\<close>, \<open>LRLR\<close>), the entries it has just written end before that range and are
  classified \<open>LLRR\<close>, that is, skipped, so the recursion goes straight to what follows them.
\<close>

fun rm_mergeRange :: "'v \<Rightarrow> range \<Rightarrow> ('v \<Rightarrow> 'v) \<Rightarrow> 'v rmap \<Rightarrow> 'v rmap" where
  "rm_mergeRange dv rr f [] = [(rr, f dv)]"
| "rm_mergeRange dv rr f ((lr, lv) # m) =
     (case classifyIntersection lr rr of
        LLRR \<Rightarrow> (lr, lv) # rm_mergeRange dv rr f m
      | RRLL \<Rightarrow> (rr, f dv) # (lr, lv) # m
      | EE \<Rightarrow> (lr, f lv) # m
      | ELR \<Rightarrow> (lr, f lv) # rm_mergeRange dv (ord_succ (snd lr), snd rr) f m
      | ERL \<Rightarrow> ((fst lr, snd rr), f lv) # ((ord_succ (snd rr), snd lr), lv) # m
      | LRE \<Rightarrow> ((fst lr, ord_pred (fst rr)), lv) # (rr, f lv) # m
      | RLE \<Rightarrow> ((fst rr, ord_pred (fst lr)), f dv) # (lr, f lv) # m
      | LRRL \<Rightarrow> ((fst lr, ord_pred (fst rr)), lv) # (rr, f lv) #
                ((ord_succ (snd rr), snd lr), lv) # m
      | RLLR \<Rightarrow> ((fst rr, ord_pred (fst lr)), f dv) # (lr, f lv) #
                rm_mergeRange dv (ord_succ (snd lr), snd rr) f m
      | LRLR \<Rightarrow> ((fst lr, ord_pred (fst rr)), lv) # ((fst rr, snd lr), f lv) #
                rm_mergeRange dv (ord_succ (snd lr), snd rr) f m
      | RLRL \<Rightarrow> ((fst rr, ord_pred (fst lr)), f dv) # ((fst lr, snd rr), f lv) #
                ((ord_succ (snd rr), snd lr), lv) # m)"

definition rm_keys :: "'v rmap \<Rightarrow> rchar set" where
  "rm_keys m = foldl (\<lambda>ks (r, v). copyRange (fst r) (snd r) ks) {} m"

definition rm_mapping :: "'v rmap \<Rightarrow> (range \<times> 'v) list" where
  "rm_mapping m = m"

function disjointRanges_loop :: "range list \<Rightarrow> range list \<Rightarrow> range list" where
  "disjointRanges_loop [] rrs = rrs"
| "disjointRanges_loop (lr # lrs) [] = lr # lrs"
| "disjointRanges_loop (lr # lrs) (rr # rrs) =
     (case classifyIntersection lr rr of
        LLRR \<Rightarrow> lr # disjointRanges_loop lrs (rr # rrs)
      | RRLL \<Rightarrow> rr # disjointRanges_loop (lr # lrs) rrs
      | EE \<Rightarrow> lr # disjointRanges_loop lrs rrs
      | ELR \<Rightarrow> lr # disjointRanges_loop lrs ((ord_succ (snd lr), snd rr) # rrs)
      | ERL \<Rightarrow> rr # disjointRanges_loop ((ord_succ (snd rr), snd lr) # lrs) rrs
      | LRE \<Rightarrow> (fst lr, ord_pred (fst rr)) # (fst rr, snd rr) # disjointRanges_loop lrs rrs
      | RLE \<Rightarrow> (fst rr, ord_pred (fst lr)) # (fst lr, snd lr) # disjointRanges_loop lrs rrs
      | LRRL \<Rightarrow> (fst lr, ord_pred (fst rr)) # (fst rr, snd rr) #
                disjointRanges_loop ((ord_succ (snd rr), snd lr) # lrs) rrs
      | RLLR \<Rightarrow> (fst rr, ord_pred (fst lr)) # (fst lr, snd lr) #
                disjointRanges_loop lrs ((ord_succ (snd lr), snd rr) # rrs)
      | LRLR \<Rightarrow> (fst lr, ord_pred (fst rr)) #
                (if fst rr \<noteq> snd lr then [(fst rr, ord_pred (snd lr))] else []) @
                disjointRanges_loop lrs ((snd lr, snd rr) # rrs)
      | RLRL \<Rightarrow> (fst rr, ord_pred (fst lr)) #
                (if fst lr \<noteq> snd rr then [(fst lr, ord_pred (snd rr))] else []) @
                disjointRanges_loop ((snd rr, snd lr) # lrs) rrs)"
  by pat_completeness auto
termination
  by (relation "measure (\<lambda>(lrs, rrs). length lrs + length rrs)") auto

definition rm_disjointRanges :: "'v rmap \<Rightarrow> range list \<Rightarrow> range list" where
  "rm_disjointRanges m trs = disjointRanges_loop (map fst m) trs"

fun rm_compact :: "'v rmap \<Rightarrow> 'v rmap" where
  "rm_compact [] = []"
| "rm_compact [e] = [e]"
| "rm_compact ((tr, tv) # (nr, nv) # m) =
     (if snd tr = ord_pred (fst nr) \<and> tv = nv
      then rm_compact (((fst tr, snd nr), tv) # m)
      else (tr, tv) # rm_compact ((nr, nv) # m))"

section \<open>Well-formed maps\<close>

text \<open>A map is well formed when its ranges are non-empty, disjoint and in ascending order.\<close>

definition in_range :: "rchar \<Rightarrow> range \<Rightarrow> bool" where
  "in_range k r \<longleftrightarrow> fst r \<le> k \<and> k \<le> snd r"

definition valid_range :: "range \<Rightarrow> bool" where
  "valid_range r \<longleftrightarrow> fst r \<le> snd r"

fun ranges_sorted :: "range list \<Rightarrow> bool" where
  "ranges_sorted [] = True"
| "ranges_sorted (r # rs) =
     (valid_range r \<and> (\<forall>r' \<in> set rs. snd r < fst r') \<and> ranges_sorted rs)"

definition rm_ok :: "'v rmap \<Rightarrow> bool" where
  "rm_ok m \<longleftrightarrow> ranges_sorted (map fst m)"

lemma rm_ok_Nil [simp]: "rm_ok []"
  by (simp add: rm_ok_def)

lemma rm_ok_Cons [simp]:
  "rm_ok ((r, v) # m) \<longleftrightarrow> valid_range r \<and> (\<forall>e \<in> set m. snd r < fst (fst e)) \<and> rm_ok m"
  by (auto simp: rm_ok_def)

lemma classify_cases:
  assumes "fst lr \<le> snd lr" "fst rr \<le> snd rr"
  obtains "classifyIntersection lr rr = LLRR" "snd lr < fst rr"
    | "classifyIntersection lr rr = RRLL" "snd rr < fst lr"
    | "classifyIntersection lr rr = EE" "fst lr = fst rr" "snd lr = snd rr"
    | "classifyIntersection lr rr = ELR" "fst lr = fst rr" "snd lr < snd rr"
    | "classifyIntersection lr rr = ERL" "fst lr = fst rr" "snd rr < snd lr"
    | "classifyIntersection lr rr = LRE" "snd lr = snd rr" "fst lr < fst rr"
    | "classifyIntersection lr rr = RLE" "snd lr = snd rr" "fst rr < fst lr"
    | "classifyIntersection lr rr = LRRL" "fst lr < fst rr" "snd rr < snd lr"
    | "classifyIntersection lr rr = RLLR" "fst rr < fst lr" "snd lr < snd rr"
    | "classifyIntersection lr rr = RLRL" "fst rr < fst lr" "fst lr \<le> snd rr" "snd rr < snd lr"
    | "classifyIntersection lr rr = LRLR" "fst lr < fst rr" "fst rr \<le> snd lr" "snd lr < snd rr"
proof -
  define a b c d where abcd: "a = fst lr" "b = snd lr" "c = fst rr" "d = snd rr"
  have ab: "a \<le> b" "c \<le> d" using assms by (simp_all add: abcd)
  note cl = classifyIntersection_def [of lr rr, folded abcd]
  note thats = that [folded abcd]
  show ?thesis
  proof (cases a c rule: linorder_cases)
    case less
    then have n: "\<not> d < a" "\<not> c < a" "a \<noteq> c" using ab by order+
    show ?thesis
    proof (cases "b < c")
      case True
      then show ?thesis using cl by (intro thats(1)) simp_all
    next
      case False
      then have "b < d \<Longrightarrow> classifyIntersection lr rr = LRLR"
        "b = d \<Longrightarrow> classifyIntersection lr rr = LRE"
        "d < b \<Longrightarrow> classifyIntersection lr rr = LRRL"
        using n less by (auto simp: cl)
      with False less thats(6,8,11) show ?thesis
        by (cases b d rule: linorder_cases) (simp_all add: linorder_not_less)
    qed
  next
    case equal
    then have n: "\<not> d < a" "\<not> b < c" using ab by order+
    then have "b < d \<Longrightarrow> classifyIntersection lr rr = ELR"
      "b = d \<Longrightarrow> classifyIntersection lr rr = EE"
      "d < b \<Longrightarrow> classifyIntersection lr rr = ERL"
      using equal by (auto simp: cl)
    with equal thats(3,4,5) show ?thesis
      by (cases b d rule: linorder_cases) simp_all
  next
    case greater
    then have n: "\<not> b < c" "\<not> a < c" "a \<noteq> c" using ab by order+
    show ?thesis
    proof (cases "d < a")
      case True
      then show ?thesis using cl n by (intro thats(2)) simp_all
    next
      case False
      then have "b < d \<Longrightarrow> classifyIntersection lr rr = RLLR"
        "b = d \<Longrightarrow> classifyIntersection lr rr = RLE"
        "d < b \<Longrightarrow> classifyIntersection lr rr = RLRL"
        using n greater by (auto simp: cl)
      with False greater thats(7,9,10) show ?thesis
        by (cases b d rule: linorder_cases) (simp_all add: linorder_not_less)
    qed
  qed
qed

lemma classify_iff:
  assumes "valid_range lr" "valid_range rr"
  shows "classifyIntersection lr rr = LLRR \<longleftrightarrow> snd lr < fst rr"
    and "classifyIntersection lr rr = RRLL \<longleftrightarrow> snd rr < fst lr"
    and "classifyIntersection lr rr = EE \<longleftrightarrow> fst lr = fst rr \<and> snd lr = snd rr"
    and "classifyIntersection lr rr = ELR \<longleftrightarrow> fst lr = fst rr \<and> snd lr < snd rr"
    and "classifyIntersection lr rr = ERL \<longleftrightarrow> fst lr = fst rr \<and> snd rr < snd lr"
    and "classifyIntersection lr rr = LRE \<longleftrightarrow> snd lr = snd rr \<and> fst lr < fst rr"
    and "classifyIntersection lr rr = RLE \<longleftrightarrow> snd lr = snd rr \<and> fst rr < fst lr"
    and "classifyIntersection lr rr = LRRL \<longleftrightarrow> fst lr < fst rr \<and> snd rr < snd lr"
    and "classifyIntersection lr rr = RLLR \<longleftrightarrow> fst rr < fst lr \<and> snd lr < snd rr"
    and "classifyIntersection lr rr = RLRL \<longleftrightarrow>
           fst rr < fst lr \<and> fst lr \<le> snd rr \<and> snd rr < snd lr"
    and "classifyIntersection lr rr = LRLR \<longleftrightarrow>
           fst lr < fst rr \<and> fst rr \<le> snd lr \<and> snd lr < snd rr"
  using assms unfolding valid_range_def
  by - (rule classify_cases [of lr rr]; force)+

lemma range_test:
  assumes "valid_range r"
  shows "k = fst r \<or> k = snd r \<or> (fst r < k \<and> k < snd r) \<longleftrightarrow> in_range k r"
  using assms by (auto simp: valid_range_def in_range_def)

lemma rm_find_before: "\<forall>e \<in> set m. k < fst (fst e) \<Longrightarrow> rm_ok m \<Longrightarrow> rm_find k m = length m"
  by (induction k m rule: rm_find.induct) (auto simp: range_test in_range_def)

lemma rm_find_Cons:
  assumes "rm_ok ((r, v) # m)"
  shows "rm_find k ((r, v) # m) = (if in_range k r then 0 else Suc (rm_find k m))"
proof -
  have "k < fst r \<Longrightarrow> rm_find k m = length m"
    using assms by (intro rm_find_before) (auto simp: valid_range_def)
  then show ?thesis using assms
    by (simp add: range_test)
qed

lemma rm_lookup_Nil [simp]: "rm_lookup [] k = None"
  by (simp add: rm_lookup_def)

lemma rm_lookup_Cons:
  assumes "rm_ok ((r, v) # m)"
  shows "rm_lookup ((r, v) # m) k = (if in_range k r then Some v else rm_lookup m k)"
  using rm_find_Cons [OF assms, of k] by (simp add: rm_lookup_def Let_def)

lemma rm_lookup_before:
  assumes "rm_ok m" "\<forall>e \<in> set m. k < fst (fst e)"
  shows "rm_lookup m k = None"
  using rm_find_before [OF assms(2,1)] by (simp add: rm_lookup_def)

lemma rm_lookup_Some_iff:
  "rm_ok m \<Longrightarrow> rm_lookup m k = Some v \<longleftrightarrow> (\<exists>r. (r, v) \<in> set m \<and> in_range k r)"
proof (induction m)
  case (Cons e m)
  obtain r w where e: "e = (r, w)" by (cases e)
  with Cons show ?case
    by (auto simp: rm_lookup_Cons in_range_def dest: bspec split: if_splits) (force+)
qed simp

section \<open>Insertion\<close>

lemma deleteFrom_above:
  assumes "valid_range rr" "rm_ok m" "\<forall>e \<in> set m. x < fst (fst e)"
  shows "\<forall>e \<in> set (rm_deleteFrom rr m). x < fst (fst e)"
  using assms
  by (induction rr m rule: rm_deleteFrom.induct)
    (auto simp: classify_iff char_ranges valid_range_def split: range_intersection.splits)

lemma deleteFrom_ok:
  assumes "valid_range rr" "rm_ok m"
  shows "rm_ok (rm_deleteFrom rr m)"
  using assms
proof (induction rr m rule: rm_deleteFrom.induct)
  case (2 rr lr lv m)
  have lr: "fst lr \<le> snd lr" and rr: "fst rr \<le> snd rr" and m: "rm_ok m"
    "\<forall>e \<in> set m. snd lr < fst (fst e)"
    using "2.prems" by (auto simp: valid_range_def)
  show ?case
    using lr rr
  proof (cases rule: classify_cases)
    case 1
    then show ?thesis using 2 lr m deleteFrom_above [OF "2.prems"(1) m] by simp
  qed (use 2 lr rr m deleteFrom_above [OF "2.prems"(1) m] in
      \<open>auto simp: valid_range_def char_ranges\<close>)
qed simp


lemma deleteFrom_lookup:
  assumes "valid_range rr" "rm_ok m"
  shows "rm_lookup (rm_deleteFrom rr m) k = (if in_range k rr then None else rm_lookup m k)"
  using assms
proof (induction rr m rule: rm_deleteFrom.induct)
  case (2 rr lr lv m)
  have lr: "fst lr \<le> snd lr" and rr: "fst rr \<le> snd rr" and m: "rm_ok m"
    "\<forall>e \<in> set m. snd lr < fst (fst e)"
    using "2.prems" by (auto simp: valid_range_def)
  note ok = deleteFrom_ok [OF "2.prems"(1) m(1)] deleteFrom_above [OF "2.prems"(1) m]
    deleteFrom_ok [OF "2.prems"]
  have before: "k \<le> snd lr \<Longrightarrow> rm_lookup m k = None"
    using m by (intro rm_lookup_before) auto
  show ?case
    using lr rr
  proof (cases rule: classify_cases)
    case 1
    then show ?thesis using 2 lr rr m ok
      by (auto simp: rm_lookup_Cons in_range_def)
  qed (use 2 lr rr m ok before in
      \<open>auto simp: rm_lookup_Cons in_range_def char_ranges\<close>)
qed simp

lemma deleteFrom_beyond:
  assumes "valid_range rr" "rm_ok m" "\<forall>e \<in> set m. fst rr \<le> fst (fst e)"
  shows "\<forall>e \<in> set (rm_deleteFrom rr m). snd rr < fst (fst e)"
  using assms
proof (induction rr m rule: rm_deleteFrom.induct)
  case (2 rr lr lv m)
  have lr: "fst lr \<le> snd lr" and rr: "fst rr \<le> snd rr" and m: "rm_ok m"
    "\<forall>e \<in> set m. snd lr < fst (fst e)" "\<forall>e \<in> set m. fst rr \<le> fst (fst e)" "fst rr \<le> fst lr"
    using "2.prems" by (auto simp: valid_range_def)
  show ?case
    using lr rr
    by (cases rule: classify_cases) (use 2 lr rr m in \<open>auto simp: char_ranges\<close>)
qed simp

lemma insert_above:
  assumes "valid_range rr" "rm_ok m" "\<forall>e \<in> set m. x < fst (fst e)" "x < fst rr"
  shows "\<forall>e \<in> set (rm_insert rr v m). x < fst (fst e)"
  using assms
proof (induction rr v m rule: rm_insert.induct)
  case (2 rr v lr lv m)
  have lr: "fst lr \<le> snd lr" and rr: "fst rr \<le> snd rr" and m: "rm_ok m"
    "\<forall>e \<in> set m. snd lr < fst (fst e)" "\<forall>e \<in> set m. x < fst (fst e)"
    using "2.prems" by (auto simp: valid_range_def)
  show ?case
    using lr rr
    by (cases rule: classify_cases)
      (use 2 lr rr m deleteFrom_above [OF "2.prems"(1) m(1,3)] in
       \<open>auto simp: valid_range_def char_ranges\<close>)
qed simp

lemma insert_ok:
  assumes "valid_range rr" "rm_ok m"
  shows "rm_ok (rm_insert rr v m)"
  using assms
proof (induction rr v m rule: rm_insert.induct)
  case (2 rr v lr lv m)
  have lr: "fst lr \<le> snd lr" and rr: "fst rr \<le> snd rr" and m: "rm_ok m"
    "\<forall>e \<in> set m. snd lr < fst (fst e)"
    using "2.prems" by (auto simp: valid_range_def)
  note del = deleteFrom_ok [OF "2.prems"(1) m(1)] deleteFrom_above [OF "2.prems"(1) m]
    insert_above [OF "2.prems"(1) m]
  have lk: "fst rr \<le> snd lr \<Longrightarrow> \<forall>e \<in> set (rm_deleteFrom rr m). snd rr < fst (fst e)"
    using m by (intro deleteFrom_beyond [OF "2.prems"(1)]) auto
  show ?case
    using lr rr
    by (cases rule: classify_cases)
      (use 2 lr rr m del lk in \<open>auto simp: valid_range_def char_ranges\<close>)
qed (simp add: valid_range_def)

lemma insert_lookup:
  assumes "valid_range rr" "rm_ok m"
  shows "rm_lookup (rm_insert rr v m) k = (if in_range k rr then Some v else rm_lookup m k)"
  using assms
proof (induction rr v m rule: rm_insert.induct)
  case (2 rr v lr lv m)
  have lr: "fst lr \<le> snd lr" and rr: "fst rr \<le> snd rr" and m: "rm_ok m"
    "\<forall>e \<in> set m. snd lr < fst (fst e)"
    using "2.prems" by (auto simp: valid_range_def)
  note ok = insert_ok [OF "2.prems", of v]
    deleteFrom_lookup [OF "2.prems"(1) m(1), of k]
  have before: "k \<le> snd lr \<Longrightarrow> rm_lookup m k = None"
    using m by (intro rm_lookup_before) auto
  show ?case
    using lr rr
    by (cases rule: classify_cases)
      (use 2 lr rr m ok before in \<open>auto simp: rm_lookup_Cons in_range_def char_ranges\<close>)
qed (simp add: rm_lookup_Cons)

section \<open>Merging, compaction and keys\<close>

lemma mergeRange_above:
  assumes "valid_range rr" "rm_ok m" "\<forall>e \<in> set m. x < fst (fst e)" "x < fst rr"
  shows "\<forall>e \<in> set (rm_mergeRange dv rr f m). x < fst (fst e)"
  using assms
proof (induction dv rr f m rule: rm_mergeRange.induct)
  case (2 dv rr f lr lv m)
  have lr: "fst lr \<le> snd lr" and rr: "fst rr \<le> snd rr" and m: "rm_ok m"
    "\<forall>e \<in> set m. snd lr < fst (fst e)" "\<forall>e \<in> set m. x < fst (fst e)" "x < fst lr"
    using "2.prems" by (auto simp: valid_range_def)
  have nr: "valid_range (ord_succ (snd lr), snd rr)" "x < ord_succ (snd lr)"
    if "snd lr < snd rr"
    using that m(4) lr by (auto simp: valid_range_def char_ranges)
  note IH = "2.IH"(1) [OF _ "2.prems"(1) m(1,3) "2.prems"(4)]
    "2.IH"(2) [OF _ nr(1) m(1,3)] "2.IH"(3) [OF _ nr(1) m(1,3)] "2.IH"(4) [OF _ nr(1) m(1,3)]
  show ?case
    using lr rr
    by (cases rule: classify_cases) (use IH nr "2.prems" m(3,4) lr rr in \<open>simp_all add: char_ranges\<close>)
qed simp

lemma mergeRange_ok:
  assumes "valid_range rr" "rm_ok m"
  shows "rm_ok (rm_mergeRange dv rr f m)"
  using assms
proof (induction dv rr f m rule: rm_mergeRange.induct)
  case (2 dv rr f lr lv m)
  have lr: "fst lr \<le> snd lr" and rr: "fst rr \<le> snd rr" and m: "rm_ok m"
    "\<forall>e \<in> set m. snd lr < fst (fst e)"
    using "2.prems" by (auto simp: valid_range_def)
  have rest: "snd lr < snd rr \<Longrightarrow>
      \<forall>e \<in> set (rm_mergeRange dv (ord_succ (snd lr), snd rr) f m). snd lr < fst (fst e)"
    using m by (intro mergeRange_above) (auto simp: valid_range_def char_ranges)
  have nr: "valid_range (ord_succ (snd lr), snd rr)" if "snd lr < snd rr"
    using that by (auto simp: valid_range_def char_ranges)
  note IH = "2.IH"(1) [OF _ "2.prems"(1) m(1)]
    "2.IH"(2) [OF _ nr m(1)] "2.IH"(3) [OF _ nr m(1)] "2.IH"(4) [OF _ nr m(1)]
  show ?case
    using lr rr
    by (cases rule: classify_cases)
      (use IH rest lr rr m mergeRange_above [OF "2.prems"(1) m, of dv f] in
        \<open>auto simp: valid_range_def char_ranges\<close>)
qed simp

lemma mergeRange_lookup:
  assumes "valid_range rr" "rm_ok m"
  shows "rm_lookup (rm_mergeRange dv rr f m) k =
    (if in_range k rr then Some (f (case rm_lookup m k of None \<Rightarrow> dv | Some v \<Rightarrow> v))
     else rm_lookup m k)"
  using assms
proof (induction dv rr f m rule: rm_mergeRange.induct)
  case (2 dv rr f lr lv m)
  have lr: "fst lr \<le> snd lr" and rr: "fst rr \<le> snd rr" and m: "rm_ok m"
    "\<forall>e \<in> set m. snd lr < fst (fst e)"
    using "2.prems" by (auto simp: valid_range_def)
  note ok = mergeRange_ok [OF "2.prems", of dv f]
  have before: "k \<le> snd lr \<Longrightarrow> rm_lookup m k = None"
    using m by (intro rm_lookup_before) auto
  have nr: "valid_range (ord_succ (snd lr), snd rr)" if "snd lr < snd rr"
    using that by (auto simp: valid_range_def char_ranges)
  note IH = "2.IH"(1) [OF _ "2.prems"(1) m(1)]
    "2.IH"(2) [OF _ nr m(1)] "2.IH"(3) [OF _ nr m(1)] "2.IH"(4) [OF _ nr m(1)]
  show ?case
    using lr rr
    by (cases rule: classify_cases)
      (use IH lr rr m ok before "2.prems" nr in
        \<open>auto simp: rm_lookup_Cons in_range_def char_ranges\<close>)
qed (simp add: rm_lookup_Cons)

lemma compact_above:
  "\<forall>e \<in> set m. x < fst (fst e) \<Longrightarrow> \<forall>e \<in> set (rm_compact m). x < fst (fst e)"
  by (induction m rule: rm_compact.induct) auto

lemma compact_ok: "rm_ok m \<Longrightarrow> rm_ok (rm_compact m)"
proof (induction m rule: rm_compact.induct)
  case (3 tr tv nr nv m)
  show ?case
  proof (cases "snd tr = ord_pred (fst nr) \<and> tv = nv")
    case True
    have "fst tr \<le> snd tr" "snd tr < fst nr" "fst nr \<le> snd nr"
      using "3.prems" by (simp_all add: valid_range_def)
    then have "valid_range (fst tr, snd nr)" by (simp add: valid_range_def)
    then have "rm_ok (((fst tr, snd nr), tv) # m)" using "3.prems" by simp
    with "3.IH"(1) True show ?thesis by simp
  next
    case False
    have "rm_ok (rm_compact ((nr, nv) # m))" "valid_range tr"
      using "3.IH"(2) [OF False] "3.prems" by simp_all
    moreover have "\<forall>e \<in> set (rm_compact ((nr, nv) # m)). snd tr < fst (fst e)"
      using "3.prems" by (intro compact_above) simp
    moreover have "rm_compact ((tr, tv) # (nr, nv) # m) = (tr, tv) # rm_compact ((nr, nv) # m)"
      using False by (simp only: rm_compact.simps if_False)
    ultimately show ?thesis by simp
  qed
qed simp_all

lemma compact_lookup: "rm_ok m \<Longrightarrow> rm_lookup (rm_compact m) k = rm_lookup m k"
proof (induction m rule: rm_compact.induct)
  case (3 tr tv nr nv m)
  show ?case
  proof (cases "snd tr = ord_pred (fst nr) \<and> tv = nv")
    case True
    have "snd tr < fst nr" "fst tr \<le> snd tr" "fst nr \<le> snd nr"
      using "3.prems" by (auto simp: valid_range_def)
    then have "in_range k (fst tr, snd nr) \<longleftrightarrow> in_range k tr \<or> in_range k nr"
      using True by (auto simp: in_range_def char_ranges)
    moreover have ok: "rm_ok (((fst tr, snd nr), tv) # m)"
      using "3.prems" \<open>snd tr < fst nr\<close> \<open>fst tr \<le> snd tr\<close> \<open>fst nr \<le> snd nr\<close>
      by (simp add: valid_range_def)
    ultimately show ?thesis
      using "3.IH"(1) [OF True ok] "3.prems" True by (simp add: rm_lookup_Cons)
  next
    case False
    with 3 compact_ok [OF "3.prems"] show ?thesis by (auto simp: rm_lookup_Cons)
  qed
qed simp_all


lemma copyRange_eq:
  assumes "t \<le> e"
  shows "copyRange t e out = out \<union> {t..e}"
  using assms
proof (induction t e out rule: copyRange.induct)
  case (1 t e out)
  show ?case
  proof (cases "t = e")
    case True
    then show ?thesis by (simp add: copyRange.simps)
  next
    case False
    then have "t < e" using "1.prems" by simp
    then have "copyRange (ord_succ t) e (insert t out) = insert t out \<union> {ord_succ t..e}"
      using "1.IH" False by (simp add: char_ranges)
    moreover have "{t..e} = insert t {ord_succ t..e}"
      using \<open>t < e\<close> by (auto simp: char_ranges)
    ultimately show ?thesis using False by (subst copyRange.simps) auto
  qed
qed

lemma keys_eq:
  assumes "rm_ok m"
  shows "rm_keys m = {k. rm_lookup m k \<noteq> None}"
proof -
  have "foldl (\<lambda>ks (r, v). copyRange (fst r) (snd r) ks) K m = K \<union> {k. rm_lookup m k \<noteq> None}"
    for K
    using assms
  proof (induction m arbitrary: K)
    case (Cons e m)
    obtain r v where e: "e = (r, v)" by (cases e)
    with Cons.prems have "fst r \<le> snd r" "rm_ok m" by (simp_all add: valid_range_def)
    with Cons e show ?case
      by (auto simp: copyRange_eq rm_lookup_Cons in_range_def)
  qed simp
  then show ?thesis by (simp add: rm_keys_def)
qed

lemma lookupRangeSubset_eq:
  assumes "rm_ok m" "valid_range kr"
  shows "rm_lookupRangeSubset m kr = Some v \<longleftrightarrow>
    (\<exists>r. (r, v) \<in> set m \<and> fst r \<le> fst kr \<and> snd kr \<le> snd r)"
  using assms(1)
proof (induction m)
  case Nil
  then show ?case by (simp add: rm_lookupRangeSubset_def)
next
  case (Cons e m)
  obtain r w where e: "e = (r, w)" by (cases e)
  have rm: "rm_ok ((r, w) # m)" "rm_ok m" "\<forall>e' \<in> set m. snd r < fst (fst e')" "fst kr \<le> snd kr"
    using Cons.prems e assms(2) by (simp_all add: valid_range_def)
  have "rm_lookupRangeSubset ((r, w) # m) kr =
    (if in_range (fst kr) r \<and> in_range (snd kr) r then Some w
     else if in_range (fst kr) r \<or> in_range (snd kr) r then None
     else rm_lookupRangeSubset m kr)"
    by (simp add: rm_lookupRangeSubset_def Let_def rm_find_Cons [OF rm(1)] del: rm_find.simps)
  moreover have "\<not> (fst r' \<le> fst kr \<and> snd kr \<le> snd r')"
    if "(r', v) \<in> set m" "in_range (fst kr) r \<or> in_range (snd kr) r" for r'
    using that rm(3,4) by (force simp: in_range_def)
  ultimately show ?case using Cons.IH [OF rm(2)] e rm(4)
    by (cases r) (auto simp: in_range_def)
qed

section \<open>Splitting into disjoint ranges\<close>

definition covers :: "range list \<Rightarrow> rchar \<Rightarrow> bool" where
  "covers rs k \<longleftrightarrow> (\<exists>r \<in> set rs. in_range k r)"

lemma covers_simps [simp]:
  "\<not> covers [] k"
  "covers (r # rs) k \<longleftrightarrow> in_range k r \<or> covers rs k"
  "covers (rs @ rs') k \<longleftrightarrow> covers rs k \<or> covers rs' k"
  by (auto simp: covers_def)

lemma ranges_sorted_valid: "ranges_sorted rs \<Longrightarrow> \<forall>r \<in> set rs. valid_range r"
  by (induction rs) auto

lemma ranges_sorted_cut:
  assumes "ranges_sorted (r # rs)" "x < snd r"
  shows "ranges_sorted ((ord_succ x, snd r) # rs)" "ranges_sorted ((x, snd r) # rs)"
  using assms by (auto simp: valid_range_def char_ranges)

lemma disjointRanges_loop_valid:
  assumes "ranges_sorted lrs" "ranges_sorted rrs"
  shows "\<forall>r \<in> set (disjointRanges_loop lrs rrs). valid_range r"
  using assms
proof (induction lrs rrs rule: disjointRanges_loop.induct)
  case (1 rrs)
  then show ?case by (simp add: ranges_sorted_valid)
next
  case (2 lr lrs)
  then show ?case using ranges_sorted_valid [OF "2.prems"(1)] by simp
next
  case (3 lr lrs rr rrs)
  have lr: "fst lr \<le> snd lr" and rr: "fst rr \<le> snd rr"
    and vs: "valid_range lr" "valid_range rr"
    and s: "ranges_sorted lrs" "ranges_sorted rrs"
    using "3.prems" by (auto simp: valid_range_def)
  note cut = ranges_sorted_cut [OF "3.prems"(1), of "snd rr"]
    ranges_sorted_cut [OF "3.prems"(2), of "snd lr"]
  show ?case
    using lr rr
  proof (cases rule: classify_cases)
    case 10
    then have "fst lr \<noteq> snd rr \<Longrightarrow> fst lr < snd rr" by simp
    with 10 "3.IH"(11) s vs cut show ?thesis by (auto simp: valid_range_def char_ranges)
  next
    case 11
    then have "fst rr \<noteq> snd lr \<Longrightarrow> fst rr < snd lr" by simp
    with 11 "3.IH"(10) s vs cut show ?thesis by (auto simp: valid_range_def char_ranges)
  qed (use "3.IH" "3.prems" lr rr s vs cut in \<open>simp_all add: valid_range_def char_ranges\<close>)
qed


lemma disjointRanges_loop_covers:
  assumes "ranges_sorted lrs" "ranges_sorted rrs"
  shows "covers (disjointRanges_loop lrs rrs) k \<longleftrightarrow> covers lrs k \<or> covers rrs k"
  using assms
proof (induction lrs rrs rule: disjointRanges_loop.induct)
  case (3 lr lrs rr rrs)
  have lr: "fst lr \<le> snd lr" and rr: "fst rr \<le> snd rr"
    and s: "ranges_sorted lrs" "ranges_sorted rrs"
    using "3.prems" by (auto simp: valid_range_def)
  note cut = ranges_sorted_cut [OF "3.prems"(1), of "snd rr"]
    ranges_sorted_cut [OF "3.prems"(2), of "snd lr"]
  show ?case
    using lr rr
  proof (cases rule: classify_cases)
    case 10
    have "disjointRanges_loop (lr # lrs) (rr # rrs) = (fst rr, ord_pred (fst lr)) #
        (if fst lr \<noteq> snd rr then [(fst lr, ord_pred (snd rr))] else []) @
        disjointRanges_loop ((snd rr, snd lr) # lrs) rrs"
      using 10 by simp
    moreover have "covers (disjointRanges_loop ((snd rr, snd lr) # lrs) rrs) k \<longleftrightarrow>
        covers ((snd rr, snd lr) # lrs) k \<or> covers rrs k"
      using "3.IH"(11) 10 cut s by simp
    moreover have "fst lr \<noteq> snd rr \<Longrightarrow> fst lr < snd rr" using 10 by simp
    ultimately show ?thesis using 10 lr rr by (auto simp: in_range_def char_ranges)
  next
    case 11
    have "disjointRanges_loop (lr # lrs) (rr # rrs) = (fst lr, ord_pred (fst rr)) #
        (if fst rr \<noteq> snd lr then [(fst rr, ord_pred (snd lr))] else []) @
        disjointRanges_loop lrs ((snd lr, snd rr) # rrs)"
      using 11 by simp
    moreover have "covers (disjointRanges_loop lrs ((snd lr, snd rr) # rrs)) k \<longleftrightarrow>
        covers lrs k \<or> covers ((snd lr, snd rr) # rrs) k"
      using "3.IH"(10) 11 cut s by simp
    moreover have "fst rr \<noteq> snd lr \<Longrightarrow> fst rr < snd lr" using 11 by simp
    ultimately show ?thesis using 11 lr rr by (auto simp: in_range_def char_ranges)
  qed (use "3.IH" "3.prems" lr rr s cut in \<open>auto simp: in_range_def char_ranges\<close>)
qed simp_all


lemma covers_fst: "valid_range r \<Longrightarrow> r \<in> set rs \<Longrightarrow> covers rs (fst r)"
  by (auto simp: covers_def in_range_def valid_range_def)

lemma covers_above:
  "\<forall>r \<in> set rs. x < fst r \<Longrightarrow> covers rs k \<Longrightarrow> x < k"
  by (auto simp: covers_def in_range_def intro: less_le_trans)

definition above :: "rchar \<Rightarrow> range list \<Rightarrow> bool" where
  "above x rs \<longleftrightarrow> (\<forall>r \<in> set rs. x < fst r)"

lemma above_simps [simp]:
  "above x []"
  "above x (r # rs) \<longleftrightarrow> x < fst r \<and> above x rs"
  by (auto simp: above_def)

lemma above_mono: "above x rs \<Longrightarrow> y \<le> x \<Longrightarrow> above y rs"
  by (auto simp: above_def)

lemma ranges_sorted_Cons:
  "ranges_sorted (r # rs) \<longleftrightarrow> valid_range r \<and> above (snd r) rs \<and> ranges_sorted rs"
  by (simp add: above_def)

lemma disjointRanges_loop_above:
  assumes "ranges_sorted lrs" "ranges_sorted rrs" "above x lrs" "above x rrs"
  shows "above x (disjointRanges_loop lrs rrs)"
  unfolding above_def
proof
  fix r assume r: "r \<in> set (disjointRanges_loop lrs rrs)"
  then have "covers (disjointRanges_loop lrs rrs) (fst r)"
    using disjointRanges_loop_valid [OF assms(1,2)] by (blast intro: covers_fst)
  then show "x < fst r"
    using disjointRanges_loop_covers [OF assms(1,2)] assms(3,4)
    unfolding above_def by (blast intro: covers_above)
qed

lemma disjointRanges_loop_sorted:
  assumes "ranges_sorted lrs" "ranges_sorted rrs"
  shows "ranges_sorted (disjointRanges_loop lrs rrs)"
  using assms
proof (induction lrs rrs rule: disjointRanges_loop.induct)
  case (3 lr lrs rr rrs)
  note [simp del] = ranges_sorted.simps and [simp] = ranges_sorted_Cons
  have vs: "valid_range lr" "valid_range rr" "fst lr \<le> snd lr" "fst rr \<le> snd rr"
    and s: "ranges_sorted lrs" "ranges_sorted rrs"
    and ab: "above (snd lr) lrs" "above (snd rr) rrs"
    and so: "ranges_sorted (lr # lrs)" "ranges_sorted (rr # rrs)"
    using "3.prems" by (simp_all add: valid_range_def)
  note ab' = above_mono [OF ab(1), of "snd rr"] above_mono [OF ab(2), of "snd lr"]
    above_mono [OF ab(1), of "ord_pred (snd rr)"] above_mono [OF ab(2), of "ord_pred (snd lr)"]
    above_mono [OF ab(2), of "ord_pred (snd rr)"] above_mono [OF ab(1), of "ord_pred (snd lr)"]
  note cut = ranges_sorted_cut [OF so(1), of "snd rr"] ranges_sorted_cut [OF so(2), of "snd lr"]
  show ?case
    using vs(3,4)
  proof (cases rule: classify_cases)
    case 1
    have "above (snd lr) (disjointRanges_loop (lrs) (rr # rrs))"
      using 1 cut s ab ab' vs by (intro disjointRanges_loop_above) (simp_all add: char_ranges)
    note res = this this [THEN above_mono, of "ord_pred (fst rr)"] this [THEN above_mono, of "ord_pred (fst lr)"]
    show ?thesis using res 1 "3.IH"(1) s vs cut so
      by (simp add: valid_range_def char_ranges)
  next
    case 2
    have "above (snd rr) (disjointRanges_loop (lr # lrs) (rrs))"
      using 2 cut s ab ab' vs by (intro disjointRanges_loop_above) (simp_all add: char_ranges)
    note res = this this [THEN above_mono, of "ord_pred (fst rr)"] this [THEN above_mono, of "ord_pred (fst lr)"]
    show ?thesis using res 2 "3.IH"(2) s vs cut so
      by (simp add: valid_range_def char_ranges)
  next
    case 3
    have "above (snd lr) (disjointRanges_loop (lrs) (rrs))"
      using 3 cut s ab ab' vs by (intro disjointRanges_loop_above) (simp_all add: char_ranges)
    note res = this this [THEN above_mono, of "ord_pred (fst rr)"] this [THEN above_mono, of "ord_pred (fst lr)"]
    show ?thesis using res 3 "3.IH"(3) s vs cut so
      by (simp add: valid_range_def char_ranges)
  next
    case 4
    have "above (snd lr) (disjointRanges_loop (lrs) ((ord_succ (snd lr), snd rr) # rrs))"
      using 4 cut s ab ab' vs by (intro disjointRanges_loop_above) (simp_all add: char_ranges)
    note res = this this [THEN above_mono, of "ord_pred (fst rr)"] this [THEN above_mono, of "ord_pred (fst lr)"]
    show ?thesis using res 4 "3.IH"(4) s vs cut so
      by (simp add: valid_range_def char_ranges)
  next
    case 5
    have "above (snd rr) (disjointRanges_loop ((ord_succ (snd rr), snd lr) # lrs) (rrs))"
      using 5 cut s ab ab' vs by (intro disjointRanges_loop_above) (simp_all add: char_ranges)
    note res = this this [THEN above_mono, of "ord_pred (fst rr)"] this [THEN above_mono, of "ord_pred (fst lr)"]
    show ?thesis using res 5 "3.IH"(5) s vs cut so
      by (simp add: valid_range_def char_ranges)
  next
    case 6
    have "above (snd rr) (disjointRanges_loop (lrs) (rrs))"
      using 6 cut s ab ab' vs by (intro disjointRanges_loop_above) (simp_all add: char_ranges)
    note res = this this [THEN above_mono, of "ord_pred (fst rr)"] this [THEN above_mono, of "ord_pred (fst lr)"]
    show ?thesis using res 6 "3.IH"(6) s vs cut so
      by (simp add: valid_range_def char_ranges)
  next
    case 7
    have "above (snd lr) (disjointRanges_loop (lrs) (rrs))"
      using 7 cut s ab ab' vs by (intro disjointRanges_loop_above) (simp_all add: char_ranges)
    note res = this this [THEN above_mono, of "ord_pred (fst rr)"] this [THEN above_mono, of "ord_pred (fst lr)"]
    show ?thesis using res 7 "3.IH"(7) s vs cut so
      by (simp add: valid_range_def char_ranges)
  next
    case 8
    have "above (snd rr) (disjointRanges_loop ((ord_succ (snd rr), snd lr) # lrs) (rrs))"
      using 8 cut s ab ab' vs by (intro disjointRanges_loop_above) (simp_all add: char_ranges)
    note res = this this [THEN above_mono, of "ord_pred (fst rr)"] this [THEN above_mono, of "ord_pred (fst lr)"]
    show ?thesis using res 8 "3.IH"(8) s vs cut so
      by (simp add: valid_range_def char_ranges)
  next
    case 9
    have "above (snd lr) (disjointRanges_loop (lrs) ((ord_succ (snd lr), snd rr) # rrs))"
      using 9 cut s ab ab' vs by (intro disjointRanges_loop_above) (simp_all add: char_ranges)
    note res = this this [THEN above_mono, of "ord_pred (fst rr)"] this [THEN above_mono, of "ord_pred (fst lr)"]
    show ?thesis using res 9 "3.IH"(9) s vs cut so
      by (simp add: valid_range_def char_ranges)
  next
    case 10
    then have ne: "fst lr \<noteq> snd rr \<Longrightarrow> fst lr < snd rr" and lt: "fst rr < snd rr" by auto
    note lt' = gr_ord_pred [OF lt, of "snd rr"] gr_ord_pred [OF lt, of "snd lr"]
      ord_pred_le [OF lt, of "snd rr"] ord_pred_le [OF lt, of "snd lr"]
    have "above (ord_pred (snd rr)) (disjointRanges_loop ((snd rr, snd lr) # lrs) (rrs))"
      using 10 lt' cut s ab ab' vs by (intro disjointRanges_loop_above) (simp_all add: char_ranges)
    note res = this this [THEN above_mono, of "ord_pred (fst rr)"] this [THEN above_mono, of "ord_pred (fst lr)"]
    show ?thesis using res 10 "3.IH"(11) s vs cut ne so
      by (cases "fst lr = snd rr") (simp_all add: valid_range_def char_ranges)
  next
    case 11
    then have ne: "fst rr \<noteq> snd lr \<Longrightarrow> fst rr < snd lr" and lt: "fst lr < snd lr" by auto
    note lt' = gr_ord_pred [OF lt, of "snd lr"] gr_ord_pred [OF lt, of "snd rr"]
      ord_pred_le [OF lt, of "snd lr"] ord_pred_le [OF lt, of "snd rr"]
    have "above (ord_pred (snd lr)) (disjointRanges_loop (lrs) ((snd lr, snd rr) # rrs))"
      using 11 lt' cut s ab ab' vs by (intro disjointRanges_loop_above) (simp_all add: char_ranges)
    note res = this this [THEN above_mono, of "ord_pred (fst rr)"] this [THEN above_mono, of "ord_pred (fst lr)"]
    show ?thesis using res 11 "3.IH"(10) s vs cut ne so
      by (cases "fst rr = snd lr") (simp_all add: valid_range_def char_ranges)
  qed
qed simp_all

section \<open>Nested ranges are split exactly\<close>

definition subr :: "range \<Rightarrow> range \<Rightarrow> bool" where
  "subr p f \<longleftrightarrow> fst f \<le> fst p \<and> snd p \<le> snd f"

definition apart :: "range \<Rightarrow> range \<Rightarrow> bool" where
  "apart p f \<longleftrightarrow> snd p < fst f \<or> snd f < fst p"

definition nested :: "range \<Rightarrow> range \<Rightarrow> bool" where
  "nested f g \<longleftrightarrow> subr f g \<or> subr g f \<or> apart f g"

definition homog :: "range set \<Rightarrow> range \<Rightarrow> bool" where
  "homog F p \<longleftrightarrow> (\<forall>f \<in> F. subr p f \<or> apart p f)"

definition edge :: "range set \<Rightarrow> rchar \<Rightarrow> bool" where
  "edge F x \<longleftrightarrow> (\<exists>f \<in> F. x = fst f \<or> (snd f < x \<and> x = ord_succ (snd f)))"

definition piece :: "range set \<Rightarrow> range \<Rightarrow> bool" where
  "piece F p \<longleftrightarrow> valid_range p \<and> homog F p \<and> (\<exists>f \<in> F. subr p f) \<and>
     (fst p = snd p \<or> edge F (fst p))"

lemma piece_insert_apart: "piece F p \<Longrightarrow> apart p g \<Longrightarrow> piece (insert g F) p"
  by (auto simp: piece_def homog_def edge_def)

lemma piece_insert_subr: "piece F p \<Longrightarrow> subr p g \<Longrightarrow> piece (insert g F) p"
  by (auto simp: piece_def homog_def edge_def)

lemma piece_part:
  assumes "piece F p" "subr q p" "valid_range q" "subr q g \<or> apart q g"
    and "fst q = fst g \<or> (snd g < fst q \<and> fst q = ord_succ (snd g)) \<or> (fst q = fst p \<and> fst p \<noteq> snd p)"
  shows "piece (insert g F) q"
proof -
  have "homog F q" using assms(1,2,3)
    unfolding piece_def homog_def subr_def apart_def valid_range_def
    by (meson le_less_trans less_le_trans order_trans)
  moreover have "\<exists>f \<in> F. subr q f" using assms(1,2) unfolding piece_def subr_def
    by (meson order_trans)
  moreover have "fst q = snd q \<or> edge (insert g F) (fst q)"
  proof -
    have "fst q = fst p \<and> fst p \<noteq> snd p \<Longrightarrow> edge F (fst q)"
      using assms(1) by (auto simp: piece_def)
    then show ?thesis using assms(5) unfolding edge_def by auto
  qed
  ultimately show ?thesis using assms(3,4) by (auto simp: piece_def homog_def)
qed

definition sweep :: "range set \<Rightarrow> range \<Rightarrow> rchar \<Rightarrow> range list \<Rightarrow> bool" where
  "sweep F g y rs \<longleftrightarrow> fst g \<le> y \<and> y \<le> snd g \<and> (\<forall>f \<in> F. valid_range f \<and> nested f g) \<and>
     ranges_sorted rs \<and> (\<forall>p \<in> set rs. piece F p) \<and>
     (\<forall>f \<in> F. \<forall>k. in_range k f \<longrightarrow> y \<le> k \<longrightarrow>
        covers rs k \<or> (k = y \<and> (\<forall>f \<in> F. in_range y f \<longrightarrow> subr g f))) \<and>
     (y = fst g \<or> (\<forall>p \<in> set rs. y \<le> fst p) \<and>
        ((\<exists>f \<in> F. \<exists>z. z < y \<and> in_range z f \<and> y = ord_succ z) \<or> (\<exists>f \<in> F. subr g f)))"

lemma sweep_covers:
  assumes "sweep F g y rs" "f \<in> F" "in_range k f" "y \<le> k" "\<not> covers rs k"
  shows "k = y \<and> subr g f"
  using assms unfolding sweep_def by blast

lemma gap_piece:
  assumes sw: "sweep F g y rs" and e: "y \<le> e" "e \<le> snd g"
    and un: "\<And>k. y \<le> k \<Longrightarrow> k \<le> e \<Longrightarrow> \<not> covers rs k"
  shows "piece (insert g F) (y, e)"
proof -
  have g: "fst g \<le> y" and val: "\<forall>f \<in> F. valid_range f" using sw by (auto simp: sweep_def)
  have sub: "subr (y, e) g" using g e by (simp add: subr_def)
  have hit: "k = y \<and> subr g f" if "f \<in> F" "in_range k f" "y \<le> k" "k \<le> e" for f k
    using sweep_covers [OF sw that(1-3)] un that by blast
  have "homog F (y, e)"
    unfolding homog_def
  proof
    fix f assume f: "f \<in> F"
    then have vf: "fst f \<le> snd f" using val by (simp add: valid_range_def)
    show "subr (y, e) f \<or> apart (y, e) f"
    proof (cases "apart (y, e) f")
      case False
      then have "in_range (max y (fst f)) f" "max y (fst f) \<le> e"
        using e vf by (auto simp: apart_def in_range_def)
      then have "subr g f" using hit [OF f, of "max y (fst f)"] by simp
      then show ?thesis using g e by (auto simp: subr_def)
    qed simp
  qed
  moreover have "y = e \<or> edge (insert g F) y"
  proof (cases "y = e \<or> y = fst g")
    case False
    then have ye: "y < e" using e by (simp add: order_less_le)
    have "\<not> subr g f" if "f \<in> F" for f
    proof
      assume "subr g f"
      then have "in_range e f" using g e by (auto simp: in_range_def subr_def)
      then show False using hit [OF that, of e] ye e(1) by auto
    qed
    then obtain f z where f: "f \<in> F" "z < y" "in_range z f" "y = ord_succ z"
      using sw False unfolding sweep_def by blast
    have "\<not> in_range y f" using hit [OF f(1), of y] \<open>\<And>f. f \<in> F \<Longrightarrow> \<not> subr g f\<close> f(1) e(1) by auto
    moreover have "z < y" using f(2) .
    ultimately have "snd f = z" using f(3,4) ord_succ_le [of z y "snd f"]
      by (auto simp: in_range_def)
    then show ?thesis using f by (auto simp: edge_def)
  qed (auto simp: edge_def)
  ultimately show ?thesis using sub e by (auto simp: piece_def homog_def valid_range_def)
qed


lemma piece_nested:
  assumes "piece F p" "f \<in> F" "in_range k p" "in_range k f"
  shows "subr p f"
  using assms by (fastforce simp: piece_def homog_def apart_def in_range_def)

text \<open>The range being swept cannot overlap the next piece on the right only.\<close>

lemma sweep_no_overlap:
  assumes sw: "sweep F g y (p # rs)" and o: "y < fst p" "fst p \<le> snd g" "snd g < snd p"
  shows False
proof -
  have p: "piece F p" and g: "fst g \<le> y" and val: "\<forall>f \<in> F. valid_range f \<and> nested f g"
    using sw by (auto simp: sweep_def)
  from p o have "edge F (fst p)" by (auto simp: piece_def)
  then obtain f where f: "f \<in> F" and
    e: "fst p = fst f \<or> (snd f < fst p \<and> fst p = ord_succ (snd f))" by (auto simp: edge_def)
  have vf: "fst f \<le> snd f" "nested f g" using val f by (auto simp: valid_range_def)
  show False using e
  proof
    assume "fst p = fst f"
    then have "in_range (fst p) p" "in_range (fst p) f"
      using o vf by (auto simp: in_range_def)
    then have "snd p \<le> snd f" using piece_nested [OF p f] by (auto simp: subr_def)
    moreover have "\<not> apart f g" using o g vf \<open>fst p = fst f\<close> by (auto simp: apart_def)
    ultimately show False using vf o g \<open>fst p = fst f\<close> by (auto simp: nested_def subr_def)
  next
    assume a: "snd f < fst p \<and> fst p = ord_succ (snd f)"
    then have "y \<le> snd f" using o(1) by (metis char_ranges(4))
    moreover have "\<not> covers (p # rs) (snd f)"
    proof -
      have "\<forall>r \<in> set rs. snd p < fst r" "fst p \<le> snd p" using sw
        by (auto simp: sweep_def valid_range_def)
      then have "covers rs (snd f) \<Longrightarrow> snd p < snd f" by (intro covers_above)
      then show ?thesis using a \<open>fst p \<le> snd p\<close> by (auto simp: in_range_def)
    qed
    ultimately have "subr g f" using sweep_covers [OF sw f, of "snd f"] vf
      by (auto simp: in_range_def)
    then show False using a o by (auto simp: subr_def)
  qed
qed


lemma sweep_covers_tail:
  assumes "sweep F g y (p # rs)" "f \<in> F" "in_range k f" "y < k" "snd p < k"
  shows "covers rs k"
proof (rule ccontr)
  assume "\<not> covers rs k"
  then have "\<not> covers (p # rs) k" using assms(5) by (auto simp: in_range_def)
  then show False using sweep_covers [OF assms(1-3)] assms(4) less_imp_le [OF assms(4)] by blast
qed

lemma sweep_skip:
  assumes "sweep F g y (p # rs)" "snd p < y"
  shows "sweep F g y rs" "y = fst g"
proof -
  have "fst p \<le> snd p" "y = fst g" using assms by (auto simp: sweep_def valid_range_def)
  moreover have "covers (p # rs) k \<longleftrightarrow> covers rs k" if "y \<le> k" for k
    using that assms(2) by (auto simp: in_range_def)
  ultimately show "y = fst g" "sweep F g y rs" using assms
    by (auto simp: sweep_def simp del: covers_simps)
qed

text \<open>After a piece inside the swept range, the sweep carries on behind it.\<close>

lemma sweep_inside:
  assumes sw: "sweep F g y (p # rs)" and o: "y \<le> fst p" "snd p < snd g"
  shows "sweep F g (ord_succ (snd p)) rs"
proof -
  have p: "piece F p" "fst p \<le> snd p" and ab: "\<forall>r \<in> set rs. snd p < fst r"
    using sw by (auto simp: sweep_def valid_range_def)
  obtain f where f: "f \<in> F" "subr p f" using p by (auto simp: piece_def)
  have lt: "snd p < ord_succ (snd p)" using ord_succ_gr [OF o(2), of "snd p"] by simp
  have "\<exists>f \<in> F. \<exists>z. z < ord_succ (snd p) \<and> in_range z f \<and> ord_succ (snd p) = ord_succ z"
    using f p lt by (intro bexI [of _ f] exI [of _ "snd p"]) (auto simp: in_range_def subr_def)
  moreover have "\<forall>r \<in> set rs. ord_succ (snd p) \<le> fst r" using ab o(2) by (auto simp: char_ranges)
  moreover have "\<forall>f \<in> F. \<forall>k. in_range k f \<longrightarrow> ord_succ (snd p) \<le> k \<longrightarrow> covers rs k"
  proof (intro ballI allI impI)
    fix f k assume k: "f \<in> F" "in_range k f" "ord_succ (snd p) \<le> k"
    then have "snd p < k" using lt by order
    moreover have "y < k" using calculation p(2) o by order
    ultimately show "covers rs k" by (intro sweep_covers_tail [OF sw k(1,2)])
  qed
  moreover have "fst g \<le> y" using sw by (simp add: sweep_def)
  then have "fst g \<le> ord_succ (snd p)" using o p(2) lt by order
  moreover have "ord_succ (snd p) \<le> snd g" using o(2) by (simp add: char_ranges)
  ultimately show ?thesis using sw by (auto simp: sweep_def)
qed

lemma sweep_across:
  assumes sw: "sweep F g y (p # rs)" and o: "fst p < y" "y \<le> snd p" "snd p < snd g"
  shows "sweep F g (snd p) rs" "y = fst g"
proof -
  have y: "y = fst g" using sw o by (auto simp: sweep_def)
  have p: "piece F p" "fst p \<le> snd p" and ab: "\<forall>r \<in> set rs. snd p < fst r"
    and val: "\<forall>f \<in> F. nested f g"
    using sw by (auto simp: sweep_def valid_range_def)
  obtain f where f: "f \<in> F" "subr p f" using p by (auto simp: piece_def)
  have sup: "subr g f" if "f \<in> F" "in_range (snd p) f" for f
  proof -
    have "subr p f" using piece_nested [OF p(1) that(1) _ that(2)] p(2) by (simp add: in_range_def)
    then show ?thesis using val that o y by (auto simp: nested_def subr_def apart_def in_range_def)
  qed
  have "\<forall>f \<in> F. \<forall>k. in_range k f \<longrightarrow> snd p \<le> k \<longrightarrow>
        covers rs k \<or> (k = snd p \<and> (\<forall>f \<in> F. in_range (snd p) f \<longrightarrow> subr g f))"
  proof (intro ballI allI impI)
    fix f k assume k: "f \<in> F" "in_range k f" "snd p \<le> k"
    show "covers rs k \<or> (k = snd p \<and> (\<forall>f \<in> F. in_range (snd p) f \<longrightarrow> subr g f))"
    proof (cases "k = snd p")
      case False
      then have "snd p < k" "y < k" using k(3) o by order+
      then show ?thesis using sweep_covers_tail [OF sw k(1,2)] by simp
    qed (use sup in auto)
  qed
  moreover have "in_range (snd p) f" using f p(2) by (auto simp: in_range_def subr_def)
  then have "subr g f" using sup f by blast
  moreover have "\<forall>r \<in> set rs. snd p \<le> fst r" using ab by (auto intro: less_imp_le)
  ultimately show "sweep F g (snd p) rs" using sw o y f(1) unfolding sweep_def
    by (auto intro: less_imp_le)
  show "y = fst g" by (rule y)
qed


lemma sweep_pieces:
  assumes "sweep F g y rs"
  shows "\<forall>p \<in> set (disjointRanges_loop [(y, snd g)] rs). piece (insert g F) p"
  using assms
proof (induction rs arbitrary: y)
  case Nil
  have "y \<le> snd g" using Nil by (simp add: sweep_def)
  then show ?case using gap_piece [OF Nil, of "snd g"] by simp
next
  case (Cons p rs)
  note sw = Cons.prems
  have y: "fst g \<le> y" "y \<le> snd g" and p: "piece F p" "fst p \<le> snd p"
    and rs: "\<forall>r \<in> set rs. snd p < fst r" "\<forall>r \<in> set rs. piece F r"
    using sw by (auto simp: sweep_def valid_range_def)
  have gap: "e < fst p \<Longrightarrow> y \<le> e \<Longrightarrow> e \<le> snd g \<Longrightarrow> piece (insert g F) (y, e)" for e
  proof (rule gap_piece [OF sw])
    fix k assume e: "e < fst p" and k: "k \<le> e"
    have "covers rs k \<Longrightarrow> snd p < k" using rs(1) by (intro covers_above)
    then show "\<not> covers (p # rs) k" using e k p(2) by (auto simp: in_range_def)
  qed auto
  have rest: "snd g \<le> snd p \<Longrightarrow> \<forall>r \<in> set rs. piece (insert g F) r"
  proof
    fix r assume "snd g \<le> snd p" "r \<in> set rs"
    moreover from this have "snd g < fst r" using rs(1) by fastforce
    ultimately show "piece (insert g F) r"
      using rs(2) by (intro piece_insert_apart) (auto simp: apart_def)
  qed
  have inside: "fst g \<le> fst p \<Longrightarrow> snd p \<le> snd g \<Longrightarrow> piece (insert g F) p"
    using p(1) by (intro piece_insert_subr) (auto simp: subr_def)
  have left: "fst p < fst g \<Longrightarrow> fst g \<le> snd p \<Longrightarrow> piece (insert g F) (fst p, ord_pred (fst g))"
    using p(1) by (rule piece_part)
      (auto simp: subr_def valid_range_def apart_def char_ranges)
  have mid: "fst p < fst g \<Longrightarrow> fst g \<le> e \<Longrightarrow> e \<le> snd g \<Longrightarrow> e \<le> snd p \<Longrightarrow> piece (insert g F) (fst g, e)" for e
    using p(1) by (rule piece_part)
      (auto simp: subr_def valid_range_def apart_def char_ranges)
  have pre: "fst p \<le> snd g \<Longrightarrow> snd g < snd p \<Longrightarrow> piece (insert g F) (fst p, snd g)" if "fst g \<le> fst p"
    using p(1) that by (rule_tac piece_part)
      (auto simp: subr_def valid_range_def apart_def char_ranges)
  have right: "fst p \<le> snd g \<Longrightarrow> snd g < snd p \<Longrightarrow> piece (insert g F) (ord_succ (snd g), snd p)"
    using p(1) by (rule piece_part)
      (auto simp: subr_def valid_range_def apart_def char_ranges)
  have ly: "fst (y, snd g) \<le> snd (y, snd g)" using y(2) by simp
  have base: "fst p < y \<Longrightarrow> y = fst g" using sw by (auto simp: sweep_def)
  show ?case
    using ly p(2)
  proof (cases rule: classify_cases)
    case 1
    have "\<forall>r \<in> set rs. piece (insert g F) r" "piece (insert g F) p" "piece (insert g F) (y, snd g)"
      using 1 p(2) y rest p(1) gap [of "snd g"] p(2) by (auto intro: piece_insert_apart simp: apart_def)
    then show ?thesis using 1 by simp
  next
    case 2
    then have "sweep F g y rs" "y = fst g" using sweep_skip [OF sw] by simp_all
    then show ?thesis using 2 Cons.IH [of y] p(1) piece_insert_apart [of F p g]
      by (auto simp: apart_def)
  next
    case 3
    then show ?thesis using rest inside y by auto
  next
    case 4
    then show ?thesis using rest pre right y by auto
  next
    case 5
    then have "sweep F g (ord_succ (snd p)) rs" using sweep_inside [OF sw] by simp
    then show ?thesis using 5 Cons.IH inside y by auto
  next
    case 6
    then show ?thesis using rest inside y gap [of "ord_pred (fst p)"] ord_pred_le [of y "fst p" "snd g"] p(2) by (auto simp: char_ranges)
  next
    case 7
    then show ?thesis using rest left mid [of "snd g"] base y by auto
  next
    case 8
    then have "sweep F g (ord_succ (snd p)) rs" using sweep_inside [OF sw] by simp
    then show ?thesis using 8 Cons.IH inside y gap [of "ord_pred (fst p)"] ord_pred_le [of y "fst p" "snd g"] p(2) by (auto simp: char_ranges)
  next
    case 9
    then show ?thesis using rest left mid [of "snd g"] right base y by auto
  next
    case 10
    then have "sweep F g (snd p) rs" "y = fst g" using sweep_across [OF sw] by simp_all
    moreover have lt: "fst p < snd p" using 10 by simp
    note ord_pred_le [OF lt, of "snd g"] ord_pred_le [OF lt, of "snd p"] le_ord_pred [OF lt, of "fst g"]
    ultimately show ?thesis using 10 Cons.IH left mid [of "ord_pred (snd p)"]
      by (auto simp: order_less_le)
  next
    case 11
    then show ?thesis using sweep_no_overlap [OF sw] by simp
  qed
qed


lemma sweep_start:
  assumes "ranges_sorted rs" "\<forall>p \<in> set rs. piece F p" "\<forall>f \<in> F. valid_range f \<and> nested f g"
    and "\<forall>f \<in> F. \<forall>k. in_range k f \<longrightarrow> covers rs k" "valid_range g"
  shows "sweep F g (fst g) rs"
  using assms by (auto simp: sweep_def valid_range_def)

text \<open>
  \<open>exact_split F rs\<close>: \<open>rs\<close> covers what the ranges of \<open>F\<close> cover and cuts no piece across one of them.
\<close>

definition exact_split :: "range set \<Rightarrow> range list \<Rightarrow> bool" where
  "exact_split F rs \<longleftrightarrow> ranges_sorted rs \<and> (\<forall>p \<in> set rs. piece F p) \<and>
     (\<forall>k. covers rs k \<longleftrightarrow> (\<exists>f \<in> F. in_range k f))"

lemma exact_split_empty: "exact_split {} []"
  by (simp add: exact_split_def)

lemma exact_split_add:
  assumes "exact_split F rs" "valid_range g" "\<forall>f \<in> F. valid_range f \<and> nested f g"
  shows "exact_split (insert g F) (rm_disjointRanges [(g, v)] rs)"
proof -
  have s: "ranges_sorted rs" "ranges_sorted [g]" using assms by (simp_all add: exact_split_def)
  have "sweep F g (fst g) rs" using assms by (intro sweep_start) (auto simp: exact_split_def)
  then have "\<forall>p \<in> set (disjointRanges_loop [g] rs). piece (insert g F) p"
    using sweep_pieces [of F g "fst g" rs] by simp
  then show ?thesis
    using assms(1) disjointRanges_loop_sorted [OF s(2,1)] disjointRanges_loop_covers [OF s(2,1)]
    by (auto simp: exact_split_def rm_disjointRanges_def)
qed

lemma exact_split_homog:
  assumes "exact_split F rs" "f \<in> F" "in_range k f"
  obtains p where "p \<in> set rs" "in_range k p" "\<forall>f \<in> F. in_range k f \<longrightarrow> subr p f"
proof -
  have "covers rs k" using assms unfolding exact_split_def by blast
  then obtain p where p: "p \<in> set rs" "in_range k p" unfolding covers_def by blast
  with assms(1) have "piece F p" by (auto simp: exact_split_def)
  with p that show ?thesis using piece_nested by blast
qed

section \<open>The interface the automata use\<close>

text \<open>
  What the builders of \<^verbatim>\<open>regex.C\<close> rely on: an empty map, lookup, insertion of a range, and the
  accumulation of a range, with the laws that determine every lookup.
\<close>

locale range_dict =
  fixes emp :: "'m" and look :: "'m \<Rightarrow> rchar \<Rightarrow> 'v option"
    and ins :: "range \<Rightarrow> 'v \<Rightarrow> 'm \<Rightarrow> 'm" and inv :: "'m \<Rightarrow> bool"
  assumes inv_emp: "inv emp" and look_emp: "look emp k = None"
    and inv_ins: "valid_range r \<Longrightarrow> inv m \<Longrightarrow> inv (ins r v m)"
    and look_ins: "valid_range r \<Longrightarrow> inv m \<Longrightarrow>
          look (ins r v m) k = (if in_range k r then Some v else look m k)"
begin

lemma inv_ins_all:
  "inv m \<Longrightarrow> \<forall>e \<in> set es. valid_range (fst e) \<Longrightarrow> inv (foldl (\<lambda>m (r, v). ins r v m) m es)"
  by (induction es arbitrary: m) (auto simp: inv_ins)

lemma look_ins_all:
  "inv m \<Longrightarrow> \<forall>e \<in> set es. valid_range (fst e) \<Longrightarrow>
    look (foldl (\<lambda>m (r, v). ins r v m) m es) k =
      (case filter (\<lambda>e. in_range k (fst e)) es of [] \<Rightarrow> look m k | e # es' \<Rightarrow> Some (snd (last (e # es'))))"
  by (induction es arbitrary: m) (auto simp: inv_ins look_ins split: list.splits)

lemma look_ins_disjoint:
  assumes "inv m" "\<forall>e \<in> set es. valid_range (fst e)" "ranges_sorted (map fst es)"
  shows "look (foldl (\<lambda>m (r, v). ins r v m) m es) k = Some v \<longleftrightarrow>
    (\<exists>r. (r, v) \<in> set es \<and> in_range k r) \<or> (\<not> covers (map fst es) k \<and> look m k = Some v)"
  using assms
proof (induction es arbitrary: m)
  case (Cons e es)
  obtain r w where e: "e = (r, w)" by (cases e)
  have ok: "inv (ins r w m)" "valid_range r" using Cons.prems e by (auto simp: inv_ins)
  have nc: "\<not> covers (map fst es) k" if "in_range k r"
  proof
    assume "covers (map fst es) k"
    then have "snd r < k" using Cons.prems(3) e by (intro covers_above [of "map fst es"]) auto
    then show False using that by (auto simp: in_range_def)
  qed
  have IH: "look (foldl (\<lambda>m (r, v). ins r v m) (ins r w m) es) k = Some v \<longleftrightarrow>
    (\<exists>r. (r, v) \<in> set es \<and> in_range k r) \<or> (\<not> covers (map fst es) k \<and> look (ins r w m) k = Some v)"
    using Cons.prems ok by (intro Cons.IH) auto
  have "(\<exists>r. (r, v) \<in> set es \<and> in_range k r) \<Longrightarrow> covers (map fst es) k"
    by (force simp: covers_def)
  then show ?case using IH nc e ok Cons.prems(1) by (cases r) (auto simp: look_ins)
qed simp

end

locale range_accum = range_dict emp look ins inv
  for emp :: "'m" and look :: "'m \<Rightarrow> rchar \<Rightarrow> 'v option"
    and ins :: "range \<Rightarrow> 'v \<Rightarrow> 'm \<Rightarrow> 'm" and inv :: "'m \<Rightarrow> bool" +
  fixes dflt :: 'v and acc :: "range \<Rightarrow> ('v \<Rightarrow> 'v) \<Rightarrow> 'm \<Rightarrow> 'm"
  assumes inv_acc: "valid_range r \<Longrightarrow> inv m \<Longrightarrow> inv (acc r f m)"
    and look_acc: "valid_range r \<Longrightarrow> inv m \<Longrightarrow> look (acc r f m) k =
          (if in_range k r then Some (f (case look m k of None \<Rightarrow> dflt | Some v \<Rightarrow> v)) else look m k)"
begin

text \<open>Accumulating over the same range twice is accumulating the composition once.\<close>

lemma look_acc_acc:
  assumes "valid_range r" "inv m"
  shows "look (acc r f (acc r g m)) k = look (acc r (f \<circ> g) m) k"
  using assms by (simp add: look_acc inv_acc)

lemma look_acc_commute:
  assumes "valid_range r" "valid_range q" "inv m" "\<And>v. f (g v) = g (f v)"
  shows "look (acc r f (acc q g m)) k = look (acc q g (acc r f m)) k"
  using assms by (simp add: look_acc inv_acc)

end

interpretation rm: range_dict "[]" rm_lookup rm_insert rm_ok
  by unfold_locales (simp_all add: insert_ok insert_lookup)

interpretation rma: range_accum "[]" rm_lookup rm_insert rm_ok dv "rm_mergeRange dv" for dv
  by unfold_locales (simp_all add: mergeRange_ok mergeRange_lookup)

section \<open>Properties\<close>

text \<open>
  Inserting a range overwrites exactly its keys: the map stays sorted and disjoint, a key of
  the range finds the new value and every other key finds what it found before, however the
  new range cuts the ranges already there.
\<close>

theorem insert_overwrites:
  assumes "rm_ok m" "valid_range rr"
  shows "rm_ok (rm_insert rr v m) \<and>
    (\<forall>k. rm_lookup (rm_insert rr v m) k = (if in_range k rr then Some v else rm_lookup m k))"
  using assms by (simp add: rm.inv_ins rm.look_ins)

lemma insert_overwrites_witness:
  "rm_lookup (rm_insert (99, 104) (7::nat) [((97, 101), 1), ((103, 122), 2)]) 104 = Some 7 \<and>
   rm_lookup (rm_insert (99, 104) (7::nat) [((97, 101), 1), ((103, 122), 2)]) 105 = Some 2"
proof -
  have ok: "rm_ok [((97, 101), 1 :: nat), ((103, 122), 2)]" "valid_range (99, 104)"
    by (simp_all add: valid_range_def)
  note look = insert_overwrites [OF ok, THEN conjunct2, rule_format]
  show ?thesis unfolding look by (simp add: in_range_def rm_lookup_def)
qed

text \<open>
  \<open>mergeRange\<close> applies the accumulating function to the value of every key of the range,
  starting from the default value at keys that had none, and touches nothing else.
\<close>

theorem mergeRange_accumulates:
  assumes "rm_ok m" "valid_range rr"
  shows "rm_ok (rm_mergeRange dv rr f m) \<and>
    (\<forall>k. rm_lookup (rm_mergeRange dv rr f m) k =
      (if in_range k rr then Some (f (case rm_lookup m k of None \<Rightarrow> dv | Some v \<Rightarrow> v))
       else rm_lookup m k))"
  using assms by (simp add: rma.inv_acc rma.look_acc)

lemma mergeRange_accumulates_witness:
  "rm_lookup (rm_mergeRange {} (99, 104) (insert (5::nat)) [((97, 101), {1})]) 100 = Some {5, 1} \<and>
   rm_lookup (rm_mergeRange {} (99, 104) (insert (5::nat)) [((97, 101), {1})]) 104 = Some {5}"
proof -
  have ok: "rm_ok [((97, 101), {1 :: nat})]" "valid_range (99, 104)"
    by (simp_all add: valid_range_def)
  note look = mergeRange_accumulates [OF ok, THEN conjunct2, rule_format]
  show ?thesis unfolding look by (simp add: in_range_def rm_lookup_def)
qed

text \<open>
  C20. Compaction joins neighbouring ranges with equal values without changing any lookup, and
  the map stays sorted and disjoint.
\<close>

theorem compact_same_lookups:
  assumes "rm_ok m"
  shows "rm_ok (rm_compact m) \<and> rm_lookup (rm_compact m) = rm_lookup m"
  using assms by (auto simp: compact_ok compact_lookup)

lemma compact_same_lookups_witness:
  "rm_compact [((97, 98), 1 :: nat), ((99, 104), 1)] = [((97, 104), 1)] \<and>
   rm_lookup (rm_compact [((97, 98), 1 :: nat), ((99, 104), 1)]) 99 = Some 1"
proof -
  have "rm_ok [((97, 98), 1 :: nat), ((99, 104), 1)]" by (simp add: valid_range_def)
  from compact_same_lookups [OF this] show ?thesis
    by (simp add: rm_lookup_def ord_pred_def)
qed

text \<open>
  C21. Splitting a list of disjoint ranges against the ranges of a map keeps the ranges sorted
  and disjoint, and covers the characters that either covered, no more and no fewer.
\<close>

theorem disjointRanges_partition:
  assumes "rm_ok m" "ranges_sorted trs"
  shows "ranges_sorted (rm_disjointRanges m trs) \<and>
    (\<forall>k. covers (rm_disjointRanges m trs) k \<longleftrightarrow> covers (map fst m) k \<or> covers trs k)"
  using assms
  by (simp add: rm_disjointRanges_def rm_ok_def disjointRanges_loop_sorted disjointRanges_loop_covers)

lemma disjointRanges_partition_witness:
  "rm_disjointRanges [((97, 109), ())] [(99, 99)] = [(97, 98), (99, 99), (100, 109)] \<and>
   covers (rm_disjointRanges [((97, 109), ())] [(99, 99)]) 105"
  using disjointRanges_partition [of "[((97, 109), ())]" "[(99, 99)]"]
  by (simp add: valid_range_def rm_disjointRanges_def classifyIntersection_def ord_pred_def
      ord_succ_def in_range_def)

text \<open>
  C9. When the ranges met so far and the new one are pairwise nested or disjoint, the split is
  exact: no resulting range crosses the border of one of them, so every range a character
  lies in contains the whole resulting range of that character.
\<close>

theorem disjointRanges_exact:
  assumes "exact_split F rs" "valid_range g" "\<forall>f \<in> F. valid_range f \<and> nested f g"
  shows "exact_split (insert g F) (rm_disjointRanges [(g, v)] rs)"
  using exact_split_add [OF assms] .

lemma disjointRanges_exact_witness:
  "exact_split {(97, 122), (99, 99)} (rm_disjointRanges [((97, 122), ())] (rm_disjointRanges [((99, 99), ())] []))"
proof -
  have "exact_split {(99, 99)} (rm_disjointRanges [((99, 99), ())] [])"
    using disjointRanges_exact [OF exact_split_empty, of "(99, 99)"] by (simp add: valid_range_def)
  then show ?thesis
    by (rule disjointRanges_exact) (auto simp: valid_range_def nested_def subr_def)
qed


text \<open>
  The keys collected from a map are exactly the characters that a lookup finds, although the
  collecting loop counts with a byte that wraps after 255.
\<close>

theorem keys_are_lookups:
  assumes "rm_ok m"
  shows "rm_keys m = {k. rm_lookup m k \<noteq> None}"
  using assms by (rule keys_eq)

lemma keys_are_lookups_witness:
  "rm_keys [((254, 255), ())] = {k. rm_lookup [((254, 255), ())] k \<noteq> None}"
  by (rule keys_are_lookups) (simp add: valid_range_def)

end
