(* ===== verification/Regex_Syntax.thy ===== *)
theory Regex_Syntax
  imports Range_Map
begin

text \<open>
  The regular expressions of \<^verbatim>\<open>lib/hobbes/lang/pat/regex.C\<close> and their parser
  \<open>parseRegex\<close>. The subclasses of \<open>Regex\<close> are the constructors of one datatype. The parser
  walks a \<^verbatim>\<open>std::string\<close> by index: \<open>x[i]\<close> is \<open>x ! i\<close>, with the index tests of the code
  written out; reading past the terminating zero, which is undefined in C++, is the error
  \<open>OutOfRange\<close>, the two exceptions are \<open>ExpectedGroupName\<close> and \<open>UnexpectedEnd\<close>. The mutual
  recursion of \<open>diffRegex\<close> and \<open>seqR\<close> is bounded by a fuel argument, and \<open>OutOfFuel\<close> is
  shown never to come out of \<open>parseRegex\<close>.
\<close>

section \<open>Syntax\<close>

datatype regex =
    REps
  | RCharRange rchar rchar
  | RStar regex
  | REither regex regex
  | RSeq regex regex
  | RBind string regex

definition epsilon :: regex where
  "epsilon = REps"

definition charLit :: "rchar \<Rightarrow> regex" where
  "charLit c = RCharRange c c"

definition charRange :: "rchar \<Rightarrow> rchar \<Rightarrow> regex" where
  "charRange b e = RCharRange b e"

definition zeroOrMore :: "regex \<Rightarrow> regex" where
  "zeroOrMore p = RStar p"

definition either :: "regex \<Rightarrow> regex \<Rightarrow> regex" where
  "either p0 p1 = REither p0 p1"

definition bindTo :: "string \<Rightarrow> regex \<Rightarrow> regex" where
  "bindTo name p = (if name = [] then p else RBind name p)"

definition sequence :: "regex \<Rightarrow> regex \<Rightarrow> regex" where
  "sequence p0 p1 = RSeq p0 p1"

definition anyOf :: "regex list \<Rightarrow> regex" where
  "anyOf rs = (case rs of [] \<Rightarrow> epsilon | a # rs' \<Rightarrow> foldl either a rs')"

text \<open>
  \<open>toRanges\<close> walks the set in ascending order; the test \<open>e+1 == *ci\<close> is on promoted
  integers, so it does not wrap at 255.
\<close>

fun toRanges_loop :: "rchar \<Rightarrow> rchar \<Rightarrow> rchar list \<Rightarrow> range list" where
  "toRanges_loop b e [] = [(b, e)]"
| "toRanges_loop b e (c # cs) =
     (if unat e + 1 = unat c then toRanges_loop b c cs
      else (b, e) # toRanges_loop c c cs)"

definition toRanges :: "rchar set \<Rightarrow> range list" where
  "toRanges cs = (case sorted_list_of_set cs of [] \<Rightarrow> [] | b # cs' \<Rightarrow> toRanges_loop b b cs')"

definition anyOfChars :: "rchar set \<Rightarrow> regex" where
  "anyOfChars cs = anyOf (map (\<lambda>p. charRange (fst p) (snd p)) (toRanges cs))"

abbreviation chr :: "char \<Rightarrow> rchar" where
  "chr c \<equiv> of_char c"

definition unescapeInto :: "rchar \<Rightarrow> rchar set \<Rightarrow> rchar set" where
  "unescapeInto e out =
     (if e = chr (CHR ''t'') then insert 9 out
      else if e = chr (CHR ''r'') then insert 13 out
      else if e = chr (CHR ''n'') then insert 10 out
      else insert e out)"

definition unescapePatChar :: "rchar \<Rightarrow> regex" where
  "unescapePatChar x = anyOfChars (unescapeInto x {})"

definition charRangeInto :: "rchar \<Rightarrow> rchar \<Rightarrow> rchar set \<Rightarrow> rchar set" where
  "charRangeInto i e out = foldl (\<lambda>out x. insert (of_nat x) out) out [unat i..<Suc (unat e)]"

definition anyChars :: "rchar set" where
  "anyChars = charRangeInto 0 255 {}"

section \<open>Parser\<close>

datatype parse_error = ExpectedGroupName | UnexpectedEnd | OutOfRange | OutOfFuel

text \<open>\<open>charAt x i\<close> is \<open>x[i]\<close> for \<open>i\<close> up to the size, where it is the terminating zero.\<close>

definition charAt :: "string \<Rightarrow> nat \<Rightarrow> char" where
  "charAt x i = (if i < length x then x ! i else CHR 0x00)"

function readCharset_loop :: "string \<Rightarrow> nat \<Rightarrow> rchar set \<Rightarrow> nat \<times> rchar set" where
  "readCharset_loop x i cs =
     (if i < length x then
        let c0 = x ! i; k = i + 1; c1 = charAt x k in
        if c0 = CHR '']'' then (k, cs)
        else if c0 = CHR 0x5C then readCharset_loop x (k + 1) (unescapeInto (chr c1) cs)
        else if c1 = CHR ''-'' \<and> k + 1 < length x then
          readCharset_loop x (k + 2) (charRangeInto (chr c0) (chr (x ! (k + 1))) cs)
        else readCharset_loop x k (insert (chr c0) cs)
      else (i, cs))"
  by pat_completeness auto
termination by (relation "measure (\<lambda>(x, i, cs). length x - i)") auto

declare readCharset_loop.simps [simp del]

definition readCharset :: "string \<Rightarrow> nat \<Rightarrow> nat \<times> rchar set" where
  "readCharset x i = readCharset_loop x i {}"

definition returnR :: "string \<Rightarrow> nat \<Rightarrow> regex \<Rightarrow> parse_error + nat \<times> regex" where
  "returnR x k r =
     (if k > length x then Inl OutOfRange
      else let c = charAt x k in
        if c = CHR ''?'' then Inr (k + 1, either epsilon r)
        else if c = CHR ''*'' then Inr (k + 1, zeroOrMore r)
        else if c = CHR ''+'' then Inr (k + 1, sequence r (zeroOrMore r))
        else Inr (k, r))"

text \<open>The name of a capturing group that starts with \<open>(?\<close> at \<open>i\<close>: its end and the name.\<close>

definition groupName :: "string \<Rightarrow> nat \<Rightarrow> parse_error + nat \<times> string" where
  "groupName x i =
     (let k0 = i + 2;
          k = (if k0 < length x \<and> x ! k0 = CHR ''P'' then k0 + 1 else k0);
          gd = charAt x k
      in if gd = CHR ''<'' \<or> gd = CHR 0x27 then
           let ed = (if gd = CHR ''<'' then CHR ''>'' else CHR 0x27);
               b = takeWhile (\<lambda>c. c \<noteq> ed) (drop (k + 1) x)
           in Inr (k + 1 + length b, b)
         else Inl ExpectedGroupName)"

fun diffRegex :: "nat \<Rightarrow> regex \<Rightarrow> string \<Rightarrow> nat \<Rightarrow> parse_error + nat \<times> regex"
  and seqR :: "nat \<Rightarrow> regex \<Rightarrow> regex \<Rightarrow> string \<Rightarrow> nat \<Rightarrow> parse_error + nat \<times> regex" where
  "diffRegex 0 lhs x i = Inl OutOfFuel"
| "diffRegex (Suc n) lhs x i =
     (if i > length x then Inl OutOfRange
      else if i = length x then Inr (i, lhs)
      else if x ! i = CHR '')'' then returnR x (i + 1) lhs
      else if x ! i = CHR ''('' then
        (case (if charAt x (i + 1) = CHR ''?'' then groupName x i else Inr (i, [])) of
           Inl e \<Rightarrow> Inl e
         | Inr (j, b) \<Rightarrow>
             (case diffRegex n epsilon x (j + 1) of
                Inl e \<Rightarrow> Inl e
              | Inr (k, g) \<Rightarrow> diffRegex n (sequence lhs (bindTo b g)) x k))
      else if x ! i = CHR ''|'' then
        (case diffRegex n epsilon x (i + 1) of
           Inl e \<Rightarrow> Inl e
         | Inr (k, r) \<Rightarrow> Inr (k, either lhs r))
      else if x ! i = CHR ''.'' then seqR n lhs (anyOfChars anyChars) x (i + 1)
      else if x ! i = CHR ''['' then
        (if i + 1 < length x then
           let invert = (x ! (i + 1) = CHR 0x5E);
               (k, p) = readCharset x (if invert then i + 2 else i + 1);
               cs = (if invert then anyChars - p else p)
           in seqR n lhs (anyOfChars cs) x k
         else Inl UnexpectedEnd)
      else if x ! i = CHR 0x5C then
        (if i + 1 < length x then seqR n lhs (unescapePatChar (chr (x ! (i + 1)))) x (i + 2)
         else Inl UnexpectedEnd)
      else seqR n lhs (charLit (chr (x ! i))) x (i + 1))"
| "seqR n lhs c x k =
     (case returnR x k c of
        Inl e \<Rightarrow> Inl e
      | Inr (k', c') \<Rightarrow> diffRegex n (sequence lhs c') x k')"

text \<open>A closing parenthesis without an opening one ends \<open>diffRegex\<close> early; \<open>parseRegex\<close> goes on.\<close>

fun parseRegex_loop :: "nat \<Rightarrow> string \<Rightarrow> nat \<times> regex \<Rightarrow> parse_error + regex" where
  "parseRegex_loop 0 x dr = Inl OutOfFuel"
| "parseRegex_loop (Suc n) x (i, r) =
     (if i < length x then
        (case diffRegex (Suc (length x)) r x i of
           Inl e \<Rightarrow> Inl e
         | Inr dr \<Rightarrow> parseRegex_loop n x dr)
      else Inr r)"

definition parseRegex :: "string \<Rightarrow> parse_error + regex" where
  "parseRegex x =
     (case diffRegex (Suc (length x)) epsilon x 0 of
        Inl e \<Rightarrow> Inl e
      | Inr dr \<Rightarrow> parseRegex_loop (Suc (length x)) x dr)"

fun bnames :: "regex \<Rightarrow> string set \<Rightarrow> string set" where
  "bnames REps ns = ns"
| "bnames (RCharRange b e) ns = ns"
| "bnames (RStar v) ns = bnames v ns"
| "bnames (REither l r) ns = bnames r (bnames l ns)"
| "bnames (RSeq l r) ns = bnames r (bnames l ns)"
| "bnames (RBind x d) ns = bnames d (insert x ns)"

definition bindingNames :: "regex \<Rightarrow> string list" where
  "bindingNames r = sorted_list_of_set (bnames r {})"

section \<open>What a regular expression matches\<close>

inductive matches :: "regex \<Rightarrow> rchar list \<Rightarrow> bool" where
  m_eps: "matches REps []"
| m_char: "b \<le> c \<Longrightarrow> c \<le> e \<Longrightarrow> matches (RCharRange b e) [c]"
| m_star0: "matches (RStar v) []"
| m_star: "matches v u \<Longrightarrow> matches (RStar v) w \<Longrightarrow> matches (RStar v) (u @ w)"
| m_left: "matches l w \<Longrightarrow> matches (REither l r) w"
| m_right: "matches r w \<Longrightarrow> matches (REither l r) w"
| m_seq: "matches l u \<Longrightarrow> matches r w \<Longrightarrow> matches (RSeq l r) (u @ w)"
| m_bind: "matches d w \<Longrightarrow> matches (RBind x d) w"

inductive_simps matches_simps [simp]:
  "matches REps w"
  "matches (RCharRange b e) w"
  "matches (REither l r) w"
  "matches (RSeq l r) w"
  "matches (RBind x d) w"

inductive_cases matches_starE: "matches (RStar v) w"

lemma matches_epsilon [simp]: "matches epsilon w \<longleftrightarrow> w = []"
  by (simp add: epsilon_def)

lemma matches_either [simp]: "matches (either l r) w \<longleftrightarrow> matches l w \<or> matches r w"
  by (simp add: either_def)

lemma matches_bindTo [simp]: "matches (bindTo b r) w \<longleftrightarrow> matches r w"
  by (simp add: bindTo_def)

lemma matches_foldl_either:
  "matches (foldl either a rs) w \<longleftrightarrow> matches a w \<or> (\<exists>r \<in> set rs. matches r w)"
  by (induction rs arbitrary: a) auto

lemma matches_anyOf:
  "matches (anyOf rs) w \<longleftrightarrow> (if rs = [] then w = [] else \<exists>r \<in> set rs. matches r w)"
  by (cases rs) (simp_all add: anyOf_def matches_foldl_either)

section \<open>Character classes\<close>

lemma toRanges_loop_covers:
  assumes "b \<le> e" "sorted_wrt (<) (e # cs)"
  shows "covers (toRanges_loop b e cs) k \<longleftrightarrow> in_range k (b, e) \<or> k \<in> set cs"
  using assms
proof (induction b e cs rule: toRanges_loop.induct)
  case (2 b e c cs)
  have ec: "e < c" "sorted_wrt (<) (c # cs)" using "2.prems" by simp_all
  show ?case
  proof (cases "unat e + 1 = unat c")
    case True
    have "in_range k (b, c) \<longleftrightarrow> in_range k (b, e) \<or> k = c"
    proof -
      have "k \<le> c \<longleftrightarrow> k \<le> e \<or> k = c" using True
        unfolding word_le_nat_alt word_unat_eq_iff by linarith
      then show ?thesis using "2.prems"(1) ec(1) by (auto simp: in_range_def)
    qed
    moreover have "b \<le> c" using "2.prems"(1) ec(1) by simp
    ultimately show ?thesis using "2.IH"(1) [OF True _ ec(2)] True by auto
  next
    case False
    then show ?thesis using "2.IH"(2) [OF False _ ec(2)] by (auto simp: in_range_def)
  qed
qed simp

lemma toRanges_loop_sorted_valid:
  "b \<le> e \<Longrightarrow> sorted_wrt (<) (e # cs) \<Longrightarrow> \<forall>r \<in> set (toRanges_loop b e cs). valid_range r"
proof (induction b e cs rule: toRanges_loop.induct)
  case (2 b e c cs)
  have "e < c" using "2.prems"(2) by simp
  with "2.prems"(1) have "b \<le> c" by simp
  with 2 show ?case by (simp add: valid_range_def)
qed (simp add: valid_range_def)

lemma toRanges_loop_sorted:
  assumes "b \<le> e" "sorted_wrt (<) (e # cs)"
  shows "ranges_sorted (toRanges_loop b e cs)"
  using assms
proof (induction b e cs rule: toRanges_loop.induct)
  case (2 b e c cs)
  have ec: "e < c" "sorted_wrt (<) (c # cs)" using "2.prems" by simp_all
  have "e < fst r" if "r \<in> set (toRanges_loop c c cs)" for r
  proof -
    have "valid_range r"
      using that toRanges_loop_sorted_valid [of c c cs] ec by blast
    with that have "covers (toRanges_loop c c cs) (fst r)" by (intro covers_fst)
    then show ?thesis using toRanges_loop_covers [of c c cs "fst r"] ec "2.prems"(2)
      by (auto simp: in_range_def)
  qed
  moreover have "b \<le> c" using "2.prems"(1) ec(1) by simp
  ultimately show ?case using "2.IH" ec(2) "2.prems"(1)
    by (auto simp: valid_range_def)
qed (simp add: valid_range_def)

lemma toRanges_sorted: "ranges_sorted (toRanges cs)"
proof -
  have "sorted_wrt (<) (sorted_list_of_set cs)" by simp
  then show ?thesis
    by (cases "sorted_list_of_set cs") (simp_all add: toRanges_def toRanges_loop_sorted del: sorted_list_of_set.strict_sorted_key_list_of_set)
qed

lemma toRanges_covers: "covers (toRanges cs) k \<longleftrightarrow> k \<in> cs"
proof -
  have "sorted_wrt (<) (sorted_list_of_set cs)" "set (sorted_list_of_set cs) = cs" by simp_all
  then show ?thesis
    by (cases "sorted_list_of_set cs") (auto simp: toRanges_def toRanges_loop_covers in_range_def)
qed

lemma toRanges_Nil: "toRanges cs = [] \<longleftrightarrow> cs = {}"
proof
  assume "toRanges cs = []"
  then show "cs = {}" using toRanges_covers [of cs] by auto
qed (simp add: toRanges_def)

lemma matches_anyOfChars:
  "matches (anyOfChars cs) w \<longleftrightarrow> (if cs = {} then w = [] else \<exists>c \<in> cs. w = [c])"
proof -
  have "(\<exists>r \<in> set (toRanges cs). matches (RCharRange (fst r) (snd r)) w) \<longleftrightarrow>
      (\<exists>c. w = [c] \<and> covers (toRanges cs) c)"
    by (force simp: covers_def in_range_def)
  then show ?thesis
    by (auto simp: anyOfChars_def matches_anyOf charRange_def toRanges_covers toRanges_Nil)
qed

lemma byte_bound: "unat (c :: rchar) < 256"
  using unsigned_less [of c] by simp

lemma charRangeInto_eq: "charRangeInto i e out = out \<union> {i..e}"
proof -
  have "foldl (\<lambda>out x. insert (of_nat x) out) out ns = out \<union> of_nat ` set ns" for ns :: "nat list"
    by (induction ns arbitrary: out) auto
  moreover have "of_nat ` {unat i..unat e} = {i..e}"
  proof (intro equalityI subsetI)
    fix c assume "c \<in> {i..e}"
    then have "unat c \<in> {unat i..unat e}" by (simp add: word_le_nat_alt)
    then show "c \<in> of_nat ` {unat i..unat e}" by (rule_tac image_eqI [of _ _ "unat c"]) simp_all
  next
    fix c :: rchar assume "c \<in> of_nat ` {unat i..unat e}"
    then obtain n where n: "c = of_nat n" "unat i \<le> n" "n \<le> unat e" by auto
    then have "unat c = n" using byte_bound [of e] by (simp add: unat_of_nat)
    then show "c \<in> {i..e}" using n by (simp add: word_le_nat_alt)
  qed
  ultimately show ?thesis by (simp add: charRangeInto_def atLeastLessThanSuc_atLeastAtMost del: upt_Suc)
qed

lemma anyChars_UNIV: "anyChars = UNIV"
proof -
  have "c \<le> 255" for c :: rchar
    using byte_bound [of c] by (simp add: word_le_nat_alt)
  then show ?thesis by (auto simp: anyChars_def charRangeInto_eq)
qed

section \<open>The parser returns\<close>

lemma returnR_progress:
  assumes "returnR x k r = Inr (j, r')"
  shows "k \<le> j \<and> j \<le> length x"
  using assms by (auto simp: returnR_def charAt_def Let_def split: if_splits)

lemma returnR_fuel: "returnR x k r \<noteq> Inl OutOfFuel"
  by (auto simp: returnR_def Let_def)

lemma groupName_fuel: "groupName x i \<noteq> Inl OutOfFuel"
  by (auto simp: groupName_def Let_def)

lemma groupName_progress: "groupName x i = Inr (j, b) \<Longrightarrow> i \<le> j"
  by (auto simp: groupName_def Let_def split: if_splits)

lemma readCharset_progress: "i \<le> fst (readCharset_loop x i cs)"
proof (induction x i cs rule: readCharset_loop.induct)
  case (1 x i cs)
  note IH = 1 [OF _ refl refl refl]
  show ?case
  proof (cases "i < length x \<and> x ! i \<noteq> CHR '']''")
    case True
    then show ?thesis using IH
      by (subst readCharset_loop.simps) (auto simp: Let_def intro: Suc_leD)
  next
    case False
    then show ?thesis by (subst readCharset_loop.simps) (auto simp: Let_def)
  qed
qed

lemma readCharset_ge: "readCharset x k = (k', p) \<Longrightarrow> k \<le> k'"
  using readCharset_progress [of k x "{}"] by (simp add: readCharset_def)

lemma seqR_Inr:
  assumes "seqR n lhs c x k = Inr (j, r)"
  obtains k' c' where "k \<le> k'" "k' \<le> length x" "diffRegex n (sequence lhs c') x k' = Inr (j, r)"
  using assms by (auto split: sum.splits dest: returnR_progress)

lemma diffRegex_progress:
  "diffRegex n lhs x i = Inr (j, r) \<Longrightarrow> i \<le> j \<and> j \<le> length x \<and> (i < length x \<longrightarrow> i < j)"
proof (induction n arbitrary: lhs i j r)
  case (Suc n)
  have seq: "seqR n lhs c x k = Inr (j, r) \<Longrightarrow> k \<le> j \<and> j \<le> length x" for c k
    by (erule seqR_Inr) (use Suc.IH in \<open>fastforce\<close>)
  show ?case
    using Suc.prems
    by (auto simp: Let_def simp del: seqR.simps split: if_splits sum.splits prod.splits
        dest!: returnR_progress Suc.IH seq groupName_progress readCharset_ge)
qed simp

lemma diffRegex_fuel:
  "length x < n + i \<Longrightarrow> i \<le> length x \<Longrightarrow> diffRegex n lhs x i \<noteq> Inl OutOfFuel"
proof (induction n arbitrary: lhs i)
  case (Suc n)
  have IH: "i < k \<Longrightarrow> k \<le> length x \<Longrightarrow> diffRegex n lhs x k \<noteq> Inl OutOfFuel" for lhs k
    using Suc.IH [of k] Suc.prems by simp
  have over: "length x < k \<Longrightarrow> diffRegex n lhs x k \<noteq> Inl OutOfFuel" if "n > 0" for lhs k
    using that by (cases n) simp_all
  have seq: "i < k \<Longrightarrow> seqR n lhs c x k \<noteq> Inl OutOfFuel" for c k
    by (auto split: sum.split dest!: returnR_progress simp: returnR_fuel IH)
  show ?case
  proof (cases "i = length x")
    case False
    then have i: "i < length x" "n > 0" using Suc.prems by simp_all
    have later: "i < k \<Longrightarrow> diffRegex n lhs x k \<noteq> Inl OutOfFuel" for lhs k
      using IH over i(2) by (cases "k \<le> length x") auto
    show ?thesis using i
      by (auto simp: Let_def later seq returnR_fuel groupName_fuel simp del: seqR.simps
          split: sum.split prod.split dest!: groupName_progress diffRegex_progress readCharset_ge)
  qed simp
qed simp

lemma parseRegex_loop_fuel:
  "length x < n + fst dr \<Longrightarrow> fst dr \<le> length x \<Longrightarrow> parseRegex_loop n x dr \<noteq> Inl OutOfFuel"
proof (induction n arbitrary: dr)
  case (Suc n)
  obtain i r where dr: "dr = (i, r)" by (cases dr)
  show ?case
  proof (cases "i < length x")
    case True
    show ?thesis
    proof (cases "diffRegex (Suc (length x)) r x i")
      case (Inl e)
      then show ?thesis using True dr diffRegex_fuel [of x "Suc (length x)" i r] by auto
    next
      case (Inr dr')
      then obtain j r' where dr': "dr' = (j, r')" "i < j" "j \<le> length x"
        using True diffRegex_progress by (cases dr') blast
      then show ?thesis using Inr True dr Suc.prems Suc.IH [of "(j, r')"] by simp
    qed
  qed (simp add: dr)
qed simp

text \<open>A string in which every character with a meaning of its own is escaped.\<close>

definition specials :: "char set" where
  "specials = set ''()|.[?*+'' \<union> {CHR 0x5C}"

definition quote :: "string \<Rightarrow> string" where
  "quote s = concat (map (\<lambda>c. if c \<in> specials then [CHR 0x5C, c] else [c]) s)"

lemma quote_simps [simp]:
  "quote [] = []"
  "quote (c # s) = (if c \<in> specials then CHR 0x5C # c # quote s else c # quote s)"
  by (simp_all add: quote_def)

lemma charAt_append [simp]: "charAt (xs @ ys) (length xs) = charAt ys 0"
  by (simp add: charAt_def nth_append)

lemma returnR_quote:
  "returnR (xs @ quote s) (length xs) r = Inr (length xs, r)"
proof -
  have "charAt (quote s) 0 \<notin> {CHR ''?'', CHR ''*'', CHR ''+''}"
    by (cases s) (auto simp: charAt_def specials_def)
  then show ?thesis by (auto simp: returnR_def Let_def)
qed

lemma seqR_quote:
  "seqR n lhs c (xs @ quote s) (length xs) =
     diffRegex n (sequence lhs c) (xs @ quote s) (length xs)"
  by (simp add: returnR_quote)

lemma unat_chr: "unat (chr c) = of_char c"
proof -
  have "chr c = of_nat (of_char c)" by (simp only: of_nat_of_char)
  then show ?thesis using nat_of_char_less_256 [of c] by (simp only: unat_of_nat) simp
qed

lemma chr_inj [simp]: "chr c = chr d \<longleftrightarrow> c = d"
proof
  assume "chr c = chr d"
  then have "of_char c = (of_char d :: nat)" by (metis unat_chr)
  then show "c = d" by simp
qed simp

lemma diffRegex_quote:
  assumes "length (quote s) < n"
  shows "\<exists>r. diffRegex n lhs (xs @ quote s) (length xs) = Inr (length xs + length (quote s), r) \<and>
      (\<forall>w. matches r w \<longleftrightarrow> (\<exists>u. matches lhs u \<and> w = u @ map chr s))"
  using assms
proof (induction s arbitrary: n lhs xs)
  case Nil
  then show ?case by (cases n) simp_all
next
  case (Cons c s)
  then obtain m where n: "n = Suc m" by (cases n) simp_all
  show ?case
  proof (cases "c \<in> specials")
    case True
    let ?xs = "xs @ [CHR 0x5C, c]"
    have "diffRegex n lhs (xs @ quote (c # s)) (length xs) =
        diffRegex m (sequence lhs (unescapePatChar (chr c))) (?xs @ quote s) (length ?xs)"
      using True n seqR_quote [of m lhs "unescapePatChar (chr c)" ?xs s]
      by (simp add: nth_append del: seqR.simps)
    moreover have "unescapeInto (chr c) {} = {chr c}"
      using True by (auto simp: unescapeInto_def specials_def)
    ultimately show ?thesis
      using Cons.IH [of m "sequence lhs (unescapePatChar (chr c))" ?xs] Cons.prems True n
      by (fastforce simp: sequence_def unescapePatChar_def matches_anyOfChars)
  next
    case False
    let ?xs = "xs @ [c]"
    have "diffRegex n lhs (xs @ quote (c # s)) (length xs) =
        diffRegex m (sequence lhs (charLit (chr c))) (?xs @ quote s) (length ?xs)"
      using False n seqR_quote [of m lhs "charLit (chr c)" ?xs s]
      by (simp add: nth_append specials_def del: seqR.simps)
    then show ?thesis
      using Cons.IH [of m "sequence lhs (charLit (chr c))" ?xs] Cons.prems False n
      by (fastforce simp: sequence_def charLit_def)
  qed
qed

declare diffRegex.simps(2) [simp del] seqR.simps [simp del] parseRegex_loop.simps(2) [simp del]

section \<open>Properties of the parser\<close>


text \<open>
  C25. Escaping round trip: parsing a string whose special characters are escaped with a backslash
  succeeds and gives an expression that matches exactly that string.
\<close>

theorem parse_quoted:
  "\<exists>r. parseRegex (quote s) = Inr r \<and> (\<forall>w. matches r w \<longleftrightarrow> w = map chr s)"
proof -
  from diffRegex_quote [of s "Suc (length (quote s))" epsilon "[]"]
  obtain r where "diffRegex (Suc (length (quote s))) epsilon (quote s) 0 = Inr (length (quote s), r)"
    "\<forall>w. matches r w \<longleftrightarrow> w = map chr s" by auto
  then show ?thesis by (simp add: parseRegex_def parseRegex_loop.simps)
qed

text \<open>
  A character class, in whatever order and with whatever overlaps it was written, becomes an
  alternative of ranges that matches exactly the one-character strings of its members; only an
  empty class is taken for the empty string.
\<close>

theorem class_matches:
  "matches (anyOfChars cs) w \<longleftrightarrow> (if cs = {} then w = [] else \<exists>c \<in> cs. w = [c])"
  by (rule matches_anyOfChars)

text \<open>
  A postfix operator after a group with alternatives binds to the last alternative only: the
  closing parenthesis and the operator are consumed inside the recursion for \<open>|\<close>, so \<open>(a|b)*\<close>
  is read as \<open>a|b*\<close> and does not match \<open>aa\<close>.
\<close>

theorem group_star_binds_last_alternative:
  "\<exists>r. parseRegex ''(a|b)*'' = Inr r \<and> matches r [chr (CHR ''a'')] \<and>
     \<not> matches r [chr (CHR ''a''), chr (CHR ''a'')]"
proof -
  have "parseRegex ''(a|b)*'' = Inr (RSeq REps (REither (RSeq REps (RCharRange 97 97))
          (RStar (RSeq REps (RCharRange 98 98)))))"
    by code_simp
  moreover have "\<not> matches (RStar (RSeq REps (RCharRange 98 98))) [97, 97]"
    by (auto elim!: matches_starE [of _ "[97, 97]"])
  ultimately show ?thesis by simp
qed

end
