(* ===== verification/Regex_NFA.thy ===== *)
theory Regex_NFA
  imports Complex_Main Regex_Syntax
begin

text \<open>
  The translation of regular expressions to a nondeterministic automaton in
  \<^verbatim>\<open>lib/hobbes/lang/pat/regex.C\<close>: \<open>linkStateF\<close>, \<open>regexBefore\<close>, \<open>accumRegex\<close> and the
  loop of \<open>makeRegexFn\<close> that joins several expressions at state 0. State numbers
  (\<open>uint32_t\<close>) are natural numbers, an automaton is the vector of its states, the accept
  value \<open>nullResult\<close> is \<open>None\<close>. The map \<open>srcmarkers\<close> from results to sets of names, which
  is only ever grown, is the set of its result/name pairs.
\<close>

section \<open>Automata\<close>

type_synonym srcmarkers = "(nat \<times> string) set"

record nfa_state =
  n_eps :: "nat set"
  n_chars :: "nat set rmap"
  n_acc :: "nat option"
  n_begins :: srcmarkers
  n_ends :: srcmarkers

type_synonym nfa = "nfa_state list"

definition newState :: nfa_state where
  "newState = \<lparr>n_eps = {}, n_chars = [], n_acc = None, n_begins = {}, n_ends = {}\<rparr>"

definition updState :: "nat \<Rightarrow> (nfa_state \<Rightarrow> nfa_state) \<Rightarrow> nfa \<Rightarrow> nfa" where
  "updState s f nfa = nfa[s := f (nfa ! s)]"

definition addEps :: "nat \<Rightarrow> nfa_state \<Rightarrow> nfa_state" where
  "addEps t st = st\<lparr>n_eps := insert t (n_eps st)\<rparr>"

definition addChars :: "rchar \<Rightarrow> rchar \<Rightarrow> nat \<Rightarrow> nfa_state \<Rightarrow> nfa_state" where
  "addChars b e t st = st\<lparr>n_chars := rm_mergeRange {} (b, e) (insert t) (n_chars st)\<rparr>"

definition beginMark :: "nat \<Rightarrow> string \<Rightarrow> nfa_state \<Rightarrow> nfa_state" where
  "beginMark r m st = st\<lparr>n_begins := insert (r, m) (n_begins st)\<rparr>"

definition endMark :: "nat \<Rightarrow> string \<Rightarrow> nfa_state \<Rightarrow> nfa_state" where
  "endMark r m st = st\<lparr>n_ends := insert (r, m) (n_ends st)\<rparr>"

fun link :: "regex \<Rightarrow> nat \<Rightarrow> nat \<Rightarrow> nat \<Rightarrow> nfa \<Rightarrow> nfa"
  and regexBefore :: "regex \<Rightarrow> nat \<Rightarrow> nat \<Rightarrow> nfa \<Rightarrow> nat \<times> nfa" where
  "link REps self succ x nfa = updState self (addEps succ) nfa"
| "link (RCharRange b e) self succ x nfa = updState self (addChars b e succ) nfa"
| "link (RStar v) self succ x nfa = updState self (addEps succ) (link v self self x nfa)"
| "link (REither l r) self succ x nfa =
     (let (lstate, nfa1) = regexBefore l succ x nfa;
          (rstate, nfa2) = regexBefore r succ x nfa1
      in updState self (addEps rstate) (updState self (addEps lstate) nfa2))"
| "link (RSeq l r) self succ x nfa =
     (let (rstate, nfa1) = regexBefore r succ x nfa
      in link l self rstate x nfa1)"
| "link (RBind v d) self succ x nfa =
     updState succ (endMark x v) (link d self succ x (updState self (beginMark x v) nfa))"
| "regexBefore p cont x nfa =
     (let rstate = length nfa in (rstate, link p rstate cont x (nfa @ [newState])))"

definition accumRegex :: "regex \<Rightarrow> nat \<Rightarrow> nfa \<Rightarrow> nat \<times> nfa" where
  "accumRegex p x nfa =
     (let rstate = length nfa
      in regexBefore p rstate x (nfa @ [newState\<lparr>n_acc := Some x\<rparr>]))"

fun accumRegexes :: "nat \<Rightarrow> regex list \<Rightarrow> nfa \<Rightarrow> nfa" where
  "accumRegexes i [] nfa = nfa"
| "accumRegexes i (r # rs) nfa =
     (let (s, nfa1) = accumRegex r i nfa
      in accumRegexes (Suc i) rs (updState 0 (addEps s) nfa1))"

definition makeNFA :: "regex list \<Rightarrow> nfa" where
  "makeNFA rs = accumRegexes 0 rs [newState]"

definition usedCharRanges :: "nfa \<Rightarrow> nat set \<Rightarrow> range list" where
  "usedCharRanges nfa ss =
     foldl (\<lambda>rs s. rm_disjointRanges (n_chars (nfa ! s)) rs) [] (sorted_list_of_set ss)"

section \<open>Runs\<close>

text \<open>\<open>path nfa s w t\<close>: the automaton can go from \<open>s\<close> to \<open>t\<close> reading \<open>w\<close>.\<close>

inductive path :: "nfa \<Rightarrow> nat \<Rightarrow> rchar list \<Rightarrow> nat \<Rightarrow> bool" for nfa where
  path_refl: "path nfa s [] s"
| path_eps: "s < length nfa \<Longrightarrow> t \<in> n_eps (nfa ! s) \<Longrightarrow> path nfa t w u \<Longrightarrow> path nfa s w u"
| path_char: "s < length nfa \<Longrightarrow> rm_lookup (n_chars (nfa ! s)) c = Some ts \<Longrightarrow> t \<in> ts \<Longrightarrow>
    path nfa t w u \<Longrightarrow> path nfa s (c # w) u"

definition nfa_accepts :: "nfa \<Rightarrow> nat \<Rightarrow> rchar list \<Rightarrow> nat \<Rightarrow> bool" where
  "nfa_accepts nfa s w x \<longleftrightarrow> (\<exists>t. path nfa s w t \<and> t < length nfa \<and> n_acc (nfa ! t) = Some x)"

lemma path_trans: "path nfa s u t \<Longrightarrow> path nfa t w v \<Longrightarrow> path nfa s (u @ w) v"
  by (induction rule: path.induct) (auto intro: path.intros)

section \<open>Shape of expressions\<close>

text \<open>
  \<open>wf_regex\<close>: every character range is non-empty. \<open>selfstar\<close>: linking the expression puts the
  loop of a star on the state it starts from; \<open>guarded\<close>: no star has such a body, whose loop
  would be mixed with its own.
\<close>

fun wf_regex :: "regex \<Rightarrow> bool" where
  "wf_regex REps = True"
| "wf_regex (RCharRange b e) = (b \<le> e)"
| "wf_regex (RStar v) = wf_regex v"
| "wf_regex (REither l r) = (wf_regex l \<and> wf_regex r)"
| "wf_regex (RSeq l r) = (wf_regex l \<and> wf_regex r)"
| "wf_regex (RBind x d) = wf_regex d"

fun selfstar :: "regex \<Rightarrow> bool" where
  "selfstar (RStar v) = True"
| "selfstar (RSeq l r) = selfstar l"
| "selfstar (RBind x d) = selfstar d"
| "selfstar _ = False"

fun guarded :: "regex \<Rightarrow> bool" where
  "guarded (RStar v) = (\<not> selfstar v \<and> guarded v)"
| "guarded (REither l r) = (guarded l \<and> guarded r)"
| "guarded (RSeq l r) = (guarded l \<and> guarded r)"
| "guarded (RBind x d) = guarded d"
| "guarded _ = True"

section \<open>Edges\<close>

definition eps_edge :: "nfa \<Rightarrow> nat \<Rightarrow> nat \<Rightarrow> bool" where
  "eps_edge nfa s t \<longleftrightarrow> s < length nfa \<and> t \<in> n_eps (nfa ! s)"

definition char_edge :: "nfa \<Rightarrow> nat \<Rightarrow> rchar \<Rightarrow> nat \<Rightarrow> bool" where
  "char_edge nfa s c t \<longleftrightarrow> s < length nfa \<and> (\<exists>ts. rm_lookup (n_chars (nfa ! s)) c = Some ts \<and> t \<in> ts)"

lemma length_updState [simp]: "length (updState s f nfa) = length nfa"
  by (simp add: updState_def)

lemma nth_updState:
  "s < length nfa \<Longrightarrow> updState q f nfa ! s = (if s = q then f (nfa ! s) else nfa ! s)"
  by (simp add: updState_def nth_list_update)

lemma addEps_simps [simp]:
  "n_eps (addEps t st) = insert t (n_eps st)" "n_chars (addEps t st) = n_chars st"
  "n_acc (addEps t st) = n_acc st"
  by (simp_all add: addEps_def)

lemma addChars_simps [simp]:
  "n_eps (addChars b e t st) = n_eps st" "n_acc (addChars b e t st) = n_acc st"
  "n_chars (addChars b e t st) = rm_mergeRange {} (b, e) (insert t) (n_chars st)"
  by (simp_all add: addChars_def)

lemma marks_simps [simp]:
  "n_eps (beginMark x m st) = n_eps st" "n_chars (beginMark x m st) = n_chars st"
  "n_acc (beginMark x m st) = n_acc st"
  "n_eps (endMark x m st) = n_eps st" "n_chars (endMark x m st) = n_chars st"
  "n_acc (endMark x m st) = n_acc st"
  by (simp_all add: beginMark_def endMark_def)

lemma newState_simps [simp]:
  "n_eps newState = {}" "n_chars newState = []" "n_acc newState = None"
  "n_begins newState = {}" "n_ends newState = {}"
  by (simp_all add: newState_def)

text \<open>
  \<open>nfa_ok\<close>: edges lead to states of the automaton, and the transition maps are well formed.
  A construction step \<open>grows\<close> an automaton: it only appends states and adds edges, and keeps
  the accept values.
\<close>

definition nfa_ok :: "nfa \<Rightarrow> bool" where
  "nfa_ok nfa \<longleftrightarrow> (\<forall>s t. eps_edge nfa s t \<longrightarrow> t < length nfa) \<and>
     (\<forall>s c t. char_edge nfa s c t \<longrightarrow> t < length nfa) \<and>
     (\<forall>s < length nfa. rm_ok (n_chars (nfa ! s)))"

definition grows :: "nfa \<Rightarrow> nfa \<Rightarrow> bool" where
  "grows nfa nfa' \<longleftrightarrow> length nfa \<le> length nfa' \<and>
     (\<forall>s t. eps_edge nfa s t \<longrightarrow> eps_edge nfa' s t) \<and>
     (\<forall>s c t. char_edge nfa s c t \<longrightarrow> char_edge nfa' s c t) \<and>
     (\<forall>s < length nfa. n_acc (nfa' ! s) = n_acc (nfa ! s)) \<and>
     (\<forall>s. length nfa \<le> s \<longrightarrow> s < length nfa' \<longrightarrow> n_acc (nfa' ! s) = None)"

lemma grows_refl [simp]: "grows nfa nfa"
  by (simp add: grows_def)

lemma grows_trans: "grows a b \<Longrightarrow> grows b c \<Longrightarrow> grows a c"
  unfolding grows_def by (metis le_trans linorder_not_le order_less_le_trans)

lemma grows_length: "grows nfa nfa' \<Longrightarrow> length nfa \<le> length nfa'"
  by (simp add: grows_def)

lemma path_alt:
  "path nfa s w u \<longleftrightarrow> (s = u \<and> w = []) \<or> (\<exists>t. eps_edge nfa s t \<and> path nfa t w u) \<or>
     (\<exists>c w' t. w = c # w' \<and> char_edge nfa s c t \<and> path nfa t w' u)"
  by (subst path.simps) (auto simp: eps_edge_def char_edge_def)

lemma path_grows: "path nfa s w t \<Longrightarrow> grows nfa nfa' \<Longrightarrow> path nfa' s w t"
proof (induction rule: path.induct)
  case (path_eps s t w u)
  then have "eps_edge nfa' s t" by (simp add: grows_def eps_edge_def)
  with path_eps show ?case by (subst path_alt) blast
next
  case (path_char s c ts t w u)
  then have "char_edge nfa' s c t" by (force simp: grows_def char_edge_def)
  with path_char show ?case by (subst path_alt) blast
qed (rule path_refl)

section \<open>Single steps of the construction\<close>

lemma eps_edge_upd:
  "eps_edge (updState q (addEps r) nfa) s t \<longleftrightarrow> eps_edge nfa s t \<or> (q < length nfa \<and> s = q \<and> t = r)"
  "eps_edge (updState q (addChars b e r) nfa) s t \<longleftrightarrow> eps_edge nfa s t"
  "eps_edge (updState q (beginMark x m) nfa) s t \<longleftrightarrow> eps_edge nfa s t"
  "eps_edge (updState q (endMark x m) nfa) s t \<longleftrightarrow> eps_edge nfa s t"
  by (auto simp: eps_edge_def nth_updState split: if_splits)

lemma char_edge_upd:
  "char_edge (updState q (addEps r) nfa) s c t \<longleftrightarrow> char_edge nfa s c t"
  "char_edge (updState q (beginMark x m) nfa) s c t \<longleftrightarrow> char_edge nfa s c t"
  "char_edge (updState q (endMark x m) nfa) s c t \<longleftrightarrow> char_edge nfa s c t"
  by (auto simp: char_edge_def nth_updState split: if_splits)

lemma char_edge_addChars:
  assumes "nfa_ok nfa" "b \<le> e" "q < length nfa"
  shows "char_edge (updState q (addChars b e r) nfa) s c t \<longleftrightarrow>
    char_edge nfa s c t \<or> (s = q \<and> t = r \<and> b \<le> c \<and> c \<le> e)"
proof (cases "s = q")
  case True
  have "rm_ok (n_chars (nfa ! q))" "valid_range (b, e)"
    using assms by (simp_all add: nfa_ok_def valid_range_def)
  then show ?thesis using True assms(3)
    by (auto simp: char_edge_def nth_updState mergeRange_lookup in_range_def split: option.splits)
next
  case False
  then show ?thesis by (auto simp: char_edge_def nth_updState)
qed

lemma edges_newState [simp]:
  "n_eps st = {} \<Longrightarrow> eps_edge (nfa @ [st]) s t \<longleftrightarrow> eps_edge nfa s t"
  "n_chars st = [] \<Longrightarrow> char_edge (nfa @ [st]) s c t \<longleftrightarrow> char_edge nfa s c t"
  by (auto simp: eps_edge_def char_edge_def nth_append less_Suc_eq)

lemma nfa_ok_upd:
  assumes "nfa_ok nfa"
  shows "t < length nfa \<Longrightarrow> nfa_ok (updState s (addEps t) nfa)"
    and "nfa_ok (updState s (beginMark x m) nfa)"
    and "nfa_ok (updState s (endMark x m) nfa)"
    and "n_eps st = {} \<Longrightarrow> n_chars st = [] \<Longrightarrow> nfa_ok (nfa @ [st])"
  using assms
  by (auto simp: nfa_ok_def eps_edge_upd char_edge_upd nth_updState nth_append less_Suc_eq
      split: if_splits)

lemma nfa_ok_addChars:
  assumes "nfa_ok nfa" "t < length nfa" "b \<le> e" "s < length nfa"
  shows "nfa_ok (updState s (addChars b e t) nfa)"
  using assms
  by (auto simp: nfa_ok_def eps_edge_upd char_edge_addChars [OF assms(1,3,4)] nth_updState
      mergeRange_ok valid_range_def)

lemma grows_upd:
  "grows nfa (updState s (addEps t) nfa)"
  "grows nfa (updState s (beginMark x m) nfa)"
  "grows nfa (updState s (endMark x m) nfa)"
  "n_eps st = {} \<Longrightarrow> n_chars st = [] \<Longrightarrow> n_acc st = None \<Longrightarrow> grows nfa (nfa @ [st])"
  by (auto simp: grows_def eps_edge_upd char_edge_upd nth_updState nth_append less_Suc_eq)

lemma grows_addChars:
  assumes "nfa_ok nfa" "b \<le> e" "s < length nfa"
  shows "grows nfa (updState s (addChars b e t) nfa)"
  using assms by (auto simp: grows_def eps_edge_upd char_edge_addChars nth_updState)

section \<open>The construction grows the automaton\<close>

lemma link_ok:
  "nfa_ok nfa \<Longrightarrow> self < length nfa \<Longrightarrow> succ < length nfa \<Longrightarrow> wf_regex r \<Longrightarrow>
     nfa_ok (link r self succ x nfa) \<and> grows nfa (link r self succ x nfa)"
proof (induction r arbitrary: self succ nfa)
  case (RCharRange b e)
  then show ?case by (simp add: nfa_ok_addChars grows_addChars)
next
  case (RStar v)
  then have IH: "nfa_ok (link v self self x nfa)" "grows nfa (link v self self x nfa)"
    using RStar.IH [OF RStar.prems(1,2,2)] by simp_all
  then have "succ < length (link v self self x nfa)" using RStar.prems grows_length by force
  then show ?case using IH by (auto intro: nfa_ok_upd grows_upd grows_trans)
next
  case (REither l r)
  let ?n0 = "nfa @ [newState]"
  have 0: "nfa_ok ?n0" "grows nfa ?n0" "length ?n0 = Suc (length nfa)"
    using REither.prems by (simp_all add: nfa_ok_upd grows_upd)
  let ?n1 = "link l (length nfa) succ x ?n0"
  have 1: "nfa_ok ?n1" "grows ?n0 ?n1" "Suc (length nfa) \<le> length ?n1"
    using REither.IH(1) [OF 0(1), of "length nfa" succ] REither.prems grows_length by force+
  let ?n2 = "link r (length ?n1) succ x (?n1 @ [newState])"
  have 2: "nfa_ok ?n2" "grows ?n1 ?n2" "Suc (length ?n1) \<le> length ?n2"
    using REither.IH(2) [of "?n1 @ [newState]" "length ?n1" succ] REither.prems 1
      grows_upd(4) [of newState ?n1] nfa_ok_upd(4) [OF 1(1), of newState]
    by (auto intro: grows_trans dest: grows_length)
  have "grows nfa ?n2" using 0 1 2 by (blast intro: grows_trans)
  then have "grows nfa (updState self (addEps (length ?n1)) (updState self (addEps (length nfa)) ?n2))"
    using grows_trans [OF _ grows_trans [OF grows_upd(1) grows_upd(1)]] by blast
  then show ?case using 1(3) 2 REither.prems by (simp add: Let_def nfa_ok_upd)
next
  case (RSeq l r)
  let ?n0 = "nfa @ [newState]"
  have 0: "nfa_ok ?n0" "grows nfa ?n0" "length ?n0 = Suc (length nfa)"
    using RSeq.prems by (simp_all add: nfa_ok_upd grows_upd)
  let ?n1 = "link r (length nfa) succ x ?n0"
  have 1: "nfa_ok ?n1" "grows ?n0 ?n1" "Suc (length nfa) \<le> length ?n1"
    using RSeq.IH(2) [OF 0(1), of "length nfa" succ] RSeq.prems grows_length by force+
  have 2: "nfa_ok (link l self (length nfa) x ?n1)" "grows ?n1 (link l self (length nfa) x ?n1)"
    using RSeq.IH(1) [OF 1(1), of self "length nfa"] RSeq.prems 1(3) by auto
  have "grows nfa (link l self (length nfa) x ?n1)" using 0(2) 1(2) 2(2) by (blast intro: grows_trans)
  then show ?case using 2(1) by (simp add: Let_def)
next
  case (RBind v d)
  let ?n0 = "updState self (beginMark x v) nfa"
  have 0: "nfa_ok ?n0" "grows nfa ?n0" using RBind.prems by (simp_all add: nfa_ok_upd grows_upd)
  then have 1: "nfa_ok (link d self succ x ?n0)" "grows ?n0 (link d self succ x ?n0)"
    using RBind.IH [OF 0(1), of self succ] RBind.prems by auto
  then show ?case using 0(2) by (auto intro: nfa_ok_upd grows_upd grows_trans)
qed (simp_all add: nfa_ok_upd grows_upd)

text \<open>The new state a \<open>regexBefore\<close> returns is the next free number.\<close>

lemma regexBefore_ok:
  assumes "nfa_ok nfa" "cont < length nfa" "wf_regex r"
  shows "nfa_ok (link r (length nfa) cont x (nfa @ [newState]))"
    and "grows (nfa @ [newState]) (link r (length nfa) cont x (nfa @ [newState]))"
    and "grows nfa (link r (length nfa) cont x (nfa @ [newState]))"
    and "length nfa < length (link r (length nfa) cont x (nfa @ [newState]))"
proof -
  show *: "nfa_ok (link r (length nfa) cont x (nfa @ [newState]))"
    "grows (nfa @ [newState]) (link r (length nfa) cont x (nfa @ [newState]))"
    using link_ok [OF nfa_ok_upd(4) [OF assms(1), of newState], of "length nfa" cont r x] assms by simp_all
  then show "grows nfa (link r (length nfa) cont x (nfa @ [newState]))"
    using grows_upd(4) [of newState nfa] by (simp add: grows_trans)
  show "length nfa < length (link r (length nfa) cont x (nfa @ [newState]))"
    using grows_length [OF *(2)] by simp
qed

section \<open>Every match is a run\<close>

lemma path_epsI: "eps_edge nfa s t \<Longrightarrow> path nfa t w u \<Longrightarrow> path nfa s w u"
  by (subst path_alt) blast

lemma link_complete:
  assumes "matches r w" "nfa_ok nfa" "self < length nfa" "succ < length nfa" "wf_regex r"
    and "grows (link r self succ x nfa) nfa'"
  shows "path nfa' self w succ"
  using assms
proof (induction arbitrary: self succ nfa nfa' rule: matches.induct)
  case m_eps
  then have "eps_edge nfa' self succ" by (auto simp: grows_def eps_edge_upd)
  then show ?case using path_epsI path_refl by blast
next
  case (m_char b c e)
  then have "char_edge nfa' self c succ" by (auto simp: grows_def char_edge_addChars)
  then show ?case by (subst path_alt) (blast intro: path_refl)
next
  case (m_star0 v)
  have "self < length (link v self self x nfa)"
    using link_ok [OF m_star0(1,2,2), of v x] m_star0 grows_length by force
  with m_star0 have "eps_edge nfa' self succ" by (auto simp: grows_def eps_edge_upd)
  then show ?case using path_epsI path_refl by blast
next
  case (m_star v u w)
  have "grows (link v self self x nfa) nfa'"
    using m_star.prems(5) grows_upd(1) [of "link v self self x nfa" self succ]
    by (auto intro: grows_trans)
  then have "path nfa' self u self" using m_star.IH(1) [OF m_star.prems(1,2,2)] m_star.prems(4) by simp
  then show ?case using m_star.IH(2) [OF m_star.prems] path_trans by blast
next
  case (m_left l w r)
  let ?n1 = "link l (length nfa) succ x (nfa @ [newState])"
  let ?n2 = "link r (length ?n1) succ x (?n1 @ [newState])"
  note n1 = regexBefore_ok [OF m_left.prems(1,3), of l x]
  note n2 = regexBefore_ok [of ?n1 succ r x]
  have ok: "nfa_ok ?n1" "length nfa < length ?n1" "grows ?n1 ?n2" "length ?n1 < length ?n2"
    using n1 n2 m_left.prems by simp_all
  have g: "grows (updState self (addEps (length ?n1)) (updState self (addEps (length nfa)) ?n2)) nfa'"
    using m_left.prems(5) by (simp add: Let_def)
  have "grows ?n2 nfa'" by (rule grows_trans [OF grows_trans [OF grows_upd(1) grows_upd(1)] g])
  moreover have "eps_edge nfa' self (length nfa)"
    using g ok m_left.prems by (auto simp: grows_def eps_edge_upd)
  moreover have "path nfa' (length nfa) w succ"
    using m_left.IH [of "nfa @ [newState]" "length nfa" succ nfa'] grows_trans [OF ok(3) \<open>grows ?n2 nfa'\<close>]
      m_left.prems ok by (simp add: nfa_ok_upd)
  ultimately show ?case by (blast intro: path_epsI)
next
  case (m_right r w l)
  let ?n1 = "link l (length nfa) succ x (nfa @ [newState])"
  let ?n2 = "link r (length ?n1) succ x (?n1 @ [newState])"
  note n1 = regexBefore_ok [OF m_right.prems(1,3), of l x]
  note n2 = regexBefore_ok [of ?n1 succ r x]
  have ok: "nfa_ok ?n1" "length nfa < length ?n1" "grows ?n1 ?n2" "length ?n1 < length ?n2"
    using n1 n2 m_right.prems by simp_all
  have g: "grows (updState self (addEps (length ?n1)) (updState self (addEps (length nfa)) ?n2)) nfa'"
    using m_right.prems(5) by (simp add: Let_def)
  have "grows ?n2 nfa'" by (rule grows_trans [OF grows_trans [OF grows_upd(1) grows_upd(1)] g])
  moreover have "eps_edge nfa' self (length ?n1)"
    using g ok m_right.prems by (auto simp: grows_def eps_edge_upd)
  moreover have "path nfa' (length ?n1) w succ"
    using m_right.IH [of "?n1 @ [newState]" "length ?n1" succ nfa'] \<open>grows ?n2 nfa'\<close>
      m_right.prems ok by (simp add: nfa_ok_upd)
  ultimately show ?case by (blast intro: path_epsI)
next
  case (m_seq l u r w)
  let ?n1 = "link r (length nfa) succ x (nfa @ [newState])"
  note n1 = regexBefore_ok [OF m_seq.prems(1,3), of r x]
  have g: "grows (link l self (length nfa) x ?n1) nfa'" using m_seq.prems(5) by (simp add: Let_def)
  have "nfa_ok ?n1" "length nfa < length ?n1" using n1 m_seq.prems by simp_all
  then have "path nfa' self u (length nfa)"
    using m_seq.IH(1) [OF _ _ _ _ g] m_seq.prems by simp
  moreover have "grows ?n1 (link l self (length nfa) x ?n1)"
    using link_ok [of ?n1 self "length nfa" l x] n1 m_seq.prems by simp
  then have "grows ?n1 nfa'" using g by (rule grows_trans)
  then have "path nfa' (length nfa) w succ"
    using m_seq.IH(2) [of "nfa @ [newState]" "length nfa" succ nfa'] m_seq.prems
    by (simp add: nfa_ok_upd)
  ultimately show ?case by (rule path_trans)
next
  case (m_bind d w v)
  let ?n0 = "updState self (beginMark x v) nfa"
  have "grows (link d self succ x ?n0) nfa'"
    using m_bind.prems(5) grows_upd(3) [of "link d self succ x ?n0" succ x v]
    by (auto intro: grows_trans)
  then show ?case using m_bind.IH [of ?n0 self succ nfa'] m_bind.prems by (simp add: nfa_ok_upd)
qed

section \<open>Labellings\<close>

text \<open>
  Facts about all runs are proved by labelling the states so that every edge is respected: \<open>E\<close>
  relates the labels at the ends of an \<open>eps\<close> edge, \<open>C c\<close> those of an edge for \<open>c\<close>. The locale
  says when the construction can extend such a labelling: \<open>A r a b\<close> has to allow an expression
  \<open>r\<close> between a state labelled \<open>a\<close> and its continuation labelled \<open>b\<close>, and to hand on what the
  parts of \<open>r\<close> need.
\<close>

definition label_ok ::
  "('a \<Rightarrow> 'a \<Rightarrow> bool) \<Rightarrow> (rchar \<Rightarrow> 'a \<Rightarrow> 'a \<Rightarrow> bool) \<Rightarrow> (nat \<Rightarrow> 'a) \<Rightarrow> nfa \<Rightarrow> bool" where
  "label_ok E C M nfa \<longleftrightarrow> (\<forall>s t. eps_edge nfa s t \<longrightarrow> E (M s) (M t)) \<and>
     (\<forall>s c t. char_edge nfa s c t \<longrightarrow> C c (M s) (M t))"

lemma label_ok_cong:
  assumes "nfa_ok nfa" "\<And>s. s < length nfa \<Longrightarrow> M' s = M s"
  shows "label_ok E C M' nfa \<longleftrightarrow> label_ok E C M nfa"
proof -
  have "eps_edge nfa s t \<Longrightarrow> M' s = M s \<and> M' t = M t" for s t
    using assms by (auto simp: nfa_ok_def eps_edge_def)
  moreover have "char_edge nfa s c t \<Longrightarrow> M' s = M s \<and> M' t = M t" for s c t
    using assms by (auto simp: nfa_ok_def char_edge_def)
  ultimately show ?thesis unfolding label_ok_def by metis
qed

lemma label_ok_upd:
  "label_ok E C M nfa \<Longrightarrow> E (M s) (M t) \<Longrightarrow> label_ok E C M (updState s (addEps t) nfa)"
  "label_ok E C M (updState s (beginMark x m) nfa) \<longleftrightarrow> label_ok E C M nfa"
  "label_ok E C M (updState s (endMark x m) nfa) \<longleftrightarrow> label_ok E C M nfa"
  "n_eps st = {} \<Longrightarrow> n_chars st = [] \<Longrightarrow> label_ok E C M (nfa @ [st]) \<longleftrightarrow> label_ok E C M nfa"
  by (auto simp: label_ok_def eps_edge_upd char_edge_upd)

lemma label_ok_addChars:
  assumes "nfa_ok nfa" "b \<le> e" "s < length nfa" "label_ok E C M nfa"
    and "\<And>c. b \<le> c \<Longrightarrow> c \<le> e \<Longrightarrow> C c (M s) (M t)"
  shows "label_ok E C M (updState s (addChars b e t) nfa)"
  using assms(4,5) unfolding label_ok_def eps_edge_upd char_edge_addChars [OF assms(1-3)] by blast

definition agree :: "nat \<Rightarrow> (nat \<Rightarrow> 'a) \<Rightarrow> (nat \<Rightarrow> 'a) \<Rightarrow> bool" where
  "agree n M M' \<longleftrightarrow> (\<forall>s < n. M' s = M s)"

definition extends_labels :: "('a \<Rightarrow> 'a \<Rightarrow> bool) \<Rightarrow> (rchar \<Rightarrow> 'a \<Rightarrow> 'a \<Rightarrow> bool) \<Rightarrow>
    (regex \<Rightarrow> 'a \<Rightarrow> 'a \<Rightarrow> bool) \<Rightarrow> nat \<Rightarrow> regex \<Rightarrow> bool" where
  "extends_labels E C A x r \<longleftrightarrow> (\<forall>nfa self succ M. nfa_ok nfa \<longrightarrow> self < length nfa \<longrightarrow>
     succ < length nfa \<longrightarrow> label_ok E C M nfa \<longrightarrow> A r (M self) (M succ) \<longrightarrow>
     (\<exists>M'. agree (length nfa) M M' \<and> label_ok E C M' (link r self succ x nfa)))"

lemma extends_labelsD:
  assumes "extends_labels E C A x r" "nfa_ok nfa" "self < length nfa" "succ < length nfa"
    "label_ok E C M nfa" "A r (M self) (M succ)"
  obtains M' where "agree (length nfa) M M'" "label_ok E C M' (link r self succ x nfa)"
  using assms unfolding extends_labels_def by blast

lemma extends_labelsI:
  assumes "\<And>nfa self succ M. nfa_ok nfa \<Longrightarrow> self < length nfa \<Longrightarrow> succ < length nfa \<Longrightarrow>
    label_ok E C M nfa \<Longrightarrow> A r (M self) (M succ) \<Longrightarrow>
    \<exists>M'. agree (length nfa) M M' \<and> label_ok E C M' (link r self succ x nfa)"
  shows "extends_labels E C A x r"
  using assms unfolding extends_labels_def by blast

lemma extends_labels_before:
  assumes "extends_labels E C A x r" "nfa_ok nfa" "cont < length nfa" "label_ok E C M nfa"
    and "A r a (M cont)"
  obtains M' where "agree (length nfa) M M'" "M' (length nfa) = a"
    "label_ok E C M' (link r (length nfa) cont x (nfa @ [newState]))"
proof -
  let ?M = "M(length nfa := a)"
  have "label_ok E C ?M (nfa @ [newState])"
    using assms(4) label_ok_cong [OF assms(2), of ?M M] by (simp add: label_ok_upd)
  moreover have "nfa_ok (nfa @ [newState])" using assms(2) by (simp add: nfa_ok_upd)
  moreover have "A r (?M (length nfa)) (?M cont)" using assms(3,5) by simp
  ultimately obtain M' where "agree (length (nfa @ [newState])) ?M M'"
    "label_ok E C M' (link r (length nfa) cont x (nfa @ [newState]))"
    using extends_labelsD [OF assms(1), of "nfa @ [newState]" "length nfa" cont ?M] assms(3) by auto
  then show thesis using that [of M'] by (auto simp: agree_def)
qed

locale labelling =
  fixes E :: "'a \<Rightarrow> 'a \<Rightarrow> bool" and C :: "rchar \<Rightarrow> 'a \<Rightarrow> 'a \<Rightarrow> bool"
    and A :: "regex \<Rightarrow> 'a \<Rightarrow> 'a \<Rightarrow> bool"
  assumes A_eps: "A REps a b \<Longrightarrow> E a b"
    and A_char: "A (RCharRange lo hi) a b \<Longrightarrow> lo \<le> c \<Longrightarrow> c \<le> hi \<Longrightarrow> C c a b"
    and A_star: "A (RStar v) a b \<Longrightarrow> A v a a \<and> E a b"
    and A_either: "A (REither l r) a b \<Longrightarrow> \<exists>a1 a2. A l a1 b \<and> A r a2 b \<and> E a a1 \<and> E a a2"
    and A_seq: "A (RSeq l r) a b \<Longrightarrow> \<exists>m. A r m b \<and> A l a m"
    and A_bind: "A (RBind x d) a b \<Longrightarrow> A d a b"
begin

lemma link_extends: "wf_regex r \<Longrightarrow> extends_labels E C A x r"
proof (induction r)
  case REps
  show ?case
    by (rule extends_labelsI) (auto simp: agree_def intro: label_ok_upd(1) A_eps)
next
  case (RCharRange b e)
  show ?case
  proof (rule extends_labelsI)
    fix nfa self succ and M :: "nat \<Rightarrow> 'a"
    assume "nfa_ok nfa" "self < length nfa" "label_ok E C M nfa" "A (RCharRange b e) (M self) (M succ)"
    then have "label_ok E C M (link (RCharRange b e) self succ x nfa)"
      using RCharRange.prems by (auto intro: label_ok_addChars A_char)
    then show "\<exists>M'. agree (length nfa) M M' \<and> label_ok E C M' (link (RCharRange b e) self succ x nfa)"
      by (auto simp: agree_def)
  qed
next
  case (RStar v)
  show ?case
  proof (rule extends_labelsI)
    fix nfa self succ and M :: "nat \<Rightarrow> 'a"
    assume *: "nfa_ok nfa" "self < length nfa" "succ < length nfa" "label_ok E C M nfa"
      and A: "A (RStar v) (M self) (M succ)"
    then obtain M' where M': "agree (length nfa) M M'" "label_ok E C M' (link v self self x nfa)"
      using extends_labelsD [OF RStar.IH, of nfa self self M] RStar.prems A_star by auto
    moreover have "E (M' self) (M' succ)" using M'(1) * A_star [OF A] by (simp add: agree_def)
    ultimately show "\<exists>M'. agree (length nfa) M M' \<and> label_ok E C M' (link (RStar v) self succ x nfa)"
      by (auto intro: label_ok_upd)
  qed
next
  case (REither l r)
  show ?case
  proof (rule extends_labelsI)
    fix nfa self succ and M :: "nat \<Rightarrow> 'a"
    assume *: "nfa_ok nfa" "self < length nfa" "succ < length nfa" "label_ok E C M nfa"
      and "A (REither l r) (M self) (M succ)"
    then obtain a1 a2 where a: "A l a1 (M succ)" "A r a2 (M succ)" "E (M self) a1" "E (M self) a2"
      using A_either by blast
    let ?n1 = "link l (length nfa) succ x (nfa @ [newState])"
    let ?n2 = "link r (length ?n1) succ x (?n1 @ [newState])"
    note n1 = regexBefore_ok [OF *(1,3), of l x]
    obtain M1 where M1: "agree (length nfa) M M1" "M1 (length nfa) = a1" "label_ok E C M1 ?n1"
      using extends_labels_before [OF REither.IH(1) *(1,3,4) a(1)] REither.prems by auto
    have "A r a2 (M1 succ)" using a(2) M1(1) * by (simp add: agree_def)
    then obtain M2 where M2: "agree (length ?n1) M1 M2" "M2 (length ?n1) = a2" "label_ok E C M2 ?n2"
      using extends_labels_before [OF REither.IH(2), of ?n1 succ M1] REither.prems M1(3) n1 * by auto
    have "agree (length nfa) M M2" "M2 (length nfa) = a1" "M2 self = M self"
      using M1 M2(1) n1(4) * REither.prems by (auto simp: agree_def)
    then show "\<exists>M'. agree (length nfa) M M' \<and> label_ok E C M' (link (REither l r) self succ x nfa)"
      using M2(2,3) a(3,4) by (auto simp: Let_def intro!: label_ok_upd(1))
  qed
next
  case (RSeq l r)
  show ?case
  proof (rule extends_labelsI)
    fix nfa self succ and M :: "nat \<Rightarrow> 'a"
    assume *: "nfa_ok nfa" "self < length nfa" "succ < length nfa" "label_ok E C M nfa"
      and "A (RSeq l r) (M self) (M succ)"
    then obtain m where m: "A r m (M succ)" "A l (M self) m" using A_seq by blast
    let ?n1 = "link r (length nfa) succ x (nfa @ [newState])"
    note n1 = regexBefore_ok [OF *(1,3), of r x]
    obtain M1 where M1: "agree (length nfa) M M1" "M1 (length nfa) = m" "label_ok E C M1 ?n1"
      using extends_labels_before [OF RSeq.IH(2) *(1,3,4) m(1)] RSeq.prems by auto
    have "A l (M1 self) (M1 (length nfa))" using M1(1,2) m(2) * by (simp add: agree_def)
    then obtain M2 where M2: "agree (length ?n1) M1 M2" "label_ok E C M2 (link l self (length nfa) x ?n1)"
      using extends_labelsD [OF RSeq.IH(1), of ?n1 self "length nfa" M1] M1(3) n1 RSeq.prems * by auto
    have "agree (length nfa) M M2" using M1(1) M2(1) n1(4) * RSeq.prems by (auto simp: agree_def)
    then show "\<exists>M'. agree (length nfa) M M' \<and> label_ok E C M' (link (RSeq l r) self succ x nfa)"
      using M2(2) by (auto simp: Let_def)
  qed
next
  case (RBind v d)
  then have IH: "extends_labels E C A x d" by simp
  show ?case
  proof (rule extends_labelsI)
    fix nfa self succ and M :: "nat \<Rightarrow> 'a"
    assume *: "nfa_ok nfa" "self < length nfa" "succ < length nfa" "label_ok E C M nfa"
      and "A (RBind v d) (M self) (M succ)"
    then obtain M' where "agree (length nfa) M M'"
      "label_ok E C M' (link d self succ x (updState self (beginMark x v) nfa))"
      using extends_labelsD [OF IH, of "updState self (beginMark x v) nfa" self succ M] A_bind
      by (auto simp: nfa_ok_upd label_ok_upd)
    then show "\<exists>M'. agree (length nfa) M M' \<and> label_ok E C M' (link (RBind v d) self succ x nfa)"
      by (auto simp: label_ok_upd)
  qed
qed

text \<open>One round of the joining loop: state \<open>length nfa\<close> accepts, the next one starts.\<close>

lemma joined_extends:
  assumes "wf_regex r" "nfa_ok nfa" "label_ok E C M nfa" "A r a b" "E (M 0) a" "nfa \<noteq> []"
  obtains M' where "agree (length nfa) M M'" "M' (length nfa) = b"
    "label_ok E C M' (updState 0 (addEps (Suc (length nfa)))
      (link r (Suc (length nfa)) (length nfa) x (nfa @ [newState\<lparr>n_acc := Some y\<rparr>, newState])))"
proof -
  let ?n0 = "nfa @ [newState\<lparr>n_acc := Some y\<rparr>]" let ?M0 = "M(length nfa := b)"
  have ok: "nfa_ok ?n0" using assms(2) by (simp add: nfa_ok_upd)
  have "label_ok E C ?M0 ?n0"
    using assms(3) label_ok_cong [OF assms(2), of ?M0 M] by (simp add: label_ok_upd)
  then obtain M' where M': "agree (Suc (length nfa)) ?M0 M'" "M' (Suc (length nfa)) = a"
    "label_ok E C M' (link r (Suc (length nfa)) (length nfa) x (nfa @ [newState\<lparr>n_acc := Some y\<rparr>, newState]))"
    using extends_labels_before [OF link_extends [OF assms(1)] ok, of "length nfa" ?M0 a] assms(4) by auto
  have "M' 0 = M 0" using M'(1) assms(6) by (auto simp: agree_def)
  then have "E (M' 0) (M' (Suc (length nfa)))" using M'(2) assms(5) by simp
  from label_ok_upd(1) [OF M'(3) this] show thesis
    using that [of M'] M'(1) by (auto simp: agree_def)
qed

end

section \<open>Every run is a match\<close>

text \<open>
  Labels are languages, the words read from a state on: the construction gives each new state
  the words its expression matches followed by the label of its continuation.
\<close>

definition conc :: "rchar list set \<Rightarrow> rchar list set \<Rightarrow> rchar list set" where
  "conc A B = {u @ v | u v. u \<in> A \<and> v \<in> B}"

definition lang :: "regex \<Rightarrow> rchar list set" where
  "lang r = {w. matches r w}"

lemma conc_simps [simp]:
  "conc {[]} A = A" "conc A {[]} = A" "conc {} A = {}" "conc A {} = {}"
  by (auto simp: conc_def)

lemma conc_assoc: "conc (conc A B) C = conc A (conc B C)"
  unfolding conc_def by auto (metis append_assoc)+

lemma conc_Nil: "[] \<in> A \<Longrightarrow> B \<subseteq> conc A B"
  unfolding conc_def by (auto intro: exI [of _ "[]"])

lemma conc_mono: "A \<subseteq> A' \<Longrightarrow> B \<subseteq> B' \<Longrightarrow> conc A B \<subseteq> conc A' B'"
  by (auto simp: conc_def)

lemma conc_Un: "conc (A \<union> B) C = conc A C \<union> conc B C"
  by (auto simp: conc_def)

lemma conc_char: "b \<le> c \<Longrightarrow> c \<le> e \<Longrightarrow> Cons c ` B \<subseteq> conc {[c] | c. b \<le> c \<and> c \<le> e} B"
  by (force simp: conc_def image_def intro: exI [of _ "[c]"])

lemma lang_simps [simp]:
  "lang REps = {[]}" "lang (RCharRange b e) = {[c] | c. b \<le> c \<and> c \<le> e}"
  "lang (REither l r) = lang l \<union> lang r" "lang (RSeq l r) = conc (lang l) (lang r)"
  "lang (RBind v d) = lang d"
  by (auto simp: lang_def conc_def)

lemma lang_star:
  "[] \<in> lang (RStar v)" "conc (lang v) (lang (RStar v)) \<subseteq> lang (RStar v)"
  by (auto simp: lang_def conc_def intro: matches.intros)

abbreviation lang_eps :: "rchar list set \<Rightarrow> rchar list set \<Rightarrow> bool" where
  "lang_eps a b \<equiv> b \<subseteq> a"

abbreviation lang_char :: "rchar \<Rightarrow> rchar list set \<Rightarrow> rchar list set \<Rightarrow> bool" where
  "lang_char c a b \<equiv> Cons c ` b \<subseteq> a"

text \<open>
  Inside a star the state loops on itself, so the label of the state contains, rather than
  equals, what the body prefixes to it: a star at the start of the body would not keep that.
\<close>

definition lang_admits :: "regex \<Rightarrow> rchar list set \<Rightarrow> rchar list set \<Rightarrow> bool" where
  "lang_admits r a b \<longleftrightarrow>
     guarded r \<and> (a = conc (lang r) b \<or> (\<not> selfstar r \<and> conc (lang r) b \<subseteq> a))"

lemma lang_admits_exact: "guarded r \<Longrightarrow> lang_admits r (conc (lang r) b) b"
  by (simp add: lang_admits_def)

interpretation ll: labelling lang_eps lang_char lang_admits
proof unfold_locales
  fix lo hi c and a b :: "rchar list set"
  assume *: "lang_admits (RCharRange lo hi) a b" "lo \<le> c" "c \<le> hi"
  then have "conc (lang (RCharRange lo hi)) b \<subseteq> a" by (auto simp: lang_admits_def)
  with conc_char [OF *(2,3)] show "Cons c ` b \<subseteq> a" unfolding lang_simps by (rule order_trans)
next
  fix v and a b :: "rchar list set"
  assume *: "lang_admits (RStar v) a b"
  then have a: "a = conc (lang (RStar v)) b" by (simp add: lang_admits_def)
  have "conc (lang v) a \<subseteq> a"
    unfolding a conc_assoc [symmetric] by (rule conc_mono [OF lang_star(2) subset_refl])
  moreover have "b \<subseteq> a" unfolding a by (rule conc_Nil [OF lang_star(1)])
  ultimately show "lang_admits v a a \<and> b \<subseteq> a" using * by (simp add: lang_admits_def)
next
  fix l r and a b :: "rchar list set"
  assume "lang_admits (REither l r) a b"
  then show "\<exists>a1 a2. lang_admits l a1 b \<and> lang_admits r a2 b \<and> a1 \<subseteq> a \<and> a2 \<subseteq> a"
    by (intro exI [of _ "conc (lang l) b"] exI [of _ "conc (lang r) b"])
      (auto simp: lang_admits_def conc_Un)
next
  fix l r and a b :: "rchar list set"
  assume "lang_admits (RSeq l r) a b"
  then show "\<exists>m. lang_admits r m b \<and> lang_admits l a m"
    by (intro exI [of _ "conc (lang r) b"]) (auto simp: lang_admits_def conc_assoc)
qed (auto simp: lang_admits_def)

lemma label_ok_path:
  "path nfa s w t \<Longrightarrow> label_ok lang_eps lang_char M nfa \<Longrightarrow> v \<in> M t \<Longrightarrow> w @ v \<in> M s"
proof (induction rule: path.induct)
  case (path_eps s t w u)
  then have "eps_edge nfa s t" by (simp add: eps_edge_def)
  with path_eps show ?case by (auto simp: label_ok_def)
next
  case (path_char s c ts t w u)
  have "char_edge nfa s c t" "w @ v \<in> M t" using path_char by (auto simp: char_edge_def)
  moreover from this have "Cons c ` M t \<subseteq> M s"
    using path_char.prems unfolding label_ok_def by blast
  ultimately show ?case by auto
qed simp

section \<open>Joining several expressions\<close>

definition extends :: "nfa \<Rightarrow> nfa \<Rightarrow> bool" where
  "extends nfa nfa' \<longleftrightarrow> length nfa \<le> length nfa' \<and>
     (\<forall>s t. eps_edge nfa s t \<longrightarrow> eps_edge nfa' s t) \<and>
     (\<forall>s c t. char_edge nfa s c t \<longrightarrow> char_edge nfa' s c t) \<and>
     (\<forall>s < length nfa. n_acc (nfa' ! s) = n_acc (nfa ! s))"

lemma extends_trans: "extends a b \<Longrightarrow> extends b c \<Longrightarrow> extends a c"
  unfolding extends_def by (metis le_trans order_less_le_trans)

lemma grows_extends: "grows a b \<Longrightarrow> extends a b"
  by (simp add: grows_def extends_def)

lemma extends_append: "n_eps st = {} \<Longrightarrow> n_chars st = [] \<Longrightarrow> extends nfa (nfa @ [st])"
  by (auto simp: extends_def nth_append)

lemma path_extends: "path nfa s w t \<Longrightarrow> extends nfa nfa' \<Longrightarrow> path nfa' s w t"
proof (induction rule: path.induct)
  case (path_eps s t w u)
  then have "eps_edge nfa' s t" by (simp add: extends_def eps_edge_def)
  with path_eps show ?case by (blast intro: path_epsI)
next
  case (path_char s c ts t w u)
  then have "char_edge nfa' s c t" by (force simp: extends_def char_edge_def)
  with path_char show ?case by (subst path_alt) blast
qed (rule path_refl)

text \<open>One round of the joining loop: state \<open>length nfa\<close> accepts, the next one starts.\<close>

definition joined :: "regex \<Rightarrow> nat \<Rightarrow> nfa \<Rightarrow> nfa" where
  "joined r i nfa = updState 0 (addEps (Suc (length nfa)))
     (link r (Suc (length nfa)) (length nfa) i (nfa @ [newState\<lparr>n_acc := Some i\<rparr>, newState]))"

lemma accumRegexes_Cons: "accumRegexes i (r # rs) nfa = accumRegexes (Suc i) rs (joined r i nfa)"
  by (simp add: accumRegex_def joined_def Let_def)

lemma joined_ok:
  assumes "nfa_ok nfa" "nfa \<noteq> []" "wf_regex r"
  shows "nfa_ok (joined r i nfa)" "extends nfa (joined r i nfa)"
    and "eps_edge (joined r i nfa) 0 (Suc (length nfa))"
    and "grows (link r (Suc (length nfa)) (length nfa) i (nfa @ [newState\<lparr>n_acc := Some i\<rparr>, newState]))
      (joined r i nfa)"
    and "length nfa < length (joined r i nfa)" "joined r i nfa \<noteq> []"
    and "n_acc (joined r i nfa ! length nfa) = Some i"
    and "\<And>t. t < length (joined r i nfa) \<Longrightarrow> n_acc (joined r i nfa ! t) \<noteq> None \<Longrightarrow> t \<le> length nfa"
proof -
  let ?n0 = "nfa @ [newState\<lparr>n_acc := Some i\<rparr>]"
  let ?n1 = "link r (length ?n0) (length nfa) i (?n0 @ [newState])"
  have 0: "nfa_ok ?n0" "extends nfa ?n0" using assms(1) by (simp_all add: nfa_ok_upd extends_append)
  note n1 = regexBefore_ok [OF 0(1), of "length nfa" r i]
  have J: "joined r i nfa = updState 0 (addEps (Suc (length nfa))) ?n1" by (simp add: joined_def)
  have G: "grows ?n1 (joined r i nfa)" unfolding J by (rule grows_upd(1))
  then show "grows (link r (Suc (length nfa)) (length nfa) i (nfa @ [newState\<lparr>n_acc := Some i\<rparr>, newState]))
      (joined r i nfa)" by simp
  have L: "Suc (length nfa) < length ?n1" using n1(4) assms(3) by simp
  show "nfa_ok (joined r i nfa)" unfolding J using n1(1) L assms by (intro nfa_ok_upd) simp_all
  have g: "grows ?n0 (joined r i nfa)" using n1(3) G assms(3) by (intro grows_trans [OF _ G]) simp
  show "extends nfa (joined r i nfa)" using 0(2) grows_extends [OF g] by (rule extends_trans)
  show "eps_edge (joined r i nfa) 0 (Suc (length nfa))"
    unfolding J using L by (auto simp: eps_edge_upd)
  show "length nfa < length (joined r i nfa)" using grows_length [OF g] by simp
  then show "joined r i nfa \<noteq> []" by auto
  show "n_acc (joined r i nfa ! length nfa) = Some i" using g by (simp add: grows_def)
  fix t assume t: "t < length (joined r i nfa)" "n_acc (joined r i nfa ! t) \<noteq> None"
  show "t \<le> length nfa"
  proof (rule ccontr)
    assume "\<not> t \<le> length nfa"
    then show False using g t by (auto simp: grows_def)
  qed
qed

lemma accumRegexes_ok:
  "nfa_ok nfa \<Longrightarrow> nfa \<noteq> [] \<Longrightarrow> \<forall>r \<in> set rs. wf_regex r \<Longrightarrow>
    nfa_ok (accumRegexes i rs nfa) \<and> extends nfa (accumRegexes i rs nfa)"
proof (induction rs arbitrary: i nfa)
  case Nil
  then show ?case by (simp add: extends_def)
next
  case (Cons r rs)
  note j = joined_ok [OF Cons.prems(1,2), of r i]
  have "nfa_ok (accumRegexes (Suc i) rs (joined r i nfa)) \<and>
      extends (joined r i nfa) (accumRegexes (Suc i) rs (joined r i nfa))"
    using Cons.prems j(1,6) by (intro Cons.IH) simp_all
  then show ?case using j(2) Cons.prems(3) by (auto simp: accumRegexes_Cons simp del: accumRegexes.simps intro: extends_trans)
qed

lemma accumRegexes_complete:
  "nfa_ok nfa \<Longrightarrow> nfa \<noteq> [] \<Longrightarrow> \<forall>r \<in> set rs. wf_regex r \<Longrightarrow> j < length rs \<Longrightarrow>
     matches (rs ! j) w \<Longrightarrow> nfa_accepts (accumRegexes i rs nfa) 0 w (i + j)"
proof (induction rs arbitrary: i j nfa)
  case (Cons r rs)
  note jn = joined_ok [OF Cons.prems(1,2), of r i]
  have ok: "nfa_ok (joined r i nfa)" "joined r i nfa \<noteq> []" using jn(1,6) Cons.prems by simp_all
  show ?case
  proof (cases j)
    case 0
    let ?n = "accumRegexes (Suc i) rs (joined r i nfa)"
    have E: "extends (joined r i nfa) ?n" using accumRegexes_ok [OF ok, of rs "Suc i"] Cons.prems(3) by simp
    have "path (joined r i nfa) (Suc (length nfa)) w (length nfa)"
      using 0 Cons.prems jn(4) nfa_ok_upd(4) [OF nfa_ok_upd(4) [OF Cons.prems(1)]]
        link_complete [of r w "nfa @ [newState\<lparr>n_acc := Some i\<rparr>, newState]" "Suc (length nfa)" "length nfa" i]
      by (simp add: nfa_ok_upd)
    then have "path (joined r i nfa) 0 w (length nfa)"
      using jn(3) Cons.prems(3) by (auto intro: path_epsI)
    then have "path ?n 0 w (length nfa)" using E by (rule path_extends)
    moreover have "n_acc (?n ! length nfa) = Some i" "length nfa < length ?n"
      using E jn(5,7) Cons.prems(3) by (auto simp: extends_def)
    ultimately show ?thesis using 0 unfolding accumRegexes_Cons nfa_accepts_def by auto
  next
    case (Suc k)
    then show ?thesis using Cons.IH [OF ok, of k "Suc i"] Cons.prems(3-5)
      by (simp add: accumRegexes_Cons del: accumRegexes.simps)
  qed
qed simp

definition acc_labels :: "nat \<Rightarrow> (nat \<Rightarrow> rchar list set) \<Rightarrow> nfa \<Rightarrow> bool" where
  "acc_labels x M nfa \<longleftrightarrow> (\<forall>t < length nfa. n_acc (nfa ! t) = Some x \<longrightarrow> [] \<in> M t)"

lemma acc_labels_joined:
  assumes "nfa_ok nfa" "nfa \<noteq> []" "wf_regex r" "acc_labels x M nfa" "agree (length nfa) M M'"
    and "i = x \<Longrightarrow> [] \<in> M' (length nfa)"
  shows "acc_labels x M' (joined r i nfa)"
  unfolding acc_labels_def
proof (intro allI impI)
  fix t assume t: "t < length (joined r i nfa)" "n_acc (joined r i nfa ! t) = Some x"
  note jn = joined_ok [OF assms(1-3), where i = i]
  have "t \<le> length nfa" using jn(8) [OF t(1)] t(2) by simp
  then show "[] \<in> M' t"
    using t jn(2,7) assms(4-6) by (cases "t = length nfa") (auto simp: agree_def acc_labels_def extends_def)
qed

lemma accumRegexes_sound:
  "nfa_ok nfa \<Longrightarrow> nfa \<noteq> [] \<Longrightarrow> \<forall>r \<in> set rs. wf_regex r \<and> guarded r \<Longrightarrow>
    label_ok lang_eps lang_char M nfa \<Longrightarrow>
    acc_labels x M nfa \<Longrightarrow> \<forall>j < length rs. i + j = x \<longrightarrow> lang (rs ! j) \<subseteq> M 0 \<Longrightarrow>
    \<exists>M'. M' 0 = M 0 \<and> label_ok lang_eps lang_char M' (accumRegexes i rs nfa) \<and>
      acc_labels x M' (accumRegexes i rs nfa)"
proof (induction rs arbitrary: i nfa M)
  case (Cons r rs)
  let ?b = "if i = x then {[]} else {} :: rchar list set"
  have r: "wf_regex r" "guarded r" using Cons.prems(3) by simp_all
  have "conc (lang r) ?b \<subseteq> M 0" using spec [OF Cons.prems(6), of 0] by auto
  then obtain M1 where M1: "agree (length nfa) M M1" "M1 (length nfa) = ?b"
    "label_ok lang_eps lang_char M1 (joined r i nfa)"
    using ll.joined_extends [OF r(1) Cons.prems(1,4) lang_admits_exact [OF r(2)] _ Cons.prems(2), of ?b i i]
    unfolding joined_def by blast
  have "acc_labels x M1 (joined r i nfa)"
    using Cons.prems r M1 by (intro acc_labels_joined) auto
  moreover have "M1 0 = M 0" using M1(1) Cons.prems(2) by (simp add: agree_def)
  moreover have "\<forall>j < length rs. Suc i + j = x \<longrightarrow> lang (rs ! j) \<subseteq> M1 0"
    using Cons.prems(6) \<open>M1 0 = M 0\<close> by fastforce
  ultimately show ?case
    using Cons.IH [of "joined r i nfa" M1 "Suc i"] M1 Cons.prems(3) joined_ok(1,6) [OF Cons.prems(1,2), of r i]
    by (simp add: accumRegexes_Cons del: accumRegexes.simps)
qed auto

lemma start_ok: "nfa_ok [newState]" "acc_labels x M [newState]"
  by (auto simp: nfa_ok_def acc_labels_def eps_edge_def char_edge_def)

lemma start_label: "label_ok E C M [newState]"
  by (auto simp: label_ok_def eps_edge_def char_edge_def)

lemma makeNFA_ok:
  "\<forall>r \<in> set rs. wf_regex r \<Longrightarrow> nfa_ok (makeNFA rs) \<and> makeNFA rs \<noteq> []"
  using accumRegexes_ok [OF start_ok(1), of rs 0] by (auto simp: makeNFA_def extends_def simp del: accumRegexes.simps)

lemma makeNFA_accepts:
  assumes "\<forall>r \<in> set rs. wf_regex r \<and> guarded r"
  shows "nfa_accepts (makeNFA rs) 0 w x \<longleftrightarrow> x < length rs \<and> matches (rs ! x) w"
proof
  assume acc: "nfa_accepts (makeNFA rs) 0 w x"
  let ?M = "\<lambda>s :: nat. if x < length rs then lang (rs ! x) else {}"
  obtain M where M: "M 0 = ?M 0" "label_ok lang_eps lang_char M (makeNFA rs)" "acc_labels x M (makeNFA rs)"
    using accumRegexes_sound [OF start_ok(1) _ assms start_label start_ok(2), where M = ?M and x = x and i = 0]
    by (auto simp: makeNFA_def simp del: accumRegexes.simps)
  then have "w @ [] \<in> M 0"
    using acc label_ok_path unfolding nfa_accepts_def acc_labels_def by blast
  then show "x < length rs \<and> matches (rs ! x) w" using M(1) by (auto simp: lang_def split: if_splits)
next
  assume "x < length rs \<and> matches (rs ! x) w"
  then show "nfa_accepts (makeNFA rs) 0 w x"
    using accumRegexes_complete [OF start_ok(1), of rs x w 0] assms by (simp add: makeNFA_def)
qed

section \<open>Epsilon edges make no cycles\<close>

text \<open>
  \<open>productive\<close>: no star has a body that matches the empty string. Then the states can be ranked
  by rational numbers so that every \<open>eps\<close> edge goes down.
\<close>

fun nullable :: "regex \<Rightarrow> bool" where
  "nullable REps = True"
| "nullable (RCharRange b e) = False"
| "nullable (RStar v) = True"
| "nullable (REither l r) = (nullable l \<or> nullable r)"
| "nullable (RSeq l r) = (nullable l \<and> nullable r)"
| "nullable (RBind x d) = nullable d"

fun productive :: "regex \<Rightarrow> bool" where
  "productive (RStar v) = (\<not> nullable v \<and> productive v)"
| "productive (REither l r) = (productive l \<and> productive r)"
| "productive (RSeq l r) = (productive l \<and> productive r)"
| "productive (RBind x d) = productive d"
| "productive _ = True"

lemma nullable_matches: "nullable r \<longleftrightarrow> matches r []"
  by (induction r) (auto intro: m_star0)

definition rank_admits :: "regex \<Rightarrow> rat \<Rightarrow> rat \<Rightarrow> bool" where
  "rank_admits r a b \<longleftrightarrow> productive r \<and> (nullable r \<longrightarrow> b < a)"

abbreviation rank_eps :: "rat \<Rightarrow> rat \<Rightarrow> bool" where
  "rank_eps a b \<equiv> b < a"

abbreviation rank_char :: "rchar \<Rightarrow> rat \<Rightarrow> rat \<Rightarrow> bool" where
  "rank_char c a b \<equiv> True"

lemma rank_part: "\<exists>m. m < a \<and> (P \<longrightarrow> b < m)" if "P \<Longrightarrow> b < a" for a b :: rat
  using that dense [of b a] lt_ex [of a] by blast

interpretation rl: labelling rank_eps rank_char rank_admits
proof unfold_locales
  fix l r and a b :: rat
  assume *: "rank_admits (REither l r) a b"
  obtain a1 a2 where "a1 < a" "nullable l \<longrightarrow> b < a1" "a2 < a" "nullable r \<longrightarrow> b < a2"
    using rank_part [of "nullable l" b a] rank_part [of "nullable r" b a] *
    by (auto simp: rank_admits_def)
  with * show "\<exists>a1 a2. rank_admits l a1 b \<and> rank_admits r a2 b \<and> a1 < a \<and> a2 < a"
    by (auto simp: rank_admits_def)
next
  fix l r and a b :: rat
  assume *: "rank_admits (RSeq l r) a b"
  show "\<exists>m. rank_admits r m b \<and> rank_admits l a m"
  proof (cases "nullable l")
    case True
    then show ?thesis using rank_part [of "nullable r" b a] * by (auto simp: rank_admits_def)
  next
    case False
    then show ?thesis using gt_ex [of b] * by (auto simp: rank_admits_def)
  qed
qed (auto simp: rank_admits_def)

lemma accumRegexes_rank:
  "nfa_ok nfa \<Longrightarrow> nfa \<noteq> [] \<Longrightarrow> \<forall>r \<in> set rs. wf_regex r \<and> productive r \<Longrightarrow>
    label_ok rank_eps rank_char M nfa \<Longrightarrow>
    \<exists>M'. label_ok rank_eps rank_char M' (accumRegexes i rs nfa)"
proof (induction rs arbitrary: i nfa M)
  case (Cons r rs)
  have r: "wf_regex r" "rank_admits r (M 0 - 1) (M 0 - 2)"
    using Cons.prems(3) by (simp_all add: rank_admits_def)
  obtain M1 where "label_ok rank_eps rank_char M1 (joined r i nfa)"
    using rl.joined_extends [OF r(1) Cons.prems(1,4) r(2) _ Cons.prems(2), of i i]
    unfolding joined_def by auto
  then show ?case
    using Cons.IH [of "joined r i nfa" M1 "Suc i"] Cons.prems(3) joined_ok(1,6) [OF Cons.prems(1,2) r(1), of i]
    by (simp add: accumRegexes_Cons del: accumRegexes.simps)
qed auto

lemma makeNFA_rank:
  assumes "\<forall>r \<in> set rs. wf_regex r \<and> productive r"
  obtains M :: "nat \<Rightarrow> rat" where "\<And>s t. eps_edge (makeNFA rs) s t \<Longrightarrow> M t < M s"
proof -
  obtain M where "label_ok rank_eps rank_char M (makeNFA rs)"
    using accumRegexes_rank [OF start_ok(1) _ assms start_label, where i = 0] by (auto simp: makeNFA_def)
  then show thesis using that by (auto simp: label_ok_def)
qed

section \<open>Each state reads one range\<close>

fun rranges :: "regex \<Rightarrow> range set" where
  "rranges REps = {}"
| "rranges (RCharRange b e) = {(b, e)}"
| "rranges (RStar v) = rranges v"
| "rranges (REither l r) = rranges l \<union> rranges r"
| "rranges (RSeq l r) = rranges l \<union> rranges r"
| "rranges (RBind x d) = rranges d"

lemma rranges_valid: "wf_regex r \<Longrightarrow> \<forall>f \<in> rranges r. valid_range f"
  by (induction r) (auto simp: valid_range_def)

definition one_range :: "range set \<Rightarrow> nfa \<Rightarrow> bool" where
  "one_range R nfa \<longleftrightarrow> (\<forall>s < length nfa. n_chars (nfa ! s) = [] \<or>
     (\<exists>r ts. r \<in> R \<and> n_chars (nfa ! s) = [(r, ts)]))"

lemma one_range_upd:
  "one_range R (updState s (addEps t) nfa) \<longleftrightarrow> one_range R nfa"
  "one_range R (updState s (beginMark x m) nfa) \<longleftrightarrow> one_range R nfa"
  "one_range R (updState s (endMark x m) nfa) \<longleftrightarrow> one_range R nfa"
  "n_chars st = [] \<Longrightarrow> one_range R (nfa @ [st]) \<longleftrightarrow> one_range R nfa"
  by (auto simp: one_range_def nth_updState nth_append less_Suc_eq split: if_splits)

lemma link_one_range:
  "self < length nfa \<Longrightarrow> one_range R nfa \<Longrightarrow> n_chars (nfa ! self) = [] \<Longrightarrow> rranges r \<subseteq> R \<Longrightarrow>
    one_range R (link r self succ x nfa) \<and> length nfa \<le> length (link r self succ x nfa) \<and>
    (\<forall>s < length nfa. s \<noteq> self \<longrightarrow> n_chars (link r self succ x nfa ! s) = n_chars (nfa ! s))"
proof (induction r arbitrary: self succ nfa)
  case (RCharRange b e)
  then show ?case by (auto simp: one_range_def nth_updState)
next
  case (RStar v)
  then have IH: "one_range R (link v self self x nfa)" "length nfa \<le> length (link v self self x nfa)"
    "\<forall>s < length nfa. s \<noteq> self \<longrightarrow> n_chars (link v self self x nfa ! s) = n_chars (nfa ! s)"
    using RStar.IH [of self nfa self] by simp_all
  then show ?case by (auto simp: one_range_upd nth_updState)
next
  case (REither l r)
  let ?n0 = "nfa @ [newState]"
  let ?n1 = "link l (length nfa) succ x ?n0"
  have 1: "one_range R ?n1" "Suc (length nfa) \<le> length ?n1"
    "\<forall>s < length nfa. n_chars (?n1 ! s) = n_chars (nfa ! s)"
    using REither.IH(1) [of "length nfa" ?n0 succ] REither.prems by (auto simp: one_range_upd nth_append)
  let ?n2 = "link r (length ?n1) succ x (?n1 @ [newState])"
  have "one_range R ?n2" "Suc (length ?n1) \<le> length ?n2"
    "\<forall>s < length ?n1. n_chars (?n2 ! s) = n_chars (?n1 ! s)"
    using REither.IH(2) [of "length ?n1" "?n1 @ [newState]" succ] REither.prems 1
    by (auto simp: one_range_upd nth_append)
  then show ?case using 1 by (auto simp: Let_def one_range_upd nth_updState)
next
  case (RSeq l r)
  let ?n1 = "link r (length nfa) succ x (nfa @ [newState])"
  have 1: "one_range R ?n1" "Suc (length nfa) \<le> length ?n1"
    "\<forall>s < length nfa. n_chars (?n1 ! s) = n_chars (nfa ! s)"
    using RSeq.IH(2) [of "length nfa" "nfa @ [newState]" succ] RSeq.prems
    by (auto simp: one_range_upd nth_append)
  then show ?case using RSeq.IH(1) [of self ?n1 "length nfa"] RSeq.prems by (auto simp: Let_def)
next
  case (RBind v d)
  then show ?case using RBind.IH [of self "updState self (beginMark x v) nfa" succ]
    by (auto simp: one_range_upd nth_updState)
qed (auto simp: one_range_upd nth_updState)

lemma accumRegexes_one_range:
  "nfa \<noteq> [] \<Longrightarrow> one_range R nfa \<Longrightarrow> \<forall>r \<in> set rs. rranges r \<subseteq> R \<Longrightarrow>
    one_range R (accumRegexes i rs nfa)"
proof (induction rs arbitrary: i nfa)
  case (Cons r rs)
  have "one_range R (nfa @ [newState\<lparr>n_acc := Some i\<rparr>, newState])"
    using Cons.prems(2) one_range_upd(4) [of newState R "nfa @ [newState\<lparr>n_acc := Some i\<rparr>]"]
    by (simp add: one_range_upd)
  then have "one_range R (joined r i nfa) \<and> length nfa \<le> length (joined r i nfa)"
    unfolding joined_def one_range_upd length_updState
    using link_one_range [of "Suc (length nfa)" "nfa @ [newState\<lparr>n_acc := Some i\<rparr>, newState]" R r "length nfa" i]
      Cons.prems(3) by (simp add: nth_append)
  then have "one_range R (joined r i nfa)" "joined r i nfa \<noteq> []" using Cons.prems(1) by auto
  then show ?case using Cons.IH Cons.prems(3) by (simp add: accumRegexes_Cons del: accumRegexes.simps)
qed auto

lemma makeNFA_one_range: "one_range (\<Union> (rranges ` set rs)) (makeNFA rs)"
  unfolding makeNFA_def by (rule accumRegexes_one_range) (auto simp: one_range_def)

text \<open>
  C16. The automaton built for a list of expressions (with non-empty character ranges and no star
  directly inside a star) accepts a string with result \<open>x\<close> exactly when the \<open>x\<close>-th expression
  matches it: runs from state 0 to a state that accepts \<open>x\<close> spell the matches of that expression.
\<close>

theorem nfa_correct:
  assumes "\<forall>r \<in> set rs. wf_regex r \<and> guarded r"
  shows "nfa_accepts (makeNFA rs) 0 w x \<longleftrightarrow> x < length rs \<and> matches (rs ! x) w"
  using makeNFA_accepts [OF assms] .

lemma nfa_correct_witness:
  "nfa_accepts (makeNFA [RSeq (RStar (RCharRange 97 99)) (RCharRange 100 100)]) 0 [97, 98, 100] 0"
proof -
  have "matches (RStar (RCharRange 97 99)) ([97] @ [98] @ [])"
    by (intro m_star m_star0) (simp_all add: matches_simps)
  then have "matches (RSeq (RStar (RCharRange 97 99)) (RCharRange 100 100)) ([97, 98] @ [100])"
    by (intro m_seq) (simp_all add: matches_simps)
  then show ?thesis by (subst nfa_correct) auto
qed

end
