(* ===== verification/Regex_DFA.thy ===== *)
theory Regex_DFA
  imports Regex_NFA
begin

text \<open>
  Determinisation in \<^verbatim>\<open>lib/hobbes/lang/pat/regex.C\<close>: the epsilon closure
  (\<open>findEpsClosure\<close>) and the subset construction (\<open>disambiguate\<close>, \<open>dfaState\<close>).

  The depth first search marks states in a vector of booleans and keeps the closures found so
  far in a map; both are threaded through. Its two loops, over the epsilon successors of a
  state and over all states, are the same recursion over a list of states to visit. The
  \<open>[]\<close> of \<open>std::map\<close>, which inserts an empty set under a missing key, is written out. States
  outside the vector, which an automaton with \<open>nfa_ok\<close> does not have, are skipped.
\<close>

section \<open>Epsilon closure\<close>

type_synonym eps_closure = "nat \<rightharpoonup> nat set"

definition ecAt :: "eps_closure \<Rightarrow> nat \<Rightarrow> nat set" where
  "ecAt ec s = (case ec s of None \<Rightarrow> {} | Some ss \<Rightarrow> ss)"

definition touch :: "nat set \<Rightarrow> eps_closure \<Rightarrow> eps_closure" where
  "touch ts ec = (\<lambda>k. if k \<in> ts \<and> ec k = None then Some {} else ec k)"

text \<open>What is recorded for \<open>s\<close> once its successors have been visited.\<close>

definition closeState :: "nfa \<Rightarrow> nat \<Rightarrow> eps_closure \<Rightarrow> eps_closure" where
  "closeState nfa s ec =
     (touch (n_eps (nfa ! s)) ec)
       (s \<mapsto> ecAt ec s \<union> {s} \<union> (\<Union>et \<in> n_eps (nfa ! s). insert et (ecAt ec et)))"

function findEps :: "nfa \<Rightarrow> nat list \<Rightarrow> bool list \<Rightarrow> eps_closure \<Rightarrow> bool list \<times> eps_closure" where
  "findEps nfa [] ms ec = (ms, ec)"
| "findEps nfa (s # ss) ms ec =
     (if length ms \<le> s \<or> ms ! s then findEps nfa ss ms ec
      else let (ms', ec') = findEps nfa (sorted_list_of_set (n_eps (nfa ! s))) (ms[s := True]) ec
           in findEps nfa ss ms' (closeState nfa s ec'))"
  by pat_completeness auto

abbreviation unmarked :: "bool list \<Rightarrow> nat" where
  "unmarked ms \<equiv> length (filter Not ms)"

lemma unmarked_mark:
  "s < length ms \<Longrightarrow> \<not> ms ! s \<Longrightarrow> unmarked (ms[s := True]) < unmarked ms"
proof (induction ms arbitrary: s)
  case (Cons m ms)
  then show ?case by (cases s) auto
qed simp

lemma findEps_marks:
  assumes "findEps_dom (nfa, ss, ms, ec)"
  shows "unmarked (fst (findEps nfa ss ms ec)) \<le> unmarked ms"
  using assms
proof (induction rule: findEps.pinduct)
  case (1 nfa ms ec)
  then show ?case by (simp add: findEps.psimps)
next
  case (2 nfa s ss ms ec)
  show ?case
  proof (cases "length ms \<le> s \<or> ms ! s")
    case True
    then show ?thesis using 2 by (simp add: findEps.psimps)
  next
    case False
    obtain ms' ec' where r: "findEps nfa (sorted_list_of_set (n_eps (nfa ! s))) (ms[s := True]) ec = (ms', ec')"
      by fastforce
    have "unmarked ms' \<le> unmarked (ms[s := True])" using "2.IH"(2) [OF False] r by simp
    moreover have "unmarked (ms[s := True]) < unmarked ms" using False by (simp add: unmarked_mark)
    moreover have "unmarked (fst (findEps nfa ss ms' (closeState nfa s ec'))) \<le> unmarked ms'"
      using "2.IH"(3) [OF False r [symmetric] refl] by simp
    ultimately show ?thesis using 2(1) False r by (simp add: findEps.psimps)
  qed
qed

termination findEps
proof (relation "measures [\<lambda>(nfa, ss, ms, ec). unmarked ms, \<lambda>(nfa, ss, ms, ec). length ss]")
  fix nfa :: nfa and s ss ms ec x ms' ec'
  assume *: "\<not> (length ms \<le> s \<or> ms ! s)"
    and r: "x = findEps nfa (sorted_list_of_set (n_eps (nfa ! s))) (ms[s := True]) ec" "(ms', ec') = x"
    and d: "findEps_dom (nfa, sorted_list_of_set (n_eps (nfa ! s)), ms[s := True], ec)"
  have "unmarked ms' \<le> unmarked (ms[s := True])" using findEps_marks [OF d] r by (metis fst_conv)
  then show "((nfa, ss, ms', closeState nfa s ec'), nfa, s # ss, ms, ec)
      \<in> measures [\<lambda>(nfa, ss, ms, ec). unmarked ms, \<lambda>(nfa, ss, ms, ec). length ss]"
    using unmarked_mark [of s ms] * by simp
qed (auto simp: unmarked_mark)

definition findEpsClosure :: "nfa \<Rightarrow> eps_closure" where
  "findEpsClosure nfa = snd (findEps nfa [0..<length nfa] (replicate (length nfa) False) Map.empty)"

section \<open>Subset construction\<close>

text \<open>
  \<open>NotInEpsStar\<close> is the exception of \<open>epsState\<close>. The recursion of \<open>dfaState\<close> ends because every
  nested call has recorded a set of states its callers had not; the model bounds it by fuel and
  \<open>2 ^ n + 1\<close> is shown to be enough for \<open>n\<close> states, \<open>DfaFuel\<close> never to come out.
\<close>

datatype dfa_error = NotInEpsStar | DfaFuel

record dfa_state =
  d_chars :: "nat rmap"
  d_acc :: "nat option"
  d_begins :: srcmarkers
  d_ends :: srcmarkers

type_synonym dfa = "dfa_state list"

type_synonym rstates = "nat \<rightharpoonup> nat set"

record dfa_build =
  b_nss2ds :: "nat set \<rightharpoonup> nat"
  b_dfa :: dfa
  b_rstates :: rstates

definition newDState :: dfa_state where
  "newDState = \<lparr>d_chars = [], d_acc = None, d_begins = {}, d_ends = {}\<rparr>"

definition updDState :: "nat \<Rightarrow> (dfa_state \<Rightarrow> dfa_state) \<Rightarrow> dfa_build \<Rightarrow> dfa_build" where
  "updDState d f b = b\<lparr>b_dfa := (b_dfa b)[d := f (b_dfa b ! d)]\<rparr>"

definition epsState :: "eps_closure \<Rightarrow> nat \<Rightarrow> dfa_error + nat set" where
  "epsState ec s = (case ec s of None \<Rightarrow> Inl NotInEpsStar | Some ss \<Rightarrow> Inr ss)"

fun epsStates :: "eps_closure \<Rightarrow> nat list \<Rightarrow> nat set \<Rightarrow> dfa_error + nat set" where
  "epsStates ec [] r = Inr r"
| "epsStates ec (s # ss) r =
     (case epsState ec s of Inl e \<Rightarrow> Inl e | Inr nss \<Rightarrow> epsStates ec ss (r \<union> nss))"

definition epsStateSet :: "eps_closure \<Rightarrow> nat set \<Rightarrow> dfa_error + nat set" where
  "epsStateSet ec ss = epsStates ec (sorted_list_of_set ss) {}"

fun nfaTransitions :: "nfa \<Rightarrow> eps_closure \<Rightarrow> nat list \<Rightarrow> range \<Rightarrow> nat set \<Rightarrow> dfa_error + nat set" where
  "nfaTransitions nfa ec [] cr r = Inr r"
| "nfaTransitions nfa ec (s # ss) cr r =
     (case rm_lookupRangeSubset (n_chars (nfa ! s)) cr of
        None \<Rightarrow> nfaTransitions nfa ec ss cr r
      | Some tss \<Rightarrow>
          (case epsStateSet ec tss of
             Inl e \<Rightarrow> Inl e
           | Inr es \<Rightarrow> nfaTransitions nfa ec ss cr (r \<union> es)))"

definition nfaTransition :: "nfa \<Rightarrow> eps_closure \<Rightarrow> nat set \<Rightarrow> range \<Rightarrow> dfa_error + nat set" where
  "nfaTransition nfa ec ss cr = nfaTransitions nfa ec (sorted_list_of_set ss) cr {}"

text \<open>The end of \<open>dfaState\<close>: accept values and markers of the NFA states in the set.\<close>

definition recordAccept :: "nfa \<Rightarrow> nat \<Rightarrow> nat \<Rightarrow> dfa_build \<Rightarrow> dfa_build" where
  "recordAccept nfa result s b =
     (case n_acc (nfa ! s) of
        None \<Rightarrow> b
      | Some nr \<Rightarrow>
          (updDState result (\<lambda>d. d\<lparr>d_acc := Some result\<rparr>) b)
            \<lparr>b_rstates := (b_rstates b)
               (result \<mapsto> insert nr (case b_rstates b result of None \<Rightarrow> {} | Some rs \<Rightarrow> rs))\<rparr>)"

definition recordMarks :: "nfa \<Rightarrow> nat \<Rightarrow> nat \<Rightarrow> dfa_build \<Rightarrow> dfa_build" where
  "recordMarks nfa result s b =
     updDState result (\<lambda>d. d\<lparr>d_begins := d_begins d \<union> n_begins (nfa ! s),
                              d_ends := d_ends d \<union> n_ends (nfa ! s)\<rparr>) b"

definition finishState :: "nfa \<Rightarrow> nat \<Rightarrow> nat set \<Rightarrow> dfa_build \<Rightarrow> dfa_build" where
  "finishState nfa result ss b =
     foldl (\<lambda>b s. recordMarks nfa result s b)
       (foldl (\<lambda>b s. recordAccept nfa result s b) b (sorted_list_of_set ss))
       (sorted_list_of_set ss)"

fun dfaState :: "nat \<Rightarrow> nfa \<Rightarrow> eps_closure \<Rightarrow> nat set \<Rightarrow> dfa_build \<Rightarrow> dfa_error + nat \<times> dfa_build"
  and dfaTrans :: "nat \<Rightarrow> nfa \<Rightarrow> eps_closure \<Rightarrow> nat set \<Rightarrow> nat \<Rightarrow> range list \<Rightarrow> dfa_build \<Rightarrow>
    dfa_error + dfa_build" where
  "dfaState 0 nfa ec ss b = Inl DfaFuel"
| "dfaState (Suc n) nfa ec ss b =
     (case b_nss2ds b ss of
        Some d \<Rightarrow> Inr (d, b)
      | None \<Rightarrow>
          (let result = length (b_dfa b);
               b1 = b\<lparr>b_dfa := b_dfa b @ [newDState], b_nss2ds := (b_nss2ds b)(ss \<mapsto> result)\<rparr>
           in case dfaTrans n nfa ec ss result (usedCharRanges nfa ss) b1 of
                Inl e \<Rightarrow> Inl e
              | Inr b2 \<Rightarrow> Inr (result, finishState nfa result ss b2)))"
| "dfaTrans n nfa ec ss result [] b = Inr b"
| "dfaTrans n nfa ec ss result (cr # crs) b =
     (case nfaTransition nfa ec ss cr of
        Inl e \<Rightarrow> Inl e
      | Inr ts \<Rightarrow>
          (case dfaState n nfa ec ts b of
             Inl e \<Rightarrow> Inl e
           | Inr (ns, b') \<Rightarrow>
               dfaTrans n nfa ec ss result crs
                 (updDState result (\<lambda>d. d\<lparr>d_chars := rm_insert cr ns (d_chars d)\<rparr>) b')))"

definition emptyBuild :: dfa_build where
  "emptyBuild = \<lparr>b_nss2ds = Map.empty, b_dfa = [], b_rstates = Map.empty\<rparr>"

definition disambiguate :: "nfa \<Rightarrow> dfa_error + dfa \<times> rstates" where
  "disambiguate nfa =
     (let ec = findEpsClosure nfa
      in case epsState ec 0 of
           Inl e \<Rightarrow> Inl e
         | Inr ss \<Rightarrow>
             (case dfaState (2 ^ length nfa + 1) nfa ec ss emptyBuild of
                Inl e \<Rightarrow> Inl e
              | Inr (d, b) \<Rightarrow> Inr (b_dfa b, b_rstates b)))"

text \<open>
  What the function generated for an automaton computes: \<open>None\<close> stands for the result -1.
\<close>

fun dfaRun :: "dfa \<Rightarrow> nat \<Rightarrow> rchar list \<Rightarrow> nat option" where
  "dfaRun dfa s [] = d_acc (dfa ! s)"
| "dfaRun dfa s (c # w) =
     (case rm_lookup (d_chars (dfa ! s)) c of None \<Rightarrow> None | Some t \<Rightarrow> dfaRun dfa t w)"

section \<open>What the closure computes\<close>

definition eps_star :: "nfa \<Rightarrow> nat \<Rightarrow> nat set" where
  "eps_star nfa s = {t. (eps_edge nfa)\<^sup>*\<^sup>* s t}"

lemma eps_star_refl [simp]: "s \<in> eps_star nfa s"
  by (simp add: eps_star_def)

lemma eps_star_unfold:
  assumes "s < length nfa"
  shows "eps_star nfa s = {s} \<union> (\<Union>et \<in> n_eps (nfa ! s). eps_star nfa et)"
  using assms by (auto simp: eps_star_def eps_edge_def intro: converse_rtranclp_into_rtranclp
      elim: converse_rtranclpE)

lemma eps_star_trans: "t \<in> eps_star nfa s \<Longrightarrow> eps_star nfa t \<subseteq> eps_star nfa s"
  by (auto simp: eps_star_def)

lemma eps_star_bound:
  "nfa_ok nfa \<Longrightarrow> s < length nfa \<Longrightarrow> eps_star nfa s \<subseteq> {..<length nfa}"
proof
  fix t assume *: "nfa_ok nfa" "s < length nfa" and "t \<in> eps_star nfa s"
  then have "(eps_edge nfa)\<^sup>*\<^sup>* s t" by (simp add: eps_star_def)
  then show "t \<in> {..<length nfa}"
    using * by (induction rule: rtranclp_induct) (auto simp: nfa_ok_def)
qed

lemma n_eps_bound: "nfa_ok nfa \<Longrightarrow> s < length nfa \<Longrightarrow> n_eps (nfa ! s) \<subseteq> {..<length nfa}"
  by (auto simp: nfa_ok_def eps_edge_def)

lemma n_eps_list:
  "nfa_ok nfa \<Longrightarrow> s < length nfa \<Longrightarrow> set (sorted_list_of_set (n_eps (nfa ! s))) = n_eps (nfa ! s)"
  using n_eps_bound finite_below by (metis set_sorted_list_of_set)

text \<open>Every state gets an entry, and an entry holds only reachable states.\<close>

definition ec_sound :: "nfa \<Rightarrow> eps_closure \<Rightarrow> bool" where
  "ec_sound nfa ec \<longleftrightarrow> (\<forall>s ts. ec s = Some ts \<longrightarrow> ts \<subseteq> eps_star nfa s)"

lemma closeState_sound:
  assumes "ec_sound nfa ec" "s < length nfa"
  shows "ec_sound nfa (closeState nfa s ec)"
proof -
  have at: "ecAt ec k \<subseteq> eps_star nfa k" for k
    using assms(1) by (auto simp: ec_sound_def ecAt_def split: option.splits)
  have "insert et (ecAt ec et) \<subseteq> eps_star nfa s" if "et \<in> n_eps (nfa ! s)" for et
  proof -
    have "insert et (ecAt ec et) \<subseteq> eps_star nfa et" using at [of et] by simp
    then show ?thesis using that unfolding eps_star_unfold [OF assms(2)] by blast
  qed
  then show ?thesis
    using assms(1) at [of s] unfolding ec_sound_def closeState_def touch_def by (auto split: if_splits)
qed

lemma findEps_sound:
  "ec_sound nfa ec \<Longrightarrow> length ms = length nfa \<Longrightarrow> findEps nfa ss ms ec = (ms', ec') \<Longrightarrow>
    ec_sound nfa ec' \<and> length ms' = length nfa"
proof (induction nfa ss ms ec arbitrary: ms' ec' rule: findEps.induct)
  case (2 nfa s ss ms ec)
  show ?case
  proof (cases "length ms \<le> s \<or> ms ! s")
    case True
    then have "findEps nfa ss ms ec = (ms', ec')" using "2.prems"(3) by simp
    then show ?thesis by (rule "2.IH"(1) [OF True "2.prems"(1,2)])
  next
    case False
    obtain ms1 ec1 where r: "findEps nfa (sorted_list_of_set (n_eps (nfa ! s))) (ms[s := True]) ec = (ms1, ec1)"
      by fastforce
    have 1: "ec_sound nfa ec1" "length ms1 = length nfa"
      using "2.IH"(2) [OF False "2.prems"(1) _ r] "2.prems"(2) by simp_all
    have "findEps nfa ss ms1 (closeState nfa s ec1) = (ms', ec')" using False r "2.prems"(3) by simp
    then show ?thesis
      using closeState_sound [OF 1(1), of s] False "2.prems"(2)
      by (intro "2.IH"(3) [OF False r [symmetric] refl _ 1(2)]) simp_all
  qed
qed simp

text \<open>
  On an automaton whose epsilon edges make no cycle the entries are exact. \<open>St\<close> is the set of
  states whose successors are being visited; all of them rank above the states still to visit.
\<close>

definition ec_done :: "nfa \<Rightarrow> eps_closure \<Rightarrow> nat \<Rightarrow> bool" where
  "ec_done nfa ec s \<longleftrightarrow> ec s = Some (eps_star nfa s)"

lemma ec_done_close:
  "ec_done nfa ec k \<Longrightarrow> k \<noteq> s \<Longrightarrow> ec_done nfa (closeState nfa s ec) k"
  by (auto simp: ec_done_def closeState_def touch_def)

lemma closeState_done:
  assumes "s < length nfa" "ec_sound nfa ec" "\<forall>et \<in> n_eps (nfa ! s). ec_done nfa ec et"
  shows "ec_done nfa (closeState nfa s ec) s"
proof -
  have "ecAt ec s \<subseteq> eps_star nfa s"
    using assms(2) by (auto simp: ec_sound_def ecAt_def split: option.splits)
  moreover have "et \<in> n_eps (nfa ! s) \<Longrightarrow> insert et (ecAt ec et) = eps_star nfa et" for et
    using assms(3) by (auto simp: ec_done_def ecAt_def)
  ultimately show ?thesis
    using eps_star_unfold [OF assms(1)] by (auto simp: ec_done_def closeState_def)
qed

lemma findEps_exact:
  fixes R :: "nat \<Rightarrow> rat"
  assumes "nfa_ok nfa" "\<And>s t. eps_edge nfa s t \<Longrightarrow> R t < R s"
  shows "findEps nfa ss ms ec = (ms', ec') \<Longrightarrow> length ms = length nfa \<Longrightarrow> ec_sound nfa ec \<Longrightarrow>
    \<forall>k < length nfa. ms ! k \<longrightarrow> ec_done nfa ec k \<or> k \<in> St \<Longrightarrow> \<forall>s \<in> set ss. \<forall>k \<in> St. R s < R k \<Longrightarrow>
    (\<forall>k < length nfa. ms' ! k \<longrightarrow> ec_done nfa ec' k \<or> k \<in> St) \<and>
    (\<forall>k < length nfa. ec_done nfa ec k \<longrightarrow> ms ! k \<longrightarrow> k \<notin> St \<longrightarrow> ec_done nfa ec' k) \<and>
    (\<forall>k < length nfa. ms ! k \<longrightarrow> ms' ! k) \<and>
    (\<forall>s \<in> set ss. s < length nfa \<longrightarrow> ms' ! s)"
  using assms
proof (induction nfa ss ms ec arbitrary: ms' ec' St rule: findEps.induct)
  case (2 nfa s ss ms ec)
  show ?case
  proof (cases "length ms \<le> s \<or> ms ! s")
    case True
    then have "findEps nfa ss ms ec = (ms', ec')" using "2.prems"(1) by simp
    from "2.IH"(1) [OF True this "2.prems"(2,3,4) _ "2.prems"(6,7)] "2.prems"(2,5) True
    show ?thesis by auto
  next
    case False
    obtain ms1 ec1 where r: "findEps nfa (sorted_list_of_set (n_eps (nfa ! s))) (ms[s := True]) ec = (ms1, ec1)"
      by fastforce
    have s: "s < length nfa" "\<not> ms ! s" using False "2.prems"(2) by simp_all
    have snd1: "ec_sound nfa ec1" "length ms1 = length nfa"
      using findEps_sound [OF "2.prems"(3) _ r] "2.prems"(2) by simp_all
    have down: "R et < R s" if "et \<in> n_eps (nfa ! s)" for et
      using "2.prems"(7) [of s et] s that by (simp add: eps_edge_def)
    let ?ps = "sorted_list_of_set (n_eps (nfa ! s))"
    have ps: "set ?ps = n_eps (nfa ! s)" by (rule n_eps_list [OF "2.prems"(6) s(1)])
    have 1: "\<forall>k < length nfa. ms1 ! k \<longrightarrow> ec_done nfa ec1 k \<or> k \<in> insert s St"
      "\<forall>k < length nfa. ec_done nfa ec k \<longrightarrow> ms[s := True] ! k \<longrightarrow> k \<notin> insert s St \<longrightarrow> ec_done nfa ec1 k"
      "\<forall>k < length nfa. ms[s := True] ! k \<longrightarrow> ms1 ! k"
      "\<forall>et \<in> set ?ps. et < length nfa \<longrightarrow> ms1 ! et"
    proof -
      have a: "\<forall>k < length nfa. ms[s := True] ! k \<longrightarrow> ec_done nfa ec k \<or> k \<in> insert s St"
        using "2.prems"(2,4) s by (auto simp: nth_list_update)
      have b: "\<forall>et \<in> set ?ps. \<forall>k \<in> insert s St. R et < R k"
        using "2.prems"(5) down unfolding ps by (auto intro: less_trans)
      from "2.IH"(2) [OF False r _ "2.prems"(3) a b "2.prems"(6,7)] "2.prems"(2)
      show "\<forall>k < length nfa. ms1 ! k \<longrightarrow> ec_done nfa ec1 k \<or> k \<in> insert s St"
        "\<forall>k < length nfa. ec_done nfa ec k \<longrightarrow> ms[s := True] ! k \<longrightarrow> k \<notin> insert s St \<longrightarrow> ec_done nfa ec1 k"
        "\<forall>k < length nfa. ms[s := True] ! k \<longrightarrow> ms1 ! k"
        "\<forall>et \<in> set ?ps. et < length nfa \<longrightarrow> ms1 ! et" by simp_all
    qed
    have "ec_done nfa ec1 et" if "et \<in> n_eps (nfa ! s)" for et
    proof -
      have "et < length nfa" using that n_eps_bound [OF "2.prems"(6) s(1)] by auto
      moreover have "et \<notin> insert s St" using down [OF that] "2.prems"(5) by fastforce
      ultimately show ?thesis using 1(1,4) that ps by blast
    qed
    then have ds: "ec_done nfa (closeState nfa s ec1) s" by (intro closeState_done s(1) snd1(1)) simp
    have c: "\<forall>k < length nfa. ms1 ! k \<longrightarrow> ec_done nfa (closeState nfa s ec1) k \<or> k \<in> St"
      using 1(1) ds ec_done_close by (metis insert_iff)
    have f: "findEps nfa ss ms1 (closeState nfa s ec1) = (ms', ec')" using False r "2.prems"(1) by simp
    have d: "\<forall>s \<in> set ss. \<forall>k \<in> St. R s < R k" using "2.prems"(5) by simp
    note IH = "2.IH"(3) [OF False r [symmetric] refl f snd1(2) closeState_sound [OF snd1(1) s(1)] c d "2.prems"(6,7)]
    have keep: "ec_done nfa ec' k" if "k < length nfa" "ec_done nfa ec k" "ms ! k" "k \<notin> St" for k
    proof -
      have "k \<noteq> s" using that s by auto
      then have "ms[s := True] ! k" using that(3) by simp
      then have "ms1 ! k" "ec_done nfa ec1 k" using 1(2,3) that \<open>k \<noteq> s\<close> by auto
      then show ?thesis using IH that ec_done_close \<open>k \<noteq> s\<close> by blast
    qed
    have marks: "ms' ! k" if "k < length nfa" "ms ! k \<or> k = s" for k
      using that 1(3) IH s "2.prems"(2) by (metis nth_list_update)
    show ?thesis using IH keep marks s by auto
  qed
qed simp


lemma findEpsClosure_sound:
  assumes "findEpsClosure nfa s = Some ts"
  shows "ts \<subseteq> eps_star nfa s"
proof -
  obtain ms ec where r: "findEps nfa [0..<length nfa] (replicate (length nfa) False) Map.empty = (ms, ec)"
    by fastforce
  have "ec_sound nfa ec" using findEps_sound [OF _ _ r] by (simp add: ec_sound_def)
  then show ?thesis using assms r by (simp add: findEpsClosure_def ec_sound_def)
qed

lemma findEpsClosure_exact:
  fixes R :: "nat \<Rightarrow> rat"
  assumes "nfa_ok nfa" "\<And>s t. eps_edge nfa s t \<Longrightarrow> R t < R s" "s < length nfa"
  shows "findEpsClosure nfa s = Some (eps_star nfa s)"
proof -
  obtain ms ec where r: "findEps nfa [0..<length nfa] (replicate (length nfa) False) Map.empty = (ms, ec)"
    by fastforce
  have "(\<forall>k < length nfa. ms ! k \<longrightarrow> ec_done nfa ec k \<or> k \<in> {}) \<and>
      (\<forall>s \<in> set [0..<length nfa]. s < length nfa \<longrightarrow> ms ! s)"
    using findEps_exact [OF assms(1,2) r, where St = "{}"] by (simp add: ec_sound_def)
  then show ?thesis using assms(3) r by (simp add: findEpsClosure_def ec_done_def)
qed

text \<open>Without the assumption on cycles every state still has an entry that contains itself.\<close>

definition ec_some :: "nfa \<Rightarrow> eps_closure \<Rightarrow> nat \<Rightarrow> bool" where
  "ec_some nfa ec s \<longleftrightarrow> (\<exists>ts. ec s = Some ts \<and> s \<in> ts)"

lemma closeState_some: "ec_some nfa ec k \<or> k = s \<Longrightarrow> ec_some nfa (closeState nfa s ec) k"
  by (auto simp: ec_some_def closeState_def touch_def)

lemma findEps_some:
  "findEps nfa ss ms ec = (ms', ec') \<Longrightarrow>
    (\<forall>k < length ms. ms ! k \<longrightarrow> ms' ! k) \<and> length ms' = length ms \<and>
    (\<forall>k. ec_some nfa ec k \<longrightarrow> ec_some nfa ec' k) \<and>
    (\<forall>k < length ms. ms' ! k \<longrightarrow> ms ! k \<or> ec_some nfa ec' k) \<and>
    (\<forall>s \<in> set ss. s < length ms \<longrightarrow> ms' ! s)"
proof (induction nfa ss ms ec arbitrary: ms' ec' rule: findEps.induct)
  case (2 nfa s ss ms ec)
  show ?case
  proof (cases "length ms \<le> s \<or> ms ! s")
    case True
    then have "findEps nfa ss ms ec = (ms', ec')" using "2.prems" by simp
    from "2.IH"(1) [OF True this] True show ?thesis by auto
  next
    case False
    obtain ms1 ec1 where r: "findEps nfa (sorted_list_of_set (n_eps (nfa ! s))) (ms[s := True]) ec = (ms1, ec1)"
      by fastforce
    have f: "findEps nfa ss ms1 (closeState nfa s ec1) = (ms', ec')" using False r "2.prems" by simp
    note 1 = "2.IH"(2) [OF False r] and 2 = "2.IH"(3) [OF False r [symmetric] refl f]
    have s: "s < length ms" using False by simp
    have len: "length ms1 = length ms" using 1 by simp
    have m1: "ms1 ! k" if "k < length ms" "ms ! k \<or> k = s" for k
      using 1 that s by (metis length_list_update nth_list_update)
    have ec: "ec_some nfa ec' k" if "ec_some nfa ec k \<or> ec_some nfa ec1 k \<or> k = s" for k
      using 1 2 that closeState_some by blast
    have new: "ms ! k \<or> ec_some nfa ec' k" if "k < length ms" "ms' ! k" for k
    proof (cases "ms1 ! k")
      case True
      then have "ms[s := True] ! k \<or> ec_some nfa ec1 k" using 1 that by simp
      then show ?thesis using ec s that by (auto simp: nth_list_update split: if_splits)
    next
      case False
      have "\<forall>k < length ms1. ms' ! k \<longrightarrow> ms1 ! k \<or> ec_some nfa ec' k" using 2 by blast
      then show ?thesis using that len False by metis
    qed
    show ?thesis using 2 len m1 ec new by auto
  qed
qed simp

lemma findEpsClosure_some:
  assumes "s < length nfa"
  shows "\<exists>ts. findEpsClosure nfa s = Some ts \<and> s \<in> ts"
proof -
  obtain ms ec where r: "findEps nfa [0..<length nfa] (replicate (length nfa) False) Map.empty = (ms, ec)"
    by fastforce
  have "ec_some nfa ec s" using findEps_some [OF r] assms by auto
  then show ?thesis using r by (simp add: findEpsClosure_def ec_some_def)
qed

section \<open>One step of the subset construction\<close>

definition det_ok :: "nfa \<Rightarrow> eps_closure \<Rightarrow> bool" where
  "det_ok nfa ec \<longleftrightarrow> nfa_ok nfa \<and>
     (\<forall>s < length nfa. \<exists>ts. ec s = Some ts \<and> s \<in> ts \<and> ts \<subseteq> eps_star nfa s)"

lemma det_ok_closure: "nfa_ok nfa \<Longrightarrow> det_ok nfa (findEpsClosure nfa)"
  unfolding det_ok_def by (metis findEpsClosure_some findEpsClosure_sound)

definition ecSet :: "eps_closure \<Rightarrow> nat set \<Rightarrow> nat set" where
  "ecSet ec ss = (\<Union>s \<in> ss. ecAt ec s)"

lemma ecSet_bound:
  assumes "det_ok nfa ec" "ss \<subseteq> {..<length nfa}"
  shows "ecSet ec ss \<subseteq> {..<length nfa}" "ss \<subseteq> ecSet ec ss"
proof -
  have "ecAt ec s \<subseteq> {..<length nfa} \<and> s \<in> ecAt ec s" if "s \<in> ss" for s
  proof -
    have "s < length nfa" using that assms(2) by auto
    then obtain ts where "ec s = Some ts" "s \<in> ts" "ts \<subseteq> eps_star nfa s"
      using assms(1) unfolding det_ok_def by blast
    then show ?thesis using eps_star_bound [of nfa s] assms(1) \<open>s < length nfa\<close>
      by (auto simp: ecAt_def det_ok_def)
  qed
  then show "ecSet ec ss \<subseteq> {..<length nfa}" "ss \<subseteq> ecSet ec ss" by (auto simp: ecSet_def)
qed

lemma epsStates_Inr:
  "det_ok nfa ec \<Longrightarrow> set ss \<subseteq> {..<length nfa} \<Longrightarrow> epsStates ec ss r = Inr (r \<union> ecSet ec (set ss))"
proof (induction ss arbitrary: r)
  case (Cons s ss)
  then obtain ts where "ec s = Some ts" by (auto simp: det_ok_def)
  with Cons show ?case by (auto simp: epsState_def ecSet_def ecAt_def)
qed (simp add: ecSet_def)

lemma epsStateSet_Inr:
  "det_ok nfa ec \<Longrightarrow> ss \<subseteq> {..<length nfa} \<Longrightarrow> epsStateSet ec ss = Inr (ecSet ec ss)"
  using epsStates_Inr [of nfa ec "sorted_list_of_set ss"] finite_below [of ss]
  by (simp add: epsStateSet_def)

definition move :: "nfa \<Rightarrow> nat set \<Rightarrow> range \<Rightarrow> nat set" where
  "move nfa ss cr = (\<Union>s \<in> ss. case rm_lookupRangeSubset (n_chars (nfa ! s)) cr of
     None \<Rightarrow> {} | Some ts \<Rightarrow> ts)"

lemma lookupRangeSubset_lookup:
  assumes "rm_ok m" "valid_range kr" "rm_lookupRangeSubset m kr = Some v" "in_range c kr"
  shows "rm_lookup m c = Some v"
  using assms by (fastforce simp: lookupRangeSubset_eq rm_lookup_Some_iff in_range_def)

lemma move_edge:
  assumes "nfa_ok nfa" "ss \<subseteq> {..<length nfa}" "valid_range cr" "in_range c cr" "t \<in> move nfa ss cr"
  obtains s where "s \<in> ss" "char_edge nfa s c t"
proof -
  from assms(5) obtain s ts where s: "s \<in> ss" "rm_lookupRangeSubset (n_chars (nfa ! s)) cr = Some ts" "t \<in> ts"
    by (auto simp: move_def split: option.splits)
  then have "s < length nfa" using assms(2) by auto
  then have "rm_lookup (n_chars (nfa ! s)) c = Some ts"
    using s(2) assms(1,3,4) by (intro lookupRangeSubset_lookup) (auto simp: nfa_ok_def)
  then show thesis using that [of s] s \<open>s < length nfa\<close> by (auto simp: char_edge_def)
qed

lemma move_bound:
  assumes "nfa_ok nfa" "ss \<subseteq> {..<length nfa}" "valid_range cr"
  shows "move nfa ss cr \<subseteq> {..<length nfa}"
proof
  fix t assume "t \<in> move nfa ss cr"
  moreover have "in_range (fst cr) cr" using assms(3) by (simp add: in_range_def valid_range_def)
  ultimately obtain s where "char_edge nfa s (fst cr) t" using move_edge assms by metis
  then show "t \<in> {..<length nfa}" using assms(1) by (auto simp: nfa_ok_def)
qed

definition dstep :: "nfa \<Rightarrow> eps_closure \<Rightarrow> nat set \<Rightarrow> range \<Rightarrow> nat set" where
  "dstep nfa ec ss cr = ecSet ec (move nfa ss cr)"

lemma nfaTransitions_Inr:
  "det_ok nfa ec \<Longrightarrow> set ss \<subseteq> {..<length nfa} \<Longrightarrow> valid_range cr \<Longrightarrow>
    nfaTransitions nfa ec ss cr r = Inr (r \<union> dstep nfa ec (set ss) cr)"
proof (induction ss arbitrary: r)
  case (Cons s ss)
  show ?case
  proof (cases "rm_lookupRangeSubset (n_chars (nfa ! s)) cr")
    case None
    then show ?thesis using Cons by (simp add: dstep_def move_def)
  next
    case (Some ts)
    then have "ts \<subseteq> {..<length nfa}"
      using move_bound [of nfa "{s}" cr] Cons.prems by (simp add: move_def det_ok_def)
    then show ?thesis using Cons Some epsStateSet_Inr [of nfa ec ts]
      by (auto simp: dstep_def move_def ecSet_def)
  qed
qed (simp add: dstep_def move_def ecSet_def)

lemma nfaTransition_Inr:
  assumes "det_ok nfa ec" "ss \<subseteq> {..<length nfa}" "valid_range cr"
  shows "nfaTransition nfa ec ss cr = Inr (dstep nfa ec ss cr)"
    and "dstep nfa ec ss cr \<subseteq> {..<length nfa}"
  using nfaTransitions_Inr [OF assms(1) _ assms(3), of "sorted_list_of_set ss" "{}"]
    finite_below [OF assms(2)] assms(2) ecSet_bound(1) [OF assms(1) move_bound [OF _ assms(2,3)]] assms(1)
  by (simp_all add: nfaTransition_def dstep_def det_ok_def)

lemma usedCharRanges_sorted:
  assumes "nfa_ok nfa" "ss \<subseteq> {..<length nfa}"
  shows "ranges_sorted (usedCharRanges nfa ss)"
    and "covers (usedCharRanges nfa ss) k \<longleftrightarrow> (\<exists>s \<in> ss. rm_lookup (n_chars (nfa ! s)) k \<noteq> None)"
proof -
  have *: "ranges_sorted rs \<Longrightarrow> set xs \<subseteq> ss \<Longrightarrow>
      ranges_sorted (foldl (\<lambda>rs s. rm_disjointRanges (n_chars (nfa ! s)) rs) rs xs) \<and>
      (covers (foldl (\<lambda>rs s. rm_disjointRanges (n_chars (nfa ! s)) rs) rs xs) k \<longleftrightarrow>
        covers rs k \<or> (\<exists>s \<in> set xs. rm_lookup (n_chars (nfa ! s)) k \<noteq> None))" for rs xs
  proof (induction xs arbitrary: rs)
    case (Cons s xs)
    have ok: "rm_ok (n_chars (nfa ! s))" using Cons.prems assms by (auto simp: nfa_ok_def)
    then have "ranges_sorted (map fst (n_chars (nfa ! s)))" by (simp add: rm_ok_def)
    note d = disjointRanges_loop_sorted [OF this Cons.prems(1)]
      disjointRanges_loop_covers [OF this Cons.prems(1), of k]
    have "covers (map fst (n_chars (nfa ! s))) k \<longleftrightarrow> rm_lookup (n_chars (nfa ! s)) k \<noteq> None"
      using ok by (force simp: covers_def rm_lookup_Some_iff)
    then show ?case using Cons.IH [of "rm_disjointRanges (n_chars (nfa ! s)) rs"] Cons.prems(2) d
      by (auto simp: rm_disjointRanges_def)
  qed simp
  show "ranges_sorted (usedCharRanges nfa ss)"
    "covers (usedCharRanges nfa ss) k \<longleftrightarrow> (\<exists>s \<in> ss. rm_lookup (n_chars (nfa ! s)) k \<noteq> None)"
    using * [of "[]" "sorted_list_of_set ss"] finite_below [OF assms(2)] by (simp_all add: usedCharRanges_def)
qed

section \<open>The automaton built\<close>

definition accs :: "nfa \<Rightarrow> nat set \<Rightarrow> nat set" where
  "accs nfa ss = {x. \<exists>s \<in> ss. n_acc (nfa ! s) = Some x}"

text \<open>\<open>fin\<close>: the deterministic state \<open>d\<close> is complete and stands for the set \<open>ss\<close>.\<close>

definition fin :: "nfa \<Rightarrow> eps_closure \<Rightarrow> dfa_build \<Rightarrow> nat set \<Rightarrow> nat \<Rightarrow> bool" where
  "fin nfa ec b ss d \<longleftrightarrow> d < length (b_dfa b) \<and> rm_ok (d_chars (b_dfa b ! d)) \<and>
     (\<forall>cr \<in> set (usedCharRanges nfa ss). b_nss2ds b (dstep nfa ec ss cr) \<noteq> None) \<and>
     (\<forall>c d'. rm_lookup (d_chars (b_dfa b ! d)) c = Some d' \<longleftrightarrow>
       (\<exists>cr \<in> set (usedCharRanges nfa ss). in_range c cr \<and> b_nss2ds b (dstep nfa ec ss cr) = Some d')) \<and>
     d_acc (b_dfa b ! d) = (if accs nfa ss = {} then None else Some d) \<and>
     b_rstates b d = (if accs nfa ss = {} then None else Some (accs nfa ss)) \<and>
     d_begins (b_dfa b ! d) = (\<Union>s \<in> ss. n_begins (nfa ! s)) \<and>
     d_ends (b_dfa b ! d) = (\<Union>s \<in> ss. n_ends (nfa ! s))"

definition b_ext :: "nat set \<Rightarrow> dfa_build \<Rightarrow> dfa_build \<Rightarrow> bool" where
  "b_ext X b b' \<longleftrightarrow> length (b_dfa b) \<le> length (b_dfa b') \<and> b_nss2ds b \<subseteq>\<^sub>m b_nss2ds b' \<and>
     (\<forall>d < length (b_dfa b). d \<notin> X \<longrightarrow> b_dfa b' ! d = b_dfa b ! d \<and> b_rstates b' d = b_rstates b d)"

definition b_inv :: "nfa \<Rightarrow> dfa_build \<Rightarrow> bool" where
  "b_inv nfa b \<longleftrightarrow> (\<forall>ss d. b_nss2ds b ss = Some d \<longrightarrow> d < length (b_dfa b) \<and> ss \<subseteq> {..<length nfa}) \<and>
     (\<forall>d \<ge> length (b_dfa b). b_rstates b d = None) \<and> {..<length (b_dfa b)} \<subseteq> ran (b_nss2ds b)"

lemma b_ext_trans: "b_ext X a b \<Longrightarrow> b_ext X b c \<Longrightarrow> b_ext X a c"
  by (auto simp: b_ext_def intro: map_le_trans)

lemma b_ext_refl [simp]: "b_ext X b b"
  by (simp add: b_ext_def)

lemma b_ext_mono: "b_ext X a b \<Longrightarrow> X \<subseteq> Y \<Longrightarrow> b_ext Y a b"
  by (auto simp: b_ext_def)

lemma map_leD: "m \<subseteq>\<^sub>m m' \<Longrightarrow> m k = Some v \<Longrightarrow> m' k = Some v"
  by (metis domI map_le_def)

lemma fin_ext:
  assumes "fin nfa ec b ss d" "b_ext X b b'" "d \<notin> X"
  shows "fin nfa ec b' ss d"
proof -
  have d: "d < length (b_dfa b)" "b_dfa b' ! d = b_dfa b ! d" "b_rstates b' d = b_rstates b d"
    "d < length (b_dfa b')"
    using assms by (auto simp: fin_def b_ext_def)
  have eq: "b_nss2ds b' (dstep nfa ec ss cr) = b_nss2ds b (dstep nfa ec ss cr)"
    if "cr \<in> set (usedCharRanges nfa ss)" for cr
    using assms(1,2) that map_leD unfolding fin_def b_ext_def by (metis not_None_eq)
  show ?thesis using assms(1) d by (simp add: fin_def eq cong: ball_cong bex_cong)
qed

lemma updDState_simps [simp]:
  "length (b_dfa (updDState d f b)) = length (b_dfa b)"
  "b_nss2ds (updDState d f b) = b_nss2ds b"
  "b_rstates (updDState d f b) = b_rstates b"
  "d < length (b_dfa b) \<Longrightarrow> b_dfa (updDState d f b) ! d = f (b_dfa b ! d)"
  "k \<noteq> d \<Longrightarrow> b_dfa (updDState d f b) ! k = b_dfa b ! k"
  by (simp_all add: updDState_def)

lemma recordAccepts:
  assumes "result < length (b_dfa b)" "b' = foldl (\<lambda>b s. recordAccept nfa result s b) b xs"
  shows "length (b_dfa b') = length (b_dfa b) \<and> b_nss2ds b' = b_nss2ds b \<and>
    b_dfa b' ! result = (b_dfa b ! result)
      \<lparr>d_acc := if accs nfa (set xs) = {} then d_acc (b_dfa b ! result) else Some result\<rparr> \<and>
    b_rstates b' result = (if accs nfa (set xs) = {} then b_rstates b result
      else Some (accs nfa (set xs) \<union> (case b_rstates b result of None \<Rightarrow> {} | Some rs \<Rightarrow> rs))) \<and>
    (\<forall>k. k \<noteq> result \<longrightarrow> b_dfa b' ! k = b_dfa b ! k \<and> b_rstates b' k = b_rstates b k)"
  using assms(1) unfolding assms(2)
proof (induction xs arbitrary: b)
  case (Cons s xs)
  let ?b = "recordAccept nfa result s b"
  have l: "length (b_dfa ?b) = length (b_dfa b)" by (simp add: recordAccept_def split: option.split)
  show ?case
  proof (cases "n_acc (nfa ! s)")
    case None
    then have "accs nfa (set (s # xs)) = accs nfa (set xs)" "?b = b"
      by (auto simp: accs_def recordAccept_def)
    then show ?thesis using Cons.IH [OF Cons.prems] by simp
  next
    case (Some x)
    then have a: "accs nfa (set (s # xs)) = insert x (accs nfa (set xs))"
      by (auto simp: accs_def)
    have b: "b_dfa ?b ! result = (b_dfa b ! result)\<lparr>d_acc := Some result\<rparr>" "b_nss2ds ?b = b_nss2ds b"
      "b_rstates ?b result = Some (insert x (case b_rstates b result of None \<Rightarrow> {} | Some rs \<Rightarrow> rs))"
      "\<And>k. k \<noteq> result \<Longrightarrow> b_dfa ?b ! k = b_dfa b ! k \<and> b_rstates ?b k = b_rstates b k"
      using Some Cons.prems by (simp_all add: recordAccept_def)
    show ?thesis using Cons.IH [of ?b] Cons.prems l a b by simp
  qed
qed (simp add: accs_def)

lemma recordMarks_all:
  assumes "result < length (b_dfa b)" "b' = foldl (\<lambda>b s. recordMarks nfa result s b) b xs"
  shows "length (b_dfa b') = length (b_dfa b) \<and> b_nss2ds b' = b_nss2ds b \<and> b_rstates b' = b_rstates b \<and>
    b_dfa b' ! result = (b_dfa b ! result)
      \<lparr>d_begins := d_begins (b_dfa b ! result) \<union> (\<Union>s \<in> set xs. n_begins (nfa ! s)),
       d_ends := d_ends (b_dfa b ! result) \<union> (\<Union>s \<in> set xs. n_ends (nfa ! s))\<rparr> \<and>
    (\<forall>k. k \<noteq> result \<longrightarrow> b_dfa b' ! k = b_dfa b ! k)"
  using assms(1) unfolding assms(2)
proof (induction xs arbitrary: b)
  case (Cons s xs)
  then show ?case using Cons.IH [of "recordMarks nfa result s b"]
    by (simp add: recordMarks_def Un_assoc)
qed simp

lemma finishState_spec:
  assumes "result < length (b_dfa b)" "finite ss" "b' = finishState nfa result ss b"
  shows "length (b_dfa b') = length (b_dfa b)" "b_nss2ds b' = b_nss2ds b"
    and "d_chars (b_dfa b' ! result) = d_chars (b_dfa b ! result)"
    and "d_acc (b_dfa b' ! result) = (if accs nfa ss = {} then d_acc (b_dfa b ! result) else Some result)"
    and "b_rstates b' result = (if accs nfa ss = {} then b_rstates b result
      else Some (accs nfa ss \<union> (case b_rstates b result of None \<Rightarrow> {} | Some rs \<Rightarrow> rs)))"
    and "d_begins (b_dfa b' ! result) = d_begins (b_dfa b ! result) \<union> (\<Union>s \<in> ss. n_begins (nfa ! s))"
    and "d_ends (b_dfa b' ! result) = d_ends (b_dfa b ! result) \<union> (\<Union>s \<in> ss. n_ends (nfa ! s))"
    and "k \<noteq> result \<Longrightarrow> b_dfa b' ! k = b_dfa b ! k \<and> b_rstates b' k = b_rstates b k"
  using recordAccepts [OF assms(1) refl, of nfa "sorted_list_of_set ss"]
    recordMarks_all [OF _ refl, of result
      "foldl (\<lambda>b s. recordAccept nfa result s b) b (sorted_list_of_set ss)" nfa "sorted_list_of_set ss"] assms
  by (simp_all add: finishState_def)

text \<open>\<open>left_to_do\<close> counts the sets of states that have no deterministic state yet.\<close>

definition left_to_do :: "nfa \<Rightarrow> dfa_build \<Rightarrow> nat" where
  "left_to_do nfa b = card (Pow {..<length nfa} - dom (b_nss2ds b))"

lemma left_to_do_mono: "b_nss2ds b \<subseteq>\<^sub>m b_nss2ds b' \<Longrightarrow> left_to_do nfa b' \<le> left_to_do nfa b"
  unfolding left_to_do_def by (intro card_mono) (auto dest: map_leD)

lemma left_to_do_new:
  assumes "ss \<subseteq> {..<length nfa}" "b_nss2ds b ss = None" "b_nss2ds b' = (b_nss2ds b)(ss \<mapsto> d)"
  shows "left_to_do nfa b' < left_to_do nfa b"
  unfolding left_to_do_def using assms by (intro psubset_card_mono) auto

definition builds :: "nfa \<Rightarrow> eps_closure \<Rightarrow> nat set \<Rightarrow> dfa_build \<Rightarrow> nat \<Rightarrow> dfa_build \<Rightarrow> bool" where
  "builds nfa ec ss b d b' \<longleftrightarrow> b_inv nfa b' \<and> b_ext {} b b' \<and> b_nss2ds b' ss = Some d \<and>
     (\<forall>ss' d'. b_nss2ds b' ss' = Some d' \<longrightarrow>
        b_nss2ds b ss' = Some d' \<or> (length (b_dfa b) \<le> d' \<and> fin nfa ec b' ss' d'))"

definition transitions :: "nfa \<Rightarrow> eps_closure \<Rightarrow> nat set \<Rightarrow> dfa_build \<Rightarrow> range list \<Rightarrow> (range \<times> nat) list" where
  "transitions nfa ec ss b crs = map (\<lambda>cr. (cr, the (b_nss2ds b (dstep nfa ec ss cr)))) crs"

lemma dfaTrans_spec:
  assumes det: "det_ok nfa ec" "ss \<subseteq> {..<length nfa}"
    and IH: "\<And>ss b. b_inv nfa b \<Longrightarrow> ss \<subseteq> {..<length nfa} \<Longrightarrow> left_to_do nfa b < n \<Longrightarrow>
      \<exists>d b'. dfaState n nfa ec ss b = Inr (d, b') \<and> builds nfa ec ss b d b'"
    and "\<forall>cr \<in> set crs. valid_range cr" "b_inv nfa b" "result < length (b_dfa b)" "left_to_do nfa b < n"
  shows "\<exists>b'. dfaTrans n nfa ec ss result crs b = Inr b' \<and> b_inv nfa b' \<and> b_ext {result} b b' \<and>
    (\<forall>cr \<in> set crs. b_nss2ds b' (dstep nfa ec ss cr) \<noteq> None) \<and>
    b_dfa b' ! result = (b_dfa b ! result)
      \<lparr>d_chars := foldl (\<lambda>m (r, v). rm_insert r v m) (d_chars (b_dfa b ! result)) (transitions nfa ec ss b' crs)\<rparr> \<and>
    b_rstates b' result = b_rstates b result \<and>
    (\<forall>ss' d'. b_nss2ds b' ss' = Some d' \<longrightarrow> b_nss2ds b ss' = Some d' \<or> (length (b_dfa b) \<le> d' \<and> fin nfa ec b' ss' d'))"
  using assms(4-)
proof (induction crs arbitrary: b)
  case Nil
  then show ?case by (simp add: transitions_def)
next
  case (Cons cr crs)
  have T: "nfaTransition nfa ec ss cr = Inr (dstep nfa ec ss cr)" "dstep nfa ec ss cr \<subseteq> {..<length nfa}"
    using nfaTransition_Inr [OF det, of cr] Cons.prems(1) by simp_all
  obtain d b1 where d: "dfaState n nfa ec (dstep nfa ec ss cr) b = Inr (d, b1)"
    and bl: "builds nfa ec (dstep nfa ec ss cr) b d b1"
    using IH [OF Cons.prems(2) T(2) Cons.prems(4)] by blast
  let ?b2 = "updDState result (\<lambda>st. st\<lparr>d_chars := rm_insert cr d (d_chars st)\<rparr>) b1"
  have b1: "b_inv nfa b1" "b_ext {} b b1" "b_nss2ds b1 (dstep nfa ec ss cr) = Some d"
    "\<And>ss' d'. b_nss2ds b1 ss' = Some d' \<Longrightarrow>
        b_nss2ds b ss' = Some d' \<or> (length (b_dfa b) \<le> d' \<and> fin nfa ec b1 ss' d')"
    using bl by (simp_all add: builds_def)
  have r: "result < length (b_dfa b1)" using b1(2) Cons.prems(3) by (simp add: b_ext_def)
  have b2: "b_inv nfa ?b2" "left_to_do nfa ?b2 < n" "b_ext {result} b ?b2" "b_ext {result} b1 ?b2"
    using b1(1,2) left_to_do_mono [of b b1 nfa] Cons.prems(4)
    by (auto simp: b_inv_def b_ext_def left_to_do_def)
  obtain b' where b': "dfaTrans n nfa ec ss result crs ?b2 = Inr b'" "b_inv nfa b'" "b_ext {result} ?b2 b'"
    "\<forall>cr \<in> set crs. b_nss2ds b' (dstep nfa ec ss cr) \<noteq> None"
    "b_dfa b' ! result = (b_dfa ?b2 ! result)
      \<lparr>d_chars := foldl (\<lambda>m (r, v). rm_insert r v m) (d_chars (b_dfa ?b2 ! result)) (transitions nfa ec ss b' crs)\<rparr>"
    "b_rstates b' result = b_rstates ?b2 result"
    "\<forall>ss' d'. b_nss2ds b' ss' = Some d' \<longrightarrow> b_nss2ds ?b2 ss' = Some d' \<or> (length (b_dfa ?b2) \<le> d' \<and> fin nfa ec b' ss' d')"
    using Cons.IH [of ?b2] Cons.prems(1) b2(1,2) r by auto
  have ext: "b_ext {result} b b'" using b2(3) b'(3) by (rule b_ext_trans)
  have key: "b_nss2ds b' (dstep nfa ec ss cr) = Some d"
    using b'(3) b1(3) by (auto simp: b_ext_def intro: map_leD)
  have old: "b_dfa b1 ! result = b_dfa b ! result" "b_rstates b1 result = b_rstates b result"
    using b1(2) Cons.prems(3) by (simp_all add: b_ext_def)
  have new: "b_nss2ds b ss' = Some d' \<or> (length (b_dfa b) \<le> d' \<and> fin nfa ec b' ss' d')"
    if "b_nss2ds b' ss' = Some d'" for ss' d'
  proof (cases "b_nss2ds b1 ss' = Some d'")
    case True
    then consider "b_nss2ds b ss' = Some d'" | "length (b_dfa b) \<le> d'" "fin nfa ec b1 ss' d'"
      using b1(4) by blast
    then show ?thesis
    proof cases
      case 2
      then have "d' \<notin> {result}" using Cons.prems(3) by auto
      then show ?thesis using 2 fin_ext [OF 2(2) b_ext_trans [OF b2(4) b'(3)]] by simp
    qed simp
  next
    case False
    then show ?thesis using b'(7) that b1(2) by (force simp: b_ext_def)
  qed
  show ?case
    using b' T(1) d ext key old r new by (simp add: transitions_def)
qed

lemma transitions_lookup:
  assumes "ranges_sorted crs"
  shows "rm_ok (foldl (\<lambda>m (r, v). rm_insert r v m) [] (transitions nfa ec ss b crs))"
    and "rm_lookup (foldl (\<lambda>m (r, v). rm_insert r v m) [] (transitions nfa ec ss b crs)) c = Some d \<longleftrightarrow>
      (\<exists>cr \<in> set crs. in_range c cr \<and> the (b_nss2ds b (dstep nfa ec ss cr)) = d)"
proof -
  have v: "\<forall>e \<in> set (transitions nfa ec ss b crs). valid_range (fst e)"
    using ranges_sorted_valid [OF assms] by (auto simp: transitions_def)
  have s: "ranges_sorted (map fst (transitions nfa ec ss b crs))"
    using assms by (simp add: transitions_def comp_def)
  show "rm_ok (foldl (\<lambda>m (r, v). rm_insert r v m) [] (transitions nfa ec ss b crs))"
    using rm.inv_ins_all [OF rm_ok_Nil v] .
  show "rm_lookup (foldl (\<lambda>m (r, v). rm_insert r v m) [] (transitions nfa ec ss b crs)) c = Some d \<longleftrightarrow>
      (\<exists>cr \<in> set crs. in_range c cr \<and> the (b_nss2ds b (dstep nfa ec ss cr)) = d)"
    unfolding rm.look_ins_disjoint [OF rm_ok_Nil v s] by (auto simp: transitions_def)
qed

lemma dfaState_spec:
  assumes "det_ok nfa ec"
  shows "b_inv nfa b \<Longrightarrow> ss \<subseteq> {..<length nfa} \<Longrightarrow> left_to_do nfa b < n \<Longrightarrow>
    \<exists>d b'. dfaState n nfa ec ss b = Inr (d, b') \<and> builds nfa ec ss b d b'"
proof (induction n arbitrary: ss b)
  case (Suc n)
  show ?case
  proof (cases "b_nss2ds b ss")
    case (Some d)
    then show ?thesis using Suc.prems by (simp add: builds_def)
  next
    case None
    let ?r = "length (b_dfa b)"
    let ?b1 = "b\<lparr>b_dfa := b_dfa b @ [newDState], b_nss2ds := (b_nss2ds b)(ss \<mapsto> ?r)\<rparr>"
    let ?crs = "usedCharRanges nfa ss"
    have nok: "nfa_ok nfa" using assms by (simp add: det_ok_def)
    have sorted: "ranges_sorted ?crs" by (rule usedCharRanges_sorted(1) [OF nok Suc.prems(2)])
    have inv1: "b_inv nfa ?b1" using Suc.prems(1,2)
      by (auto simp: b_inv_def less_SucI lessThan_Suc ran_map_upd [where m = "b_nss2ds b" and a = ss, OF None])
    have "left_to_do nfa ?b1 < left_to_do nfa b"
      using Suc.prems(2) None by (intro left_to_do_new [where d = ?r]) simp_all
    then have left1: "left_to_do nfa ?b1 < n" using Suc.prems(3) by simp
    obtain b2 where b2: "dfaTrans n nfa ec ss ?r ?crs ?b1 = Inr b2" "b_inv nfa b2" "b_ext {?r} ?b1 b2"
      "\<forall>cr \<in> set ?crs. b_nss2ds b2 (dstep nfa ec ss cr) \<noteq> None"
      "b_dfa b2 ! ?r = (b_dfa ?b1 ! ?r)
        \<lparr>d_chars := foldl (\<lambda>m (r, v). rm_insert r v m) (d_chars (b_dfa ?b1 ! ?r)) (transitions nfa ec ss b2 ?crs)\<rparr>"
      "b_rstates b2 ?r = b_rstates ?b1 ?r"
      "\<forall>ss' d'. b_nss2ds b2 ss' = Some d' \<longrightarrow>
        b_nss2ds ?b1 ss' = Some d' \<or> (length (b_dfa ?b1) \<le> d' \<and> fin nfa ec b2 ss' d')"
      using dfaTrans_spec [OF assms Suc.prems(2) Suc.IH ranges_sorted_valid [OF sorted] inv1 _ left1, of ?r]
      by auto
    define b' where "b' = finishState nfa ?r ss b2"
    have r2: "?r < length (b_dfa b2)" using b2(3) by (simp add: b_ext_def)
    have none: "b_rstates b ?r = None" using Suc.prems(1) by (simp add: b_inv_def)
    note fs = finishState_spec [OF r2 finite_below [OF Suc.prems(2)] b'_def]
    have new: "b_dfa b2 ! ?r = newDState\<lparr>d_chars :=
        foldl (\<lambda>m (r, v). rm_insert r v m) [] (transitions nfa ec ss b2 ?crs)\<rparr>"
      using b2(5) by (simp add: newDState_def)
    have key: "b_nss2ds b' ss = Some ?r"
      using b2(3) fs(2) by (auto simp: b_ext_def intro: map_leD)
    have "d_chars (b_dfa b' ! ?r) = foldl (\<lambda>m (r, v). rm_insert r v m) [] (transitions nfa ec ss b2 ?crs)"
      using fs(3) new by simp
    then have look: "rm_ok (d_chars (b_dfa b' ! ?r))"
      "rm_lookup (d_chars (b_dfa b' ! ?r)) c = Some d' \<longleftrightarrow>
        (\<exists>cr \<in> set ?crs. in_range c cr \<and> b_nss2ds b' (dstep nfa ec ss cr) = Some d')" for c d'
      using transitions_lookup [OF sorted, of nfa ec ss b2] b2(4) fs(2) by (auto simp: option.expand)
    have fin_ss: "fin nfa ec b' ss ?r"
      using look fs b2(4,6) r2 new none by (auto simp: fin_def newDState_def)
    have ext2: "b_ext {?r} b2 b'" using fs by (auto simp: b_ext_def)
    have "b_ext {} b ?b1" using None by (auto simp: b_ext_def map_le_def nth_append)
    moreover have "b_ext {?r} ?b1 b'" using b2(3) ext2 by (rule b_ext_trans)
    ultimately have ext: "b_ext {} b b'" by (auto simp: b_ext_def intro: map_le_trans)
    have inv: "b_inv nfa b'" using b2(2) fs(1,2,8) r2 by (auto simp: b_inv_def)
    have "b_nss2ds b ss' = Some d' \<or> (?r \<le> d' \<and> fin nfa ec b' ss' d')" if "b_nss2ds b' ss' = Some d'" for ss' d'
    proof (cases "b_nss2ds ?b1 ss' = Some d'")
      case True
      then show ?thesis using fin_ss by (auto split: if_splits)
    next
      case False
      then have "length (b_dfa ?b1) \<le> d'" "fin nfa ec b2 ss' d'" using b2(7) that fs(2) by auto
      then show ?thesis using fin_ext [OF _ ext2] by simp
    qed
    then have "builds nfa ec ss b ?r b'" using inv ext key by (simp add: builds_def)
    then show ?thesis using b2(1) None b'_def by (simp add: Let_def)
  qed
qed simp

text \<open>The finished automaton: a numbering of sets of states, each complete.\<close>

definition dfa_of :: "nfa \<Rightarrow> eps_closure \<Rightarrow> (nat set \<rightharpoonup> nat) \<Rightarrow> dfa \<Rightarrow> rstates \<Rightarrow> bool" where
  "dfa_of nfa ec m dfa rs \<longleftrightarrow>
     (\<forall>ss d. m ss = Some d \<longrightarrow> ss \<subseteq> {..<length nfa} \<and>
        fin nfa ec \<lparr>b_nss2ds = m, b_dfa = dfa, b_rstates = rs\<rparr> ss d) \<and>
     m (ecAt ec 0) = Some 0 \<and> {..<length dfa} \<subseteq> ran m"

lemma disambiguate_spec:
  assumes "nfa_ok nfa" "nfa \<noteq> []"
  obtains m dfa rs where "disambiguate nfa = Inr (dfa, rs)" "dfa_of nfa (findEpsClosure nfa) m dfa rs"
proof -
  let ?ec = "findEpsClosure nfa"
  have det: "det_ok nfa ?ec" by (rule det_ok_closure [OF assms(1)])
  obtain ss where ss: "?ec 0 = Some ss" using findEpsClosure_some [of 0 nfa] assms(2) by auto
  have ss': "ss = ecAt ?ec 0" using ss by (simp add: ecAt_def)
  have bound: "ss \<subseteq> {..<length nfa}"
    using ecSet_bound(1) [OF det, of "{0}"] assms(2) ss' by (simp add: ecSet_def)
  have inv: "b_inv nfa emptyBuild" by (simp add: b_inv_def emptyBuild_def)
  have "left_to_do nfa emptyBuild < 2 ^ length nfa + 1"
    by (simp add: left_to_do_def emptyBuild_def card_Pow)
  then obtain d b where db: "dfaState (2 ^ length nfa + 1) nfa ?ec ss emptyBuild = Inr (d, b)"
    "builds nfa ?ec ss emptyBuild d b"
    using dfaState_spec [OF det inv bound] by blast
  have "d = 0"
  proof -
    have "dfaState (2 ^ length nfa + 1) nfa ?ec ss emptyBuild = Inr (d, b)" by (rule db(1))
    then show ?thesis
      by (auto simp: emptyBuild_def Let_def split: sum.splits)
  qed
  have all: "b_nss2ds b ss' = Some d' \<Longrightarrow> ss' \<subseteq> {..<length nfa} \<and> fin nfa ?ec b ss' d'" for ss' d'
    using db(2) by (auto simp: builds_def b_inv_def emptyBuild_def)
  have onto: "{..<length (b_dfa b)} \<subseteq> ran (b_nss2ds b)" using db(2) by (simp add: builds_def b_inv_def)
  have eta: "\<lparr>b_nss2ds = b_nss2ds b, b_dfa = b_dfa b, b_rstates = b_rstates b\<rparr> = b" by simp
  have "dfa_of nfa ?ec (b_nss2ds b) (b_dfa b) (b_rstates b)"
    using all onto db(2) ss' \<open>d = 0\<close> unfolding dfa_of_def builds_def eta by simp
  moreover have "disambiguate nfa = Inr (b_dfa b, b_rstates b)"
    using ss db(1) by (simp add: disambiguate_def epsState_def del: dfaState.simps)
  ultimately show thesis using that by blast
qed

section \<open>The automaton's language\<close>

lemma eps_star_path: "t \<in> eps_star nfa s \<Longrightarrow> path nfa t w u \<Longrightarrow> path nfa s w u"
  unfolding eps_star_def mem_Collect_eq
  by (induction rule: converse_rtranclp_induct) (auto intro: path_epsI)

lemma path_split:
  assumes "path nfa s w u"
  shows "(w = [] \<and> u \<in> eps_star nfa s) \<or>
    (\<exists>c w' s' t. w = c # w' \<and> s' \<in> eps_star nfa s \<and> char_edge nfa s' c t \<and> path nfa t w' u)"
  using assms
proof (induction rule: path.induct)
  case (path_eps s t w u)
  then have "eps_star nfa t \<subseteq> eps_star nfa s"
    by (intro eps_star_trans) (auto simp: eps_star_def eps_edge_def)
  then show ?case using path_eps.IH by blast
next
  case (path_char s c ts t w u)
  then have "char_edge nfa s c t" by (auto simp: char_edge_def)
  then show ?case using path_char.hyps(4) eps_star_refl by blast
qed simp

lemma dfa_sound:
  assumes "det_ok nfa ec" "dfa_of nfa ec m dfa rs"
  shows "m ss = Some d \<Longrightarrow> dfaRun dfa d w = Some r \<Longrightarrow>
    \<exists>X. rs r = Some X \<and> X \<noteq> {} \<and> (\<forall>x \<in> X. \<exists>s \<in> ss. nfa_accepts nfa s w x)"
proof (induction w arbitrary: ss d)
  case Nil
  have b: "ss \<subseteq> {..<length nfa}" "fin nfa ec \<lparr>b_nss2ds = m, b_dfa = dfa, b_rstates = rs\<rparr> ss d"
    using assms(2) Nil.prems(1) by (simp_all add: dfa_of_def)
  then have "accs nfa ss \<noteq> {}" "r = d" "rs d = Some (accs nfa ss)"
    using Nil.prems(2) by (auto simp: fin_def split: if_splits)
  then show ?case using b(1) path_refl by (fastforce simp: accs_def nfa_accepts_def)
next
  case (Cons c w)
  have b: "ss \<subseteq> {..<length nfa}" "fin nfa ec \<lparr>b_nss2ds = m, b_dfa = dfa, b_rstates = rs\<rparr> ss d"
    using assms(2) Cons.prems(1) by (simp_all add: dfa_of_def)
  have nok: "nfa_ok nfa" using assms(1) by (simp add: det_ok_def)
  obtain d' where d': "rm_lookup (d_chars (dfa ! d)) c = Some d'" "dfaRun dfa d' w = Some r"
    using Cons.prems(2) by (auto split: option.splits)
  then obtain cr where cr: "cr \<in> set (usedCharRanges nfa ss)" "in_range c cr" "m (dstep nfa ec ss cr) = Some d'"
    using b(2) by (auto simp: fin_def)
  have v: "valid_range cr" using cr(1) ranges_sorted_valid [OF usedCharRanges_sorted(1) [OF nok b(1)]] by blast
  obtain X where X: "rs r = Some X" "X \<noteq> {}" "\<forall>x \<in> X. \<exists>s \<in> dstep nfa ec ss cr. nfa_accepts nfa s w x"
    using Cons.IH [OF cr(3) d'(2)] by blast
  have "\<exists>s \<in> ss. nfa_accepts nfa s (c # w) x" if "x \<in> X" for x
  proof -
    from X(3) that obtain s t where s: "t \<in> move nfa ss cr" "s \<in> ecAt ec t" "nfa_accepts nfa s w x"
      by (auto simp: dstep_def ecSet_def)
    have "t < length nfa" using move_bound [OF nok b(1) v] s(1) by auto
    then have "s \<in> eps_star nfa t" using assms(1) s(2) by (force simp: det_ok_def ecAt_def)
    obtain q where q: "q \<in> ss" "char_edge nfa q c t" using move_edge [OF nok b(1) v cr(2) s(1)] by blast
    have "path nfa q (c # w) u" if "path nfa s w u" for u
      using q(2) eps_star_path [OF \<open>s \<in> eps_star nfa t\<close> that] by (subst path_alt) blast
    then show ?thesis using q(1) s(3) by (auto simp: nfa_accepts_def)
  qed
  then show ?case using X(1,2) by blast
qed

text \<open>
  The converse needs the closure to be exact and the character ranges to be nested or disjoint,
  so that no transition of a state is cut by the ranges of another.
\<close>

definition nested_ranges :: "range set \<Rightarrow> bool" where
  "nested_ranges R \<longleftrightarrow> (\<forall>f \<in> R. valid_range f) \<and> (\<forall>f \<in> R. \<forall>g \<in> R. nested f g)"

definition used_by :: "nfa \<Rightarrow> nat set \<Rightarrow> range set" where
  "used_by nfa ss = (\<Union>s \<in> ss. fst ` set (n_chars (nfa ! s)))"

lemma usedCharRanges_exact:
  assumes "one_range R nfa" "nested_ranges R" "ss \<subseteq> {..<length nfa}"
  shows "exact_split (used_by nfa ss) (usedCharRanges nfa ss)"
proof -
  have *: "exact_split F rs \<Longrightarrow> F \<subseteq> R \<Longrightarrow> set xs \<subseteq> ss \<Longrightarrow>
    exact_split (F \<union> used_by nfa (set xs)) (foldl (\<lambda>rs s. rm_disjointRanges (n_chars (nfa ! s)) rs) rs xs)"
    for F rs xs
  proof (induction xs arbitrary: F rs)
    case (Cons s xs)
    have s: "s < length nfa" using Cons.prems(3) assms(3) by auto
    consider "n_chars (nfa ! s) = []" | g ts where "g \<in> R" "n_chars (nfa ! s) = [(g, ts)]"
      using assms(1) s by (auto simp: one_range_def)
    then show ?case
    proof cases
      case 1
      then have "rm_disjointRanges (n_chars (nfa ! s)) rs = rs" by (simp add: rm_disjointRanges_def)
      then show ?thesis using 1 Cons by (simp add: used_by_def)
    next
      case 2
      have "exact_split (insert g F) (rm_disjointRanges [(g, ts)] rs)"
        using Cons.prems(1,2) 2(1) assms(2) by (intro exact_split_add) (auto simp: nested_ranges_def)
      then have "exact_split (insert g F \<union> used_by nfa (set xs))
          (foldl (\<lambda>rs s. rm_disjointRanges (n_chars (nfa ! s)) rs) (rm_disjointRanges [(g, ts)] rs) xs)"
        using Cons.prems(2,3) 2(1) by (intro Cons.IH) auto
      then show ?thesis using 2(2) by (simp add: used_by_def)
    qed
  qed (simp add: used_by_def)
  show ?thesis using * [OF exact_split_empty, of "sorted_list_of_set ss"] finite_below [OF assms(3)]
    by (simp add: usedCharRanges_def)
qed

lemma dfa_complete:
  assumes "nfa_ok nfa" "one_range R nfa" "nested_ranges R"
    and ec: "\<And>s. s < length nfa \<Longrightarrow> ec s = Some (eps_star nfa s)" and "dfa_of nfa ec m dfa rs"
  shows "m ss = Some d \<Longrightarrow> \<forall>s \<in> ss. eps_star nfa s \<subseteq> ss \<Longrightarrow> s \<in> ss \<Longrightarrow> nfa_accepts nfa s w x \<Longrightarrow>
    \<exists>r X. dfaRun dfa d w = Some r \<and> rs r = Some X \<and> x \<in> X"
proof (induction w arbitrary: ss d s)
  case Nil
  have b: "ss \<subseteq> {..<length nfa}" "fin nfa ec \<lparr>b_nss2ds = m, b_dfa = dfa, b_rstates = rs\<rparr> ss d"
    using assms(5) Nil.prems(1) by (simp_all add: dfa_of_def)
  from Nil.prems(4) obtain t where t: "path nfa s [] t" "n_acc (nfa ! t) = Some x"
    by (auto simp: nfa_accepts_def)
  then have "t \<in> ss" using path_split [OF t(1)] Nil.prems(2,3) by auto
  then have "x \<in> accs nfa ss" using t(2) by (auto simp: accs_def)
  then show ?case using b(2) by (auto simp: fin_def split: if_splits)
next
  case (Cons c w)
  have b: "ss \<subseteq> {..<length nfa}" "fin nfa ec \<lparr>b_nss2ds = m, b_dfa = dfa, b_rstates = rs\<rparr> ss d"
    using assms(5) Cons.prems(1) by (simp_all add: dfa_of_def)
  from Cons.prems(4) obtain u where u: "path nfa s (c # w) u" "u < length nfa" "n_acc (nfa ! u) = Some x"
    by (auto simp: nfa_accepts_def)
  then obtain s' t where s': "s' \<in> eps_star nfa s" "char_edge nfa s' c t" "path nfa t w u"
    using path_split [OF u(1)] by auto
  have s'ss: "s' \<in> ss" using s'(1) Cons.prems(2,3) by auto
  obtain g ts where g: "n_chars (nfa ! s') = [(g, ts)]" "in_range c g" "t \<in> ts"
  proof -
    obtain us where us: "s' < length nfa" "rm_lookup (n_chars (nfa ! s')) c = Some us" "t \<in> us"
      using s'(2) by (auto simp: char_edge_def)
    then obtain g ts where gts: "n_chars (nfa ! s') = [(g, ts)]"
      using assms(2) by (auto simp: one_range_def)
    moreover have "rm_ok [(g, ts)]" using gts us(1) assms(1) by (metis nfa_ok_def)
    ultimately show thesis using that us(2,3) by (auto simp: rm_lookup_Cons split: if_splits)
  qed
  have "g \<in> used_by nfa ss" using g(1) s'ss by (force simp: used_by_def)
  then obtain cr where cr: "cr \<in> set (usedCharRanges nfa ss)" "in_range c cr" "subr cr g"
    using exact_split_homog [OF usedCharRanges_exact [OF assms(2,3) b(1)] _ g(2)] g(2) by metis
  have v: "valid_range cr" using cr(1) ranges_sorted_valid [OF usedCharRanges_sorted(1) [OF assms(1) b(1)]] by blast
  have okg: "rm_ok [(g, ts)]" using g(1) s'(2) assms(1) unfolding nfa_ok_def char_edge_def by metis
  have "rm_lookupRangeSubset (n_chars (nfa ! s')) cr = Some ts"
    using cr(3) lookupRangeSubset_eq [OF okg v] g(1) by (simp add: subr_def)
  then have tm: "t \<in> move nfa ss cr" using g(3) s'ss by (force simp: move_def)
  have mb: "move nfa ss cr \<subseteq> {..<length nfa}" by (rule move_bound [OF assms(1) b(1) v])
  have D: "dstep nfa ec ss cr = (\<Union>t \<in> move nfa ss cr. eps_star nfa t)"
  proof -
    have "ecAt ec t = eps_star nfa t" if "t \<in> move nfa ss cr" for t
      using ec [of t] mb that by (auto simp: ecAt_def)
    then show ?thesis by (simp add: dstep_def ecSet_def)
  qed
  have "b_nss2ds \<lparr>b_nss2ds = m, b_dfa = dfa, b_rstates = rs\<rparr> (dstep nfa ec ss cr) \<noteq> None"
    using b(2) cr(1) unfolding fin_def by (elim conjE) (rule bspec)
  then have "m (dstep nfa ec ss cr) \<noteq> None" by simp
  then obtain d' where d': "m (dstep nfa ec ss cr) = Some d'" unfolding not_None_eq by (rule exE)
  then have "rm_lookup (d_chars (dfa ! d)) c = Some d'" using b(2) cr(1,2) by (auto simp: fin_def)
  moreover have "\<exists>r X. dfaRun dfa d' w = Some r \<and> rs r = Some X \<and> x \<in> X"
  proof (rule Cons.IH [OF d'])
    show "\<forall>s \<in> dstep nfa ec ss cr. eps_star nfa s \<subseteq> dstep nfa ec ss cr"
      unfolding D using eps_star_trans by blast
    show "t \<in> dstep nfa ec ss cr" unfolding D using tm eps_star_refl by blast
    show "nfa_accepts nfa t w x" using s'(3) u(2,3) by (auto simp: nfa_accepts_def)
  qed
  ultimately show ?case by simp
qed

end
