(* ===== verification/Bit_Table.thy ===== *)
theory Bit_Table
  imports Hobbes_Prelude
begin

unbundle bit_operations_syntax

text \<open>
  The two-dimensional table of bits of \<^verbatim>\<open>include/hobbes/util/array.H\<close>, packed eight to a byte.
  The dimensions and the index are \<open>size_t\<close> in the code; a table that fits in memory is far
  too small for \<open>r * colc + c\<close> to wrap, and the model uses natural numbers for them.
\<close>

record bit_table =
  bt_colc :: nat
  bt_rowc :: nat
  bt_data :: "u8 list"

definition bt_new :: "nat \<Rightarrow> nat \<Rightarrow> bool \<Rightarrow> bit_table" where
  "bt_new rowc colc s =
     \<lparr>bt_colc = colc, bt_rowc = rowc,
      bt_data = replicate (1 + (rowc * colc) div 8) (if s then 0xFF else 0)\<rparr>"

definition bt_get :: "bit_table \<Rightarrow> nat \<Rightarrow> nat \<Rightarrow> bool" where
  "bt_get t r c =
     (let i = r * bt_colc t + c; k = i div 8; b = i mod 8
      in bt_data t ! k AND push_bit b 1 \<noteq> 0)"

definition bt_set :: "nat \<Rightarrow> nat \<Rightarrow> bool \<Rightarrow> bit_table \<Rightarrow> bit_table" where
  "bt_set r c f t =
     (let i = r * bt_colc t + c; k = i div 8; b = i mod 8
      in t\<lparr>bt_data := (bt_data t)
             [k := (if f then bt_data t ! k OR push_bit b 1
                    else bt_data t ! k AND NOT (push_bit b 1))]\<rparr>)"

definition bt_ok :: "bit_table \<Rightarrow> bool" where
  "bt_ok t \<longleftrightarrow> length (bt_data t) = 1 + (bt_rowc t * bt_colc t) div 8"

lemma bt_get_bit:
  "bt_get t r c \<longleftrightarrow> bit (bt_data t ! ((r * bt_colc t + c) div 8)) ((r * bt_colc t + c) mod 8)"
  by (simp add: bt_get_def Let_def and_exp_eq_0_iff_not_bit)

text \<open>Setting and clearing a bit of a byte.\<close>

lemma byte_set_bit:
  fixes x :: u8
  assumes "n < 8" "m < 8"
  shows "bit (x OR push_bit n 1) m \<longleftrightarrow> bit x m \<or> m = n"
    and "bit (x AND NOT (push_bit n 1)) m \<longleftrightarrow> bit x m \<and> m \<noteq> n"
  using assms by (auto simp: bit_simps)

lemma bt_index_less:
  fixes r c rowc colc :: nat
  assumes "r < rowc" "c < colc"
  shows "r * colc + c < rowc * colc"
proof -
  have "r * colc + c < Suc r * colc" using assms(2) by simp
  also have "\<dots> \<le> rowc * colc" using assms(1) by (intro mult_le_mono1) simp
  finally show ?thesis .
qed

lemma bt_index_inj:
  assumes "c < (colc :: nat)" "c' < colc" "r * colc + c = r' * colc + c'"
  shows "r = r' \<and> c = c'"
proof -
  have "(r * colc + c) div colc = r" using assms(1) by simp
  moreover have "(r' * colc + c') div colc = r'" using assms(2) by simp
  ultimately have "r = r'" using assms(3) by metis
  then show ?thesis using assms(3) by simp
qed

lemma bt_set_simps [simp]:
  "bt_colc (bt_set r c f t) = bt_colc t" "bt_rowc (bt_set r c f t) = bt_rowc t"
  "bt_ok (bt_set r c f t) \<longleftrightarrow> bt_ok t"
  by (simp_all add: bt_set_def Let_def bt_ok_def)

lemma bt_new_simps [simp]:
  "bt_colc (bt_new n m s) = m" "bt_rowc (bt_new n m s) = n" "bt_ok (bt_new n m s)"
  by (simp_all add: bt_new_def bt_ok_def)

lemma bt_get_set:
  assumes "bt_ok t" "r < bt_rowc t" "c < bt_colc t" "r' < bt_rowc t" "c' < bt_colc t"
  shows "bt_get (bt_set r c f t) r' c' = (if r' = r \<and> c' = c then f else bt_get t r' c')"
proof -
  let ?i = "r * bt_colc t + c" and ?j = "r' * bt_colc t + c'"
  have k: "?i div 8 < length (bt_data t)"
    using bt_index_less [OF assms(2,3)] assms(1) by (simp add: bt_ok_def less_Suc_eq_le div_le_mono)
  have same: "?i = ?j \<longleftrightarrow> r' = r \<and> c' = c" using bt_index_inj [OF assms(3,5)] by auto
  show ?thesis
  proof (cases "?i div 8 = ?j div 8")
    case True
    have m: "?j mod 8 = ?i mod 8 \<longleftrightarrow> r' = r \<and> c' = c"
      unfolding same [symmetric] using True by (metis mult_div_mod_eq)
    have "bt_data (bt_set r c f t) ! (?j div 8) =
        (if f then bt_data t ! (?j div 8) OR push_bit (?i mod 8) 1
         else bt_data t ! (?j div 8) AND NOT (push_bit (?i mod 8) 1))"
      using True k by (simp add: bt_set_def Let_def)
    moreover have "?i mod 8 < 8" "?j mod 8 < 8" by simp_all
    note byte_set_bit [OF this, of "bt_data t ! (?j div 8)"]
    ultimately show ?thesis unfolding bt_get_bit bt_set_simps m by (cases f; cases "r' = r \<and> c' = c") (simp_all, blast+)
  next
    case False
    then have "bt_data (bt_set r c f t) ! (?j div 8) = bt_data t ! (?j div 8)"
      by (simp add: bt_set_def Let_def)
    moreover have "\<not> (r' = r \<and> c' = c)" using False by auto
    ultimately show ?thesis unfolding bt_get_bit bt_set_simps by (simp, blast?)
  qed
qed

lemma bt_get_new:
  assumes "r < rowc" "c < colc"
  shows "bt_get (bt_new rowc colc s) r c = s"
proof -
  have "(r * colc + c) div 8 < 1 + rowc * colc div 8"
    using bt_index_less [OF assms] by (simp add: less_Suc_eq_le div_le_mono)
  then have "bt_data (bt_new rowc colc s) ! ((r * colc + c) div 8) = (if s then 0xFF else 0)"
    unfolding bt_new_def bit_table.select_convs by (rule nth_replicate)
  moreover have "bit (0xFF :: u8) n" if "n < 8" for n
  proof -
    have "(0xFF :: u8) = mask 8" by (simp add: mask_numeral)
    then show ?thesis using that by (simp only: bit_mask_iff) simp
  qed
  ultimately show ?thesis unfolding bt_get_bit bt_new_simps by simp
qed

text \<open>What the users of the table rely on: setting an entry changes that entry only.\<close>

locale flag_table =
  fixes get :: "'t \<Rightarrow> nat \<Rightarrow> nat \<Rightarrow> bool" and set_flag :: "nat \<Rightarrow> nat \<Rightarrow> bool \<Rightarrow> 't \<Rightarrow> 't"
    and dims :: "'t \<Rightarrow> nat \<times> nat" and inv :: "'t \<Rightarrow> bool"
  assumes set_inv: "inv t \<Longrightarrow> inv (set_flag r c f t)"
    and set_dims: "dims (set_flag r c f t) = dims t"
    and get_set: "inv t \<Longrightarrow> dims t = (n, m) \<Longrightarrow> r < n \<Longrightarrow> c < m \<Longrightarrow> r' < n \<Longrightarrow> c' < m \<Longrightarrow>
      get (set_flag r c f t) r' c' = (if r' = r \<and> c' = c then f else get t r' c')"
begin

definition flags :: "'t \<Rightarrow> (nat \<times> nat) set" where
  "flags t = {(r, c). r < fst (dims t) \<and> c < snd (dims t) \<and> get t r c}"

lemma flags_set:
  assumes "inv t" "dims t = (n, m)" "r < n" "c < m"
  shows "flags (set_flag r c True t) = insert (r, c) (flags t)"
  using assms by (auto simp: flags_def set_dims get_set)

lemma flags_diagonal:
  "inv t \<Longrightarrow> dims t = (n, n) \<Longrightarrow> k \<le> n \<Longrightarrow>
    inv (foldl (\<lambda>t s. set_flag s s True t) t [0..<k]) \<and>
    dims (foldl (\<lambda>t s. set_flag s s True t) t [0..<k]) = (n, n) \<and>
    flags (foldl (\<lambda>t s. set_flag s s True t) t [0..<k]) = flags t \<union> {(s, s) | s. s < k}"
proof (induction k)
  case (Suc k)
  then show ?case by (auto simp: set_inv set_dims flags_set less_Suc_eq)
qed simp

end

interpretation bt: flag_table bt_get bt_set "\<lambda>t. (bt_rowc t, bt_colc t)" bt_ok
  by unfold_locales (auto simp: bt_get_set)

text \<open>
  Bits are independent although they share bytes: within the dimensions of a table, setting
  one entry to either value is seen at that entry and at no other, and the dimensions stay.
\<close>

theorem bit_table_update:
  assumes "bt_ok t" "r < bt_rowc t" "c < bt_colc t" "r' < bt_rowc t" "c' < bt_colc t"
  shows "bt_ok (bt_set r c f t) \<and>
    bt_get (bt_set r c f t) r' c' = (if r' = r \<and> c' = c then f else bt_get t r' c')"
  using bt.set_inv [OF assms(1)] bt.get_set [OF assms(1) refl assms(2-5)] by simp

lemma bit_table_update_witness:
  "bt_get (bt_set 2 1 True (bt_new 3 5 False)) 2 1 \<and> \<not> bt_get (bt_set 2 1 True (bt_new 3 5 False)) 2 2"
proof -
  note u = bit_table_update [of "bt_new 3 5 False" 2 1]
  show ?thesis using u [of 2 1 True] u [of 2 2 True] by (simp add: bt_get_new)
qed

end
