(* ===== verification/Regex_Match.thy ===== *)
theory Regex_Match
  imports Regex_DFA Bit_Table "HOL-Library.While_Combinator" "HOL-Library.AList"
begin

text \<open>
  The rest of \<^verbatim>\<open>lib/hobbes/lang/pat/regex.C\<close>: merging of results
  (\<open>mergeCharRangesAndEqResults\<close>), minimisation (\<open>findEquivStates\<close>, \<open>removeEquivStates\<close>), the
  code generated for the transitions of a state and the function generated for an automaton,
  and \<open>makeRegexFn\<close>, which puts all of it together.

  The generated code is an expression of the compiled language; the model keeps the fragment
  that is generated as a datatype with an evaluation function. A jump to state \<open>s\<close> is
  \<open>Goto s\<close>, the default result -1 is \<open>Default\<close>.
\<close>

section \<open>Transitions of a state\<close>

datatype dfa_cond =
    CondTrue
  | CondLe rchar
  | CondEq rchar
  | CondBetween rchar rchar

datatype dfa_code =
    Default
  | Goto nat
  | CharSwitch "(rchar \<times> nat) list"
  | IfCond dfa_cond nat dfa_code

definition transitionAsCharSwitch :: "dfa_state \<Rightarrow> dfa_code" where
  "transitionAsCharSwitch s =
     CharSwitch (map (\<lambda>tc. (tc, the (rm_lookup (d_chars s) tc))) (sorted_list_of_set (rm_keys (d_chars s))))"

definition charInRange :: "range \<Rightarrow> dfa_cond" where
  "charInRange cr =
     (if fst cr = 0 \<and> snd cr = 255 then CondTrue
      else if fst cr = 0 then CondLe (snd cr)
      else if fst cr = snd cr then CondEq (fst cr)
      else CondBetween (fst cr) (snd cr))"

definition transitionAsRangeChecks :: "(range \<times> nat) list \<Rightarrow> dfa_code" where
  "transitionAsRangeChecks ranges =
     foldr (\<lambda>r result. IfCond (charInRange (fst r)) (snd r) result) ranges Default"

text \<open>
  The average size of a range is a quotient of \<open>double\<close>s compared with 2.0; at most 256
  ranges of at most 256 characters leave no room for rounding to matter, and the model
  compares the sum with twice the number of ranges.
\<close>

definition transitionMapping :: "dfa_state \<Rightarrow> dfa_code" where
  "transitionMapping s =
     (let rtns = rm_mapping (d_chars s) in
      if rtns = [] then Default
      else if length rtns = 1 \<and> fst (fst (hd rtns)) = 0 \<and> snd (fst (hd rtns)) = 255
        then Goto (snd (hd rtns))
      else
        let sd = (\<Sum>rtn \<leftarrow> rtns. 1 + int (unat (snd (fst rtn))) - int (unat (fst (fst rtn)))) in
        if sd \<le> 2 * int (length rtns) then transitionAsCharSwitch s
        else transitionAsRangeChecks rtns)"

fun evalCond :: "rchar \<Rightarrow> dfa_cond \<Rightarrow> bool" where
  "evalCond c CondTrue = True"
| "evalCond c (CondLe e) = (c \<le> e)"
| "evalCond c (CondEq e) = (c = e)"
| "evalCond c (CondBetween b e) = (b \<le> c \<and> c \<le> e)"

fun evalCode :: "rchar \<Rightarrow> dfa_code \<Rightarrow> nat option" where
  "evalCode c Default = None"
| "evalCode c (Goto s) = Some s"
| "evalCode c (CharSwitch cs) = map_of cs c"
| "evalCode c (IfCond cnd s e) = (if evalCond c cnd then Some s else evalCode c e)"

section \<open>The function of an automaton\<close>

text \<open>
  \<open>makeExprDFAFunc\<close> generates \<open>F(cap, cs, i, e, s)\<close>: in state \<open>s\<close> it stores the position \<open>i\<close> in
  the begin and end fields of the captures marked there, returns the accept value at the end
  of the input and otherwise jumps by the next character. The part of the input from \<open>i\<close> to
  \<open>e\<close> is a list; a field of the capture buffer is named by expression, variable and
  begin (\<open>False\<close>) or end (\<open>True\<close>).
\<close>

type_synonym capture = "nat \<times> string \<times> bool \<rightharpoonup> nat"

definition markCaptures :: "dfa_state \<Rightarrow> nat \<Rightarrow> capture \<Rightarrow> capture" where
  "markCaptures st i cap =
     (\<lambda>(r, v, isEnd). if (r, v) \<in> (if isEnd then d_ends st else d_begins st) then Some i
                      else cap (r, v, isEnd))"

fun dfaFunc :: "dfa \<Rightarrow> capture \<Rightarrow> nat \<Rightarrow> rchar list \<Rightarrow> nat \<Rightarrow> capture \<times> nat option" where
  "dfaFunc dfa cap i cs s =
     (if length dfa \<le> s then (cap, None)
      else
        let cap' = markCaptures (dfa ! s) i cap in
        (case cs of
           [] \<Rightarrow> (cap', d_acc (dfa ! s))
         | c # cs' \<Rightarrow>
             (case evalCode c (transitionMapping (dfa ! s)) of
                None \<Rightarrow> (cap', None)
              | Some t \<Rightarrow> dfaFunc dfa cap' (i + 1) cs' t)))"

section \<open>Merging results\<close>

datatype match_error = DfaError dfa_error | InvalidStateMapping | NoFixpoint

text \<open>
  \<open>results\<close> numbers the sets of expressions met so far; \<open>results.size()\<close> is the length of the
  association list.
\<close>

fun mergeStates :: "rstates \<Rightarrow> dfa \<Rightarrow> (nat set \<times> nat) list \<Rightarrow> rstates \<Rightarrow> match_error + dfa \<times> rstates" where
  "mergeStates fstates [] results rs = Inr ([], rs)"
| "mergeStates fstates (s # ss) results rs =
     (let s1 = s\<lparr>d_chars := rm_compact (d_chars s)\<rparr> in
      case d_acc s of
        None \<Rightarrow> map_sum id (map_prod (Cons s1) id) (mergeStates fstates ss results rs)
      | Some a \<Rightarrow>
          (case fstates a of
             None \<Rightarrow> Inl InvalidStateMapping
           | Some X \<Rightarrow>
               (case map_of results X of
                  Some n \<Rightarrow>
                    map_sum id (map_prod (Cons (s1\<lparr>d_acc := Some n\<rparr>)) id) (mergeStates fstates ss results rs)
                | None \<Rightarrow>
                    (let ns = length results in
                     map_sum id (map_prod (Cons (s1\<lparr>d_acc := Some ns\<rparr>)) id)
                       (mergeStates fstates ss ((X, ns) # results) (rs(ns \<mapsto> X)))))))"

definition mergeCharRangesAndEqResults :: "dfa \<Rightarrow> rstates \<Rightarrow> match_error + dfa \<times> rstates" where
  "mergeCharRangesAndEqResults dfa fstates = mergeStates fstates dfa [] Map.empty"

section \<open>Minimisation\<close>

definition sameShape :: "dfa \<Rightarrow> bit_table \<Rightarrow> nat \<Rightarrow> nat \<Rightarrow> bool" where
  "sameShape dfa t s0 s1 \<longleftrightarrow>
     d_acc (dfa ! s0) = d_acc (dfa ! s1) \<and>
     d_begins (dfa ! s0) = d_begins (dfa ! s1) \<and> d_ends (dfa ! s0) = d_ends (dfa ! s1) \<and>
     list_all2 (\<lambda>e0 e1. fst e0 = fst e1 \<and> bt_get t (snd e0) (snd e1))
       (rm_mapping (d_chars (dfa ! s0))) (rm_mapping (d_chars (dfa ! s1)))"

definition statePairs :: "nat \<Rightarrow> (nat \<times> nat) list" where
  "statePairs n = concat (map (\<lambda>s0. map (Pair s0) [0..<s0]) [0..<n])"

definition eqStep :: "dfa \<Rightarrow> nat \<times> nat \<Rightarrow> bit_table \<times> bool \<Rightarrow> bit_table \<times> bool" where
  "eqStep dfa p tu =
     (if bt_get (fst tu) (fst p) (snd p) then tu
      else if sameShape dfa (fst tu) (fst p) (snd p)
        then (bt_set (fst p) (snd p) True (fst tu), True)
      else tu)"

definition eqPass :: "dfa \<Rightarrow> bit_table \<Rightarrow> bit_table \<times> bool" where
  "eqPass dfa t = foldl (\<lambda>tu p. eqStep dfa p tu) (t, False) (statePairs (length dfa))"

definition eqInit :: "nat \<Rightarrow> bit_table" where
  "eqInit n = foldl (\<lambda>t s. bt_set s s True t) (bt_new n n False) [0..<n]"

definition eqLoop :: "dfa \<Rightarrow> (bit_table \<times> bool) option" where
  "eqLoop dfa = while_option snd (\<lambda>tu. eqPass dfa (fst tu)) (eqInit (length dfa), True)"

definition findEquivStates :: "dfa \<Rightarrow> (nat \<times> nat) list option" where
  "findEquivStates dfa =
     map_option
       (\<lambda>tu. foldl
          (\<lambda>r (s0, s1).
             if bt_get (fst tu) s0 s1
             then AList.update s0 (case map_of r s1 of None \<Rightarrow> s1 | Some s1t \<Rightarrow> s1t) r
             else r)
          [] (statePairs (length dfa)))
       (eqLoop dfa)"

fun shiftStates :: "nat \<Rightarrow> nat list \<Rightarrow> nat \<Rightarrow> (nat \<times> nat) list" where
  "shiftStates n [] accShift = []"
| "shiftStates n (k # ks) accShift =
     (let s1 = (case ks of [] \<Rightarrow> n | k' # _ \<Rightarrow> k') in
      map (\<lambda>s. (s, s - (accShift + 1))) [k + 1..<s1] @ shiftStates n ks (accShift + 1))"

definition newTarget :: "(nat \<times> nat) list \<Rightarrow> (nat \<times> nat) list \<Rightarrow> nat \<Rightarrow> nat" where
  "newTarget eqs shifted t =
     (let tgt = (case map_of eqs t of None \<Rightarrow> t | Some t' \<Rightarrow> t')
      in case map_of shifted tgt of None \<Rightarrow> tgt | Some t' \<Rightarrow> t')"

definition patchState :: "(nat \<times> nat) list \<Rightarrow> (nat \<times> nat) list \<Rightarrow> dfa_state \<Rightarrow> dfa_state" where
  "patchState eqs shifted sd =
     sd\<lparr>d_chars :=
       foldl (\<lambda>m (r, t). let stgt = newTarget eqs shifted t in if stgt \<noteq> t then rm_insert r stgt m else m)
         (d_chars sd) (rm_mapping (d_chars sd))\<rparr>"

definition removeEquivStates :: "dfa \<Rightarrow> (nat \<times> nat) list \<Rightarrow> dfa" where
  "removeEquivStates dfa eqs =
     (let shifted = shiftStates (length dfa) (sorted_list_of_set (fst ` set eqs)) 0
      in map (\<lambda>s. patchState eqs shifted (dfa ! s))
           (filter (\<lambda>s. map_of eqs s = None) [0..<length dfa]))"

section \<open>The whole construction\<close>

definition makeRegexDFA :: "regex list \<Rightarrow> match_error + dfa \<times> rstates" where
  "makeRegexDFA rs =
     (case disambiguate (makeNFA rs) of
        Inl e \<Rightarrow> Inl (DfaError e)
      | Inr (dfa, fstates) \<Rightarrow>
          (case mergeCharRangesAndEqResults dfa fstates of
             Inl e \<Rightarrow> Inl e
           | Inr (dfa1, rstates) \<Rightarrow>
               (case findEquivStates dfa1 of
                  None \<Rightarrow> Inl NoFixpoint
                | Some eqs \<Rightarrow> Inr (removeEquivStates dfa1 eqs, rstates))))"

record cregexes =
  cr_dfa :: dfa
  cr_captureVarsAt :: "nat \<rightharpoonup> string list"
  cr_rstates :: rstates

definition makeRegexFn :: "regex list \<Rightarrow> match_error + cregexes" where
  "makeRegexFn rs =
     map_sum id
       (\<lambda>(dfa, rstates).
          \<lparr>cr_dfa = dfa,
           cr_captureVarsAt = (\<lambda>i. if i < length rs then Some (bindingNames (rs ! i)) else None),
           cr_rstates = rstates\<rparr>)
       (makeRegexDFA rs)"

definition runRegexFn :: "cregexes \<Rightarrow> rchar list \<Rightarrow> capture \<times> nat option" where
  "runRegexFn cr w = dfaFunc (cr_dfa cr) Map.empty 0 w 0"

end
