(* ===== verification/Regex_Equiv.thy ===== *)
theory Regex_Equiv
  imports Regex_Match
begin

text \<open>
  Facts about the automaton transformations of \<^verbatim>\<open>lib/hobbes/lang/pat/regex.C\<close> that
  \<^theory_text>\<open>Regex_Match\<close> models: the generated code takes the transitions of the map, merging results
  renumbers accept values without losing any, and minimisation keeps the captures and the
  result of every run.
\<close>

section \<open>The generated code\<close>

lemma charInRange_correct: "evalCond c (charInRange r) \<longleftrightarrow> in_range c r" if "valid_range r"
proof -
  have "c \<le> 255" for c :: rchar by (simp add: word_le_nat_alt byte_bound less_Suc_eq_le [symmetric])
  with that show ?thesis by (auto simp: charInRange_def in_range_def valid_range_def)
qed

lemma rangeChecks_correct:
  "rm_ok m \<Longrightarrow> evalCode c (transitionAsRangeChecks m) = rm_lookup m c"
proof (induction m)
  case Nil
  then show ?case by (simp add: transitionAsRangeChecks_def)
next
  case (Cons e m)
  obtain r v where e: "e = (r, v)" by (cases e)
  with Cons show ?case
    by (simp add: transitionAsRangeChecks_def charInRange_correct rm_lookup_Cons)
qed

lemma charSwitch_correct:
  assumes "rm_ok (d_chars s)"
  shows "evalCode c (transitionAsCharSwitch s) = rm_lookup (d_chars s) c"
proof -
  have "map_of (map (\<lambda>k. (k, f k)) ks) c = (if c \<in> set ks then Some (f c) else None)"
    for f :: "rchar \<Rightarrow> nat" and ks
    by (induction ks) auto
  then show ?thesis
    using keys_eq [OF assms] by (auto simp: transitionAsCharSwitch_def)
qed

lemma transition_lookup:
  assumes "rm_ok (d_chars s)"
  shows "evalCode c (transitionMapping s) = rm_lookup (d_chars s) c"
proof (cases "length (d_chars s) = 1 \<and> fst (fst (hd (d_chars s))) = 0 \<and> snd (fst (hd (d_chars s))) = 255")
  case True
  then obtain r v where m: "d_chars s = [(r, v)]" by (metis length_Suc_conv length_0_conv One_nat_def surj_pair)
  have "c \<le> 255" by (simp add: word_le_nat_alt byte_bound less_Suc_eq_le [symmetric])
  then have "in_range c r" using True m by (simp add: in_range_def)
  then show ?thesis
    using True m assms by (simp add: transitionMapping_def rm_mapping_def rm_lookup_Cons)
next
  case False
  then show ?thesis
    using charSwitch_correct [OF assms, of c] rangeChecks_correct [OF assms, of c]
    by (auto simp: transitionMapping_def rm_mapping_def Let_def)
qed

text \<open>A well-formed automaton: well-formed transition maps with targets in the automaton.\<close>

definition dfa_wf :: "dfa \<Rightarrow> bool" where
  "dfa_wf dfa \<longleftrightarrow> (\<forall>s < length dfa. rm_ok (d_chars (dfa ! s)) \<and>
     (\<forall>e \<in> set (d_chars (dfa ! s)). snd e < length dfa))"

lemma rm_lookup_mem: "rm_lookup m c = Some t \<Longrightarrow> t \<in> snd ` set m"
  by (auto simp: rm_lookup_def Let_def split: if_splits)

lemma dfa_wfD:
  assumes "dfa_wf dfa" "s < length dfa"
  shows "rm_ok (d_chars (dfa ! s))" "rm_lookup (d_chars (dfa ! s)) c = Some t \<Longrightarrow> t < length dfa"
  using assms rm_lookup_mem by (fastforce simp: dfa_wf_def)+

lemmas [simp del] = dfaFunc.simps

lemma dfaFunc_Nil [simp]:
  "s < length dfa \<Longrightarrow> dfaFunc dfa cap i [] s = (markCaptures (dfa ! s) i cap, d_acc (dfa ! s))"
  by (simp add: dfaFunc.simps)

lemma dfaFunc_Cons [simp]:
  "dfa_wf dfa \<Longrightarrow> s < length dfa \<Longrightarrow> dfaFunc dfa cap i (c # w) s =
     (case rm_lookup (d_chars (dfa ! s)) c of
        None \<Rightarrow> (markCaptures (dfa ! s) i cap, None)
      | Some t \<Rightarrow> dfaFunc dfa (markCaptures (dfa ! s) i cap) (i + 1) w t)"
  by (simp add: dfaFunc.simps Let_def transition_lookup dfa_wfD)

lemma dfaFunc_run:
  "dfa_wf dfa \<Longrightarrow> s < length dfa \<Longrightarrow> snd (dfaFunc dfa cap i w s) = dfaRun dfa s w"
  by (induction w arbitrary: cap i s) (auto dest: dfa_wfD(2) split: option.split)

section \<open>Merging of results\<close>

definition merged_state :: "rstates \<Rightarrow> rstates \<Rightarrow> dfa_state \<Rightarrow> dfa_state \<Rightarrow> bool" where
  "merged_state fstates rs s s' \<longleftrightarrow>
     d_chars s' = rm_compact (d_chars s) \<and> d_begins s' = d_begins s \<and> d_ends s' = d_ends s \<and>
     (case d_acc s of
        None \<Rightarrow> d_acc s' = None
      | Some a \<Rightarrow> (\<exists>a' X. d_acc s' = Some a' \<and> fstates a = Some X \<and> rs a' = Some X))"

definition results_ok :: "(nat set \<times> nat) list \<Rightarrow> rstates \<Rightarrow> bool" where
  "results_ok results rs \<longleftrightarrow> (\<forall>X n. map_of results X = Some n \<longleftrightarrow> rs n = Some X) \<and>
     (\<forall>n. rs n \<noteq> None \<longleftrightarrow> n < length results)"

lemma results_ok_new:
  assumes "results_ok results rs" "map_of results X = None"
  shows "results_ok ((X, length results) # results) (rs(length results \<mapsto> X))"
proof -
  have "rs n \<noteq> Some X" for n using assms unfolding results_ok_def by (metis option.distinct(1))
  moreover have "rs (length results) = None" using assms(1) unfolding results_ok_def by blast
  ultimately show ?thesis using assms unfolding results_ok_def
    by (auto simp: less_Suc_eq)
qed

lemma results_okD: "results_ok results rs \<Longrightarrow> map_of results X = Some n \<Longrightarrow> rs n = Some X"
  by (simp add: results_ok_def)

lemma results_ok_inj: "results_ok results rs \<Longrightarrow> rs n = Some X \<Longrightarrow> rs m = Some X \<Longrightarrow> n = m"
  unfolding results_ok_def by (metis option.inject)

lemma results_ok_fresh: "results_ok results rs \<Longrightarrow> rs (length results) = None"
  unfolding results_ok_def by blast

lemma mergeStates_spec:
  assumes "\<forall>s \<in> set ss. \<forall>a. d_acc s = Some a \<longrightarrow> fstates a \<noteq> None" "results_ok results rs"
  shows "\<exists>ss' rs' results'. mergeStates fstates ss results rs = Inr (ss', rs') \<and> rs \<subseteq>\<^sub>m rs' \<and>
    results_ok results' rs' \<and> list_all2 (merged_state fstates rs') ss ss'"
  using assms
proof (induction ss arbitrary: results rs)
  case (Cons s ss)
  have fs: "\<forall>s \<in> set ss. \<forall>a. d_acc s = Some a \<longrightarrow> fstates a \<noteq> None"
    using Cons.prems(1) by (meson list.set_intros(2))
  show ?case
  proof (cases "d_acc s")
    case None
    from Cons.IH [OF fs Cons.prems(2)] obtain ss' rs' results' where
      "mergeStates fstates ss results rs = Inr (ss', rs')" "rs \<subseteq>\<^sub>m rs'" "results_ok results' rs'"
      "list_all2 (merged_state fstates rs') ss ss'" by blast
    then show ?thesis using None by (auto simp: merged_state_def [of _ _ s])
  next
    case (Some a)
    then obtain X where X: "fstates a = Some X" using Cons.prems(1) by (meson list.set_intros(1) not_None_eq)
    show ?thesis
    proof (cases "map_of results X")
      case None
      from Cons.IH [OF fs results_ok_new [OF Cons.prems(2) None]] obtain ss' rs' results' where
        r: "mergeStates fstates ss ((X, length results) # results) (rs(length results \<mapsto> X)) = Inr (ss', rs')"
        "rs(length results \<mapsto> X) \<subseteq>\<^sub>m rs'" "results_ok results' rs'"
        "list_all2 (merged_state fstates rs') ss ss'" by blast
      have "rs' (length results) = Some X" using map_leD [OF r(2), of "length results" X] by simp
      moreover have "rs \<subseteq>\<^sub>m rs'"
        using r(2) results_ok_fresh [OF Cons.prems(2)] unfolding map_le_def
        by (metis domIff fun_upd_apply dom_fun_upd insertCI option.distinct(1))
      ultimately show ?thesis using Some X None r by (auto simp: merged_state_def [of _ _ s])
    next
      case n: (Some n)
      from Cons.IH [OF fs Cons.prems(2)] obtain ss' rs' results' where
        r: "mergeStates fstates ss results rs = Inr (ss', rs')" "rs \<subseteq>\<^sub>m rs'" "results_ok results' rs'"
        "list_all2 (merged_state fstates rs') ss ss'" by blast
      have "rs' n = Some X" by (rule map_leD [OF r(2) results_okD [OF Cons.prems(2) n]])
      then show ?thesis using Some X n r by (auto simp: merged_state_def [of _ _ s])
    qed
  qed
qed (auto)

section \<open>Equivalent states\<close>

text \<open>Two states are equivalent when the generated function behaves alike from them.\<close>

definition same_runs :: "dfa \<Rightarrow> nat \<Rightarrow> nat \<Rightarrow> bool" where
  "same_runs dfa s t \<longleftrightarrow> (\<forall>cap i w. dfaFunc dfa cap i w s = dfaFunc dfa cap i w t)"

lemma same_runs_refl [simp]: "same_runs dfa s s"
  by (simp add: same_runs_def)

lemma same_runs_trans: "same_runs dfa s t \<Longrightarrow> same_runs dfa t u \<Longrightarrow> same_runs dfa s u"
  by (simp add: same_runs_def)

abbreviation bt_dims :: "bit_table \<Rightarrow> nat \<times> nat" where
  "bt_dims t \<equiv> (bt_rowc t, bt_colc t)"

definition eq_table :: "dfa \<Rightarrow> bit_table \<Rightarrow> bool" where
  "eq_table dfa t \<longleftrightarrow> bt_ok t \<and> bt_dims t = (length dfa, length dfa)"

definition eq_sound :: "dfa \<Rightarrow> bit_table \<Rightarrow> bool" where
  "eq_sound dfa t \<longleftrightarrow> eq_table dfa t \<and> (\<forall>s0 s1. (s0, s1) \<in> bt.flags t \<longrightarrow> same_runs dfa s0 s1)"

lemma in_flags:
  "eq_table dfa t \<Longrightarrow> r < length dfa \<Longrightarrow> c < length dfa \<Longrightarrow> bt_get t r c \<longleftrightarrow> (r, c) \<in> bt.flags t"
  by (auto simp: eq_table_def bt.flags_def)

lemma flags_bound: "eq_table dfa t \<Longrightarrow> bt.flags t \<subseteq> {..<length dfa} \<times> {..<length dfa}"
  by (auto simp: eq_table_def bt.flags_def)

lemma eq_table_set:
  assumes "eq_table dfa t" "r < length dfa" "c < length dfa"
  shows "eq_table dfa (bt_set r c True t)"
    and "bt.flags (bt_set r c True t) = insert (r, c) (bt.flags t)"
  using assms by (auto simp: eq_table_def bt.flags_set)

lemma rm_find_keys:
  fixes m0 m1 :: "nat rmap"
  shows "map fst m0 = map fst m1 \<Longrightarrow> rm_find c m0 = rm_find c m1"
proof (induction m0 arbitrary: m1)
  case (Cons e m0)
  then obtain e' m1' where m1: "m1 = e' # m1'" by (cases m1) auto
  have "fst e = fst e'" "map fst m0 = map fst m1'" using Cons.prems m1 by simp_all
  moreover have "length m0 = length m1'" using calculation(2) by (metis length_map)
  ultimately show ?case using Cons.IH [of m1'] m1 by (cases e; cases e') simp
qed simp

lemma same_keys_lookup:
  fixes m0 m1 :: "nat rmap"
  assumes "list_all2 (\<lambda>e0 e1. fst e0 = fst e1 \<and> P (snd e0) (snd e1)) m0 m1"
  shows "rel_option P (rm_lookup m0 c) (rm_lookup m1 c)"
proof -
  have "map fst m0 = map fst m1"
    using assms by (induction rule: list_all2_induct) auto
  then have "rm_find c m0 = rm_find c m1" by (rule rm_find_keys)
  then show ?thesis using list_all2_nthD [OF assms] list_all2_lengthD [OF assms]
    by (simp add: rm_lookup_def Let_def)
qed

lemma sameShape_runs:
  assumes "dfa_wf dfa" "eq_sound dfa t" "s0 < length dfa" "s1 < length dfa" "sameShape dfa t s0 s1"
  shows "same_runs dfa s0 s1"
  unfolding same_runs_def
proof (intro allI)
  fix cap i w
  have marks: "markCaptures (dfa ! s0) = markCaptures (dfa ! s1)"
    using assms(5) by (simp add: sameShape_def markCaptures_def fun_eq_iff)
  show "dfaFunc dfa cap i w s0 = dfaFunc dfa cap i w s1"
  proof (cases w)
    case Nil
    then show ?thesis using assms marks by (simp add: sameShape_def)
  next
    case (Cons c w')
    have "rel_option (bt_get t) (rm_lookup (d_chars (dfa ! s0)) c) (rm_lookup (d_chars (dfa ! s1)) c)"
      using assms(5) by (intro same_keys_lookup) (simp add: sameShape_def rm_mapping_def)
    then consider "rm_lookup (d_chars (dfa ! s0)) c = None" "rm_lookup (d_chars (dfa ! s1)) c = None"
      | t0 t1 where "rm_lookup (d_chars (dfa ! s0)) c = Some t0"
        "rm_lookup (d_chars (dfa ! s1)) c = Some t1" "bt_get t t0 t1"
      by (cases rule: option.rel_cases) auto
    then show ?thesis
    proof cases
      case 1
      then show ?thesis using assms Cons marks by simp
    next
      case 2
      have "(t0, t1) \<in> bt.flags t"
        using 2 dfa_wfD(2) [OF assms(1)] assms(2,3,4) in_flags [of dfa t t0 t1]
        by (auto simp: eq_sound_def)
      then have "same_runs dfa t0 t1" using assms(2) by (simp add: eq_sound_def)
      then show ?thesis using assms Cons marks 2 by (simp add: same_runs_def)
    qed
  qed
qed

lemma set_statePairs: "set (statePairs n) = {(s0, s1). s1 < s0 \<and> s0 < n}"
  by (auto simp: statePairs_def)

text \<open>A pass keeps the table sound and the flags it had; it reports a change only when it set one.\<close>

definition grown :: "dfa \<Rightarrow> bit_table \<times> bool \<Rightarrow> bit_table \<times> bool \<Rightarrow> bool" where
  "grown dfa tu tu' \<longleftrightarrow> eq_table dfa (fst tu') \<and> bt.flags (fst tu) \<subseteq> bt.flags (fst tu') \<and>
     (snd tu \<longrightarrow> snd tu') \<and> (snd tu' \<longrightarrow> snd tu \<or> bt.flags (fst tu) \<noteq> bt.flags (fst tu'))"

lemma grown_refl: "eq_table dfa (fst tu) \<Longrightarrow> grown dfa tu tu"
  by (simp add: grown_def)

lemma grown_trans: "grown dfa a b \<Longrightarrow> grown dfa b c \<Longrightarrow> grown dfa a c"
  unfolding grown_def by blast

lemma eqStep_grown:
  assumes "eq_table dfa (fst tu)" "fst p < length dfa" "snd p < length dfa"
  shows "grown dfa tu (eqStep dfa p tu)"
  using assms in_flags [OF assms] by (auto simp: eqStep_def grown_def eq_table_set)

lemma eqStep_sound:
  assumes "dfa_wf dfa" "eq_sound dfa (fst tu)" "fst p < length dfa" "snd p < length dfa"
  shows "eq_sound dfa (fst (eqStep dfa p tu))"
proof -
  have t: "eq_table dfa (fst tu)" using assms(2) by (simp add: eq_sound_def)
  show ?thesis
    using assms(2) sameShape_runs [OF assms] eq_table_set [OF t assms(3,4)]
    by (auto simp: eqStep_def eq_sound_def)
qed

lemma eqSteps:
  assumes "\<forall>p \<in> set ps. fst p < length dfa \<and> snd p < length dfa"
  shows "eq_table dfa (fst tu) \<Longrightarrow> grown dfa tu (foldl (\<lambda>tu p. eqStep dfa p tu) tu ps)"
    and "dfa_wf dfa \<Longrightarrow> eq_sound dfa (fst tu) \<Longrightarrow>
      eq_sound dfa (fst (foldl (\<lambda>tu p. eqStep dfa p tu) tu ps))"
  using assms
proof (induction ps arbitrary: tu)
  case (Cons p ps)
  {
    case 1
    have "grown dfa tu (eqStep dfa p tu)" using 1 by (intro eqStep_grown) simp_all
    moreover have "grown dfa (eqStep dfa p tu) (foldl (\<lambda>tu p. eqStep dfa p tu) (eqStep dfa p tu) ps)"
      using calculation 1(2) by (intro Cons.IH(1)) (simp_all add: grown_def)
    ultimately show ?case using grown_trans by simp
  next
    case 2
    then show ?case using Cons.IH(2) [of "eqStep dfa p tu"] eqStep_sound [of dfa tu p] by simp
  }
qed (simp_all add: grown_refl)

lemma eqPass_grown: "eq_table dfa t \<Longrightarrow> grown dfa (t, False) (eqPass dfa t)"
  unfolding eqPass_def by (rule eqSteps(1)) (auto simp: set_statePairs)

lemma eqPass_sound: "dfa_wf dfa \<Longrightarrow> eq_sound dfa t \<Longrightarrow> eq_sound dfa (fst (eqPass dfa t))"
  unfolding eqPass_def by (rule eqSteps(2)) (auto simp: set_statePairs)

lemma eqInit_sound: "eq_sound dfa (eqInit (length dfa))"
proof -
  let ?t = "bt_new (length dfa) (length dfa) False"
  have "bt.flags ?t = {}" by (auto simp: bt.flags_def bt_get_new)
  then show ?thesis using bt.flags_diagonal [of ?t "length dfa" "length dfa"]
    by (auto simp: eqInit_def eq_sound_def eq_table_def)
qed

lemma eqLoop_terminates: "\<exists>tu. eqLoop dfa = Some tu"
  unfolding eqLoop_def
proof (rule measure_while_option_Some [where P = "\<lambda>tu. eq_table dfa (fst tu)"
      and f = "\<lambda>tu. 2 * card ({..<length dfa} \<times> {..<length dfa} - bt.flags (fst tu)) + (if snd tu then 1 else 0)"])
  show "eq_table dfa (fst (eqInit (length dfa), True))"
    using eqInit_sound by (simp add: eq_sound_def)
next
  fix tu assume P: "eq_table dfa (fst tu)" "snd tu"
  let ?D = "{..<length dfa} \<times> {..<length dfa}"
  have g: "grown dfa (fst tu, False) (eqPass dfa (fst tu))" by (rule eqPass_grown [OF P(1)])
  let ?t' = "eqPass dfa (fst tu)"
  have b: "bt.flags (fst tu) \<subseteq> ?D" "bt.flags (fst ?t') \<subseteq> ?D"
    using P(1) g flags_bound by (auto simp: grown_def)
  have le: "card (?D - bt.flags (fst ?t')) \<le> card (?D - bt.flags (fst tu))"
    using g by (intro card_mono) (auto simp: grown_def)
  have "card (?D - bt.flags (fst ?t')) < card (?D - bt.flags (fst tu))" if "snd ?t'"
    using g b that by (intro psubset_card_mono) (auto simp: grown_def)
  then show "eq_table dfa (fst ?t') \<and>
      2 * card (?D - bt.flags (fst ?t')) + (if snd ?t' then 1 else 0)
      < 2 * card (?D - bt.flags (fst tu)) + (if snd tu then 1 else 0)"
    using g le P(2) by (cases "snd ?t'") (auto simp: grown_def)
qed

lemma eqLoop_sound:
  assumes "dfa_wf dfa" "eqLoop dfa = Some tu"
  shows "eq_sound dfa (fst tu)"
  by (rule while_option_rule [OF _ assms(2) [unfolded eqLoop_def], where P = "\<lambda>tu. eq_sound dfa (fst tu)"])
    (simp_all add: eqPass_sound [OF assms(1)] eqInit_sound)

section \<open>The substitution of states\<close>

text \<open>
  A removed state is replaced by an equivalent one below it that is kept.
\<close>

definition subst_ok :: "dfa \<Rightarrow> (nat \<times> nat) list \<Rightarrow> bool" where
  "subst_ok dfa r \<longleftrightarrow> (\<forall>s t. map_of r s = Some t \<longrightarrow>
     t < s \<and> s < length dfa \<and> same_runs dfa s t \<and> map_of r t = None)"

lemma subst_okD:
  "subst_ok dfa r \<Longrightarrow> map_of r s = Some t \<Longrightarrow>
    t < s \<and> s < length dfa \<and> same_runs dfa s t \<and> map_of r t = None"
  by (simp add: subst_ok_def)

lemma subst_ok_update:
  assumes "subst_ok dfa r" "s1 < s0" "s0 < length dfa" "same_runs dfa s0 s1"
    and "\<forall>s. map_of r s \<noteq> None \<longrightarrow> s \<le> s0"
  shows "subst_ok dfa (AList.update s0 (case map_of r s1 of None \<Rightarrow> s1 | Some s1t \<Rightarrow> s1t) r)"
proof -
  let ?t = "case map_of r s1 of None \<Rightarrow> s1 | Some s1t \<Rightarrow> s1t"
  have "?t < s0 \<and> same_runs dfa s0 ?t \<and> map_of r ?t = None"
    using subst_okD [OF assms(1), of s1] assms(2,4)
    by (auto split: option.split intro: same_runs_trans)
  moreover have "t < s0" if "map_of r s = Some t" for s t
  proof -
    have "s \<le> s0" using assms(5) that by (metis option.distinct(1))
    then show ?thesis using subst_okD [OF assms(1) that] by simp
  qed
  ultimately show ?thesis
    using subst_okD [OF assms(1)] assms(3)
    unfolding subst_ok_def by (auto simp: update_conv')
qed

lemma substitution:
  assumes "eq_sound dfa t" "set ps \<subseteq> {(s0, s1). s1 < s0 \<and> s0 < length dfa}" "sorted (map fst ps)"
    "subst_ok dfa r" "\<forall>s. map_of r s \<noteq> None \<longrightarrow> (\<forall>p \<in> set ps. s \<le> fst p)"
  shows "subst_ok dfa (foldl (\<lambda>r (s0, s1).
             if bt_get t s0 s1
             then AList.update s0 (case map_of r s1 of None \<Rightarrow> s1 | Some s1t \<Rightarrow> s1t) r
             else r) r ps)"
  using assms(2-5)
proof (induction ps arbitrary: r)
  case (Cons p ps)
  obtain s0 s1 where p: "p = (s0, s1)" by (cases p)
  have s: "s1 < s0" "s0 < length dfa" "set ps \<subseteq> {(s0, s1). s1 < s0 \<and> s0 < length dfa}"
    "sorted (map fst ps)" "\<forall>p \<in> set ps. s0 \<le> fst p" "\<forall>s. map_of r s \<noteq> None \<longrightarrow> s \<le> s0"
    "\<forall>s. map_of r s \<noteq> None \<longrightarrow> (\<forall>p \<in> set ps. s \<le> fst p)"
    using Cons.prems p by auto
  let ?r = "AList.update s0 (case map_of r s1 of None \<Rightarrow> s1 | Some s1t \<Rightarrow> s1t) r"
  show ?case
  proof (cases "bt_get t s0 s1")
    case True
    have "eq_table dfa t" using assms(1) by (simp add: eq_sound_def)
    then have "same_runs dfa s0 s1"
      using True s(1,2) assms(1) in_flags [of dfa t s0 s1] by (simp add: eq_sound_def)
    then have "subst_ok dfa ?r" using subst_ok_update [OF Cons.prems(3) s(1,2) _ s(6)] by simp
    moreover have "\<forall>s. map_of ?r s \<noteq> None \<longrightarrow> (\<forall>p \<in> set ps. s \<le> fst p)"
      using s(5,7) by (simp add: update_conv')
    ultimately show ?thesis using Cons.IH [OF s(3,4)] True p by simp
  next
    case False
    then show ?thesis using Cons.IH [OF s(3,4) Cons.prems(3) s(7)] p by simp
  qed
qed simp

lemma statePairs_Suc: "statePairs (Suc n) = statePairs n @ map (Pair n) [0..<n]"
  by (simp add: statePairs_def)

lemma sorted_statePairs: "sorted (map fst (statePairs n))"
proof (induction n)
  case (Suc n)
  have "map fst (map (Pair n) xs) = replicate (length xs) n" for xs :: "nat list"
    by (induction xs) simp_all
  moreover have "fst p \<le> n" if "p \<in> set (statePairs n)" for p
    using that by (auto simp: set_statePairs)
  ultimately show ?case using Suc by (auto simp: statePairs_Suc sorted_append)
qed (simp add: statePairs_def)

lemma findEquivStates_ok:
  assumes "dfa_wf dfa" "findEquivStates dfa = Some eqs"
  shows "subst_ok dfa eqs"
proof -
  obtain tu where tu: "eqLoop dfa = Some tu" using eqLoop_terminates by blast
  have "subst_ok dfa []" by (simp add: subst_ok_def)
  with substitution [OF eqLoop_sound [OF assms(1) tu] _ sorted_statePairs, of "length dfa" "[]"]
  show ?thesis using assms(2) tu by (simp add: findEquivStates_def set_statePairs)
qed

section \<open>Renumbering\<close>

abbreviation kept :: "(nat \<times> nat) list \<Rightarrow> nat \<Rightarrow> bool" where
  "kept eqs s \<equiv> map_of eqs s = None"

definition ix :: "(nat \<times> nat) list \<Rightarrow> nat \<Rightarrow> nat" where
  "ix eqs s = length (filter (kept eqs) [0..<s])"

lemma upt_split: "s < n \<Longrightarrow> [0..<n] = [0..<s] @ s # [Suc s..<n]"
  by (metis le_add1 less_imp_add_positive plus_nat.add_0 upt_add_eq_append upt_conv_Cons zero_le)

lemma nth_kept:
  assumes "s < n" "kept eqs s"
  shows "filter (kept eqs) [0..<n] ! ix eqs s = s" "ix eqs s < length (filter (kept eqs) [0..<n])"
  using upt_split [OF assms(1)] assms(2) by (simp_all add: ix_def nth_append)

lemma shiftStates_lookup:
  assumes "sorted_wrt (<) ks" "\<forall>k \<in> set ks. k < n" "s \<notin> set ks" "s < n"
  shows "map_of (shiftStates n ks acc) s =
    (if filter (\<lambda>k. k < s) ks = [] then None else Some (s - (acc + length (filter (\<lambda>k. k < s) ks))))"
  using assms
proof (induction ks arbitrary: acc)
  case (Cons k ks)
  have here: "map_of (map (\<lambda>s. (s, s - d)) xs) s = (if s \<in> set xs then Some (s - d) else None)" for d xs
    by (induction xs) auto
  have above: "filter (\<lambda>k. k < s) ks = []" if "\<forall>k' \<in> set ks. s < k'"
    using that by (auto simp: filter_empty_conv)
  show ?case
  proof (cases ks)
    case Nil
    then show ?thesis using Cons.prems by (auto simp: here)
  next
    case (Cons k' ks')
    have s: "k < k'" "\<forall>x \<in> set ks'. k' < x" "s \<noteq> k" "s \<noteq> k'" using Cons.prems Cons by auto
    consider "s < k" | "k < s" "s < k'" | "k' < s" using s by linarith
    then show ?thesis
    proof cases
      case 1
      then have "\<forall>x \<in> set ks. s < x" using s Cons by auto
      then show ?thesis using 1 s Cons Cons.IH [of "acc + 1"] Cons.prems above by (simp add: here)
    next
      case 2
      then have "\<forall>x \<in> set ks. s < x" using s Cons by auto
      then show ?thesis using 2 Cons above by (simp add: here)
    next
      case 3
      then show ?thesis using s Cons Cons.IH [of "acc + 1"] Cons.prems
        by (auto simp: here map_add_def)
    qed
  qed
qed simp

lemma newTarget_ix:
  assumes "subst_ok dfa eqs" "t < length dfa"
  shows "newTarget eqs (shiftStates (length dfa) (sorted_list_of_set (fst ` set eqs)) 0) t =
    ix eqs (case map_of eqs t of None \<Rightarrow> t | Some t' \<Rightarrow> t')"
proof -
  define u where "u = (case map_of eqs t of None \<Rightarrow> t | Some t' \<Rightarrow> t')"
  have u: "kept eqs u" "u < length dfa"
    using subst_okD [OF assms(1), of t] assms(2) by (auto simp: u_def split: option.splits)
  let ?ks = "sorted_list_of_set (fst ` set eqs)"
  have dom: "set ?ks = dom (map_of eqs)" by (simp add: dom_map_of_conv_image_fst)
  have ks: "sorted_wrt (<) ?ks" "\<forall>k \<in> set ?ks. k < length dfa" "u \<notin> set ?ks"
  proof -
    show "sorted_wrt (<) ?ks" by simp
    show "\<forall>k \<in> set ?ks. k < length dfa" unfolding dom using subst_okD [OF assms(1)] by blast
    show "u \<notin> set ?ks" unfolding dom using u(1) by blast
  qed
  have "length (filter (\<lambda>k. k < u) ?ks) = card ({k. k < u} \<inter> set ?ks)"
    by (rule distinct_length_filter) simp
  also have "{k. k < u} \<inter> set ?ks = {k. \<not> kept eqs k} \<inter> set [0..<u]" unfolding dom by auto
  also have "card \<dots> = length (filter (\<lambda>k. \<not> kept eqs k) [0..<u])"
    by (rule distinct_length_filter [symmetric]) simp
  finally have "length (filter (\<lambda>k. k < u) ?ks) + ix eqs u = u"
    using sum_length_filter_compl [of "kept eqs" "[0..<u]"] by (simp add: ix_def)
  then show ?thesis
    using shiftStates_lookup [OF ks u(2), of 0] unfolding newTarget_def u_def [symmetric] Let_def
    by (cases "filter (\<lambda>k. k < u) ?ks = []") (auto simp del: map_of_eq_None_iff)
qed

section \<open>Minimisation keeps every run\<close>

lemma patched_lookup:
  assumes "rm_ok M" "rm_ok xs" "\<forall>(r, t) \<in> set xs. \<forall>c. in_range c r \<longrightarrow> rm_lookup M c = Some t"
  shows "rm_ok (foldl (\<lambda>m (r, t). if f t \<noteq> t then rm_insert r (f t) m else m) M xs) \<and>
    rm_lookup (foldl (\<lambda>m (r, t). if f t \<noteq> t then rm_insert r (f t) m else m) M xs) c =
      (case rm_lookup xs c of None \<Rightarrow> rm_lookup M c | Some t \<Rightarrow> Some (f t))"
  using assms
proof (induction xs arbitrary: M)
  case (Cons e xs)
  obtain r t where e: "e = (r, t)" by (cases e)
  have r: "valid_range r" "rm_ok xs" "\<forall>e \<in> set xs. snd r < fst (fst e)" using Cons.prems(2) e by simp_all
  let ?M = "if f t \<noteq> t then rm_insert r (f t) M else M"
  have ok: "rm_ok ?M" using Cons.prems(1) r(1) by (simp add: insert_ok)
  have look: "rm_lookup ?M c = (if in_range c r then Some (f t) else rm_lookup M c)" for c
    using Cons.prems(1,3) r(1) e by (auto simp: insert_lookup)
  have "\<not> in_range c r" if "(r', t') \<in> set xs" "in_range c r'" for r' t' c
    using r(3) that by (fastforce simp: in_range_def)
  then have rest: "\<forall>(r, t) \<in> set xs. \<forall>c. in_range c r \<longrightarrow> rm_lookup ?M c = Some t"
    using Cons.prems(3) look by fastforce
  have "rm_lookup xs c = None" if "in_range c r"
    using r(2,3) that by (intro rm_lookup_before) (auto simp: in_range_def)
  then show ?case
    using Cons.IH [OF ok r(2) rest] Cons.prems(2) e look by (auto simp: rm_lookup_Cons split: option.split)
qed simp

lemma patchState_lookup:
  assumes "rm_ok (d_chars sd)"
  shows "rm_ok (d_chars (patchState eqs sh sd))"
    and "rm_lookup (d_chars (patchState eqs sh sd)) c =
      map_option (newTarget eqs sh) (rm_lookup (d_chars sd) c)"
proof -
  have "\<forall>(r, t) \<in> set (d_chars sd). \<forall>c. in_range c r \<longrightarrow> rm_lookup (d_chars sd) c = Some t"
    using rm_lookup_Some_iff [OF assms] by blast
  from patched_lookup [OF assms assms this, of "newTarget eqs sh" c]
  show "rm_ok (d_chars (patchState eqs sh sd))"
    and "rm_lookup (d_chars (patchState eqs sh sd)) c =
      map_option (newTarget eqs sh) (rm_lookup (d_chars sd) c)"
    by (auto simp: patchState_def rm_mapping_def Let_def split: option.splits)
qed

abbreviation rep :: "(nat \<times> nat) list \<Rightarrow> nat \<Rightarrow> nat" where
  "rep eqs s \<equiv> (case map_of eqs s of None \<Rightarrow> s | Some t \<Rightarrow> t)"

lemma rep_kept:
  assumes "subst_ok dfa eqs" "s < length dfa"
  shows "kept eqs (rep eqs s)" "rep eqs s < length dfa" "same_runs dfa s (rep eqs s)"
  using subst_okD [OF assms(1), of s] assms(2) by (auto split: option.split)

lemma removed_nth:
  assumes "subst_ok dfa eqs" "s < length dfa" "kept eqs s"
  shows "removeEquivStates dfa eqs ! ix eqs s =
      patchState eqs (shiftStates (length dfa) (sorted_list_of_set (fst ` set eqs)) 0) (dfa ! s)"
    and "ix eqs s < length (removeEquivStates dfa eqs)"
  using nth_kept [OF assms(2,3)] by (simp_all add: removeEquivStates_def Let_def)

lemma patchState_rest:
  "d_acc (patchState eqs sh sd) = d_acc sd" "markCaptures (patchState eqs sh sd) = markCaptures sd"
  by (simp_all add: patchState_def markCaptures_def fun_eq_iff)

lemma removed_lookup:
  assumes "dfa_wf dfa" "subst_ok dfa eqs" "s < length dfa" "kept eqs s"
  shows "rm_ok (d_chars (removeEquivStates dfa eqs ! ix eqs s))"
    and "rm_lookup (d_chars (removeEquivStates dfa eqs ! ix eqs s)) c =
      map_option (\<lambda>t. ix eqs (rep eqs t)) (rm_lookup (d_chars (dfa ! s)) c)"
  using patchState_lookup [OF dfa_wfD(1) [OF assms(1,3)], of eqs] newTarget_ix [OF assms(2)]
    dfa_wfD(2) [OF assms(1,3), of c]
  by (auto simp: removed_nth [OF assms(2-4)] cong: map_option_cong)

lemma removed_wf:
  assumes "dfa_wf dfa" "subst_ok dfa eqs"
  shows "dfa_wf (removeEquivStates dfa eqs)"
  unfolding dfa_wf_def
proof (intro allI impI)
  fix k assume k: "k < length (removeEquivStates dfa eqs)"
  let ?ks = "filter (kept eqs) [0..<length dfa]"
  have kl: "k < length ?ks" using k by (simp add: removeEquivStates_def Let_def)
  then have "?ks ! k \<in> set ?ks" by (rule nth_mem)
  then have s: "?ks ! k < length dfa" "kept eqs (?ks ! k)" by auto
  have "distinct ?ks" by simp
  then have ixk: "ix eqs (?ks ! k) = k"
    using nth_kept [OF s] kl by (metis nth_eq_iff_index_eq)
  note look = removed_lookup [OF assms s, unfolded ixk]
  have "snd e < length (removeEquivStates dfa eqs)"
    if e: "e \<in> set (d_chars (removeEquivStates dfa eqs ! k))" for e
  proof -
    obtain r t where rt: "e = (r, t)" by (cases e)
    have "valid_range r" using ranges_sorted_valid look(1) e rt unfolding rm_ok_def by fastforce
    then have "rm_lookup (d_chars (removeEquivStates dfa eqs ! k)) (fst r) = Some t"
      using rm_lookup_Some_iff [OF look(1)] e rt by (force simp: in_range_def valid_range_def)
    then obtain u where u: "rm_lookup (d_chars (dfa ! (?ks ! k))) (fst r) = Some u" "t = ix eqs (rep eqs u)"
      unfolding look(2) by (cases "rm_lookup (d_chars (dfa ! (?ks ! k))) (fst r)") auto
    then have "u < length dfa" using dfa_wfD(2) [OF assms(1) s(1)] by blast
    from rep_kept [OF assms(2) this] removed_nth(2) [OF assms(2)] u(2) rt show ?thesis by auto
  qed
  with look(1) show "rm_ok (d_chars (removeEquivStates dfa eqs ! k)) \<and>
      (\<forall>e \<in> set (d_chars (removeEquivStates dfa eqs ! k)). snd e < length (removeEquivStates dfa eqs))"
    by blast
qed

lemma removed_runs:
  assumes "dfa_wf dfa" "subst_ok dfa eqs"
  shows "s < length dfa \<Longrightarrow>
    dfaFunc (removeEquivStates dfa eqs) cap i w (ix eqs (rep eqs s)) = dfaFunc dfa cap i w s"
proof (induction w arbitrary: s cap i)
  case Nil
  note k = rep_kept [OF assms(2) Nil]
  have "dfaFunc dfa cap i [] s = dfaFunc dfa cap i [] (rep eqs s)"
    using k(3) unfolding same_runs_def by blast
  then show ?case
    using removed_nth [OF assms(2) k(2,1)] k(2) by (simp add: patchState_rest)
next
  case (Cons c w)
  let ?s = "rep eqs s" and ?d = "removeEquivStates dfa eqs"
  note k = rep_kept [OF assms(2) Cons.prems]
  note n = removed_nth [OF assms(2) k(2,1)] and look = removed_lookup [OF assms k(2,1)]
  have marks: "markCaptures (?d ! ix eqs ?s) = markCaptures (dfa ! ?s)" by (simp add: n patchState_rest)
  have "dfaFunc ?d cap i (c # w) (ix eqs ?s) = dfaFunc dfa cap i (c # w) ?s"
    using Cons.IH dfa_wfD(2) [OF assms(1) k(2), of c]
    by (auto simp: dfaFunc_Cons [OF removed_wf [OF assms] n(2)] dfaFunc_Cons [OF assms(1) k(2)] look(2)
        marks split: option.split)
  also have "\<dots> = dfaFunc dfa cap i (c # w) s" using k(3) unfolding same_runs_def by simp
  finally show ?case .
qed

end
