(* ===== verification/Regex_Correct.thy ===== *)
theory Regex_Correct
  imports Regex_Equiv
begin

text \<open>
  What \<open>makeRegexFn\<close> of \<^verbatim>\<open>lib/hobbes/lang/pat/regex.C\<close> promises its caller, the match
  compiler: for a list of parsed expressions it produces a function and a table of results, such
  that running the function on an input reports the expressions that match it.
\<close>

section \<open>What the parser builds\<close>

lemma wf_anyOf: "\<forall>r \<in> set rs. wf_regex r \<Longrightarrow> wf_regex (anyOf rs)"
proof -
  have "wf_regex a \<Longrightarrow> \<forall>r \<in> set rs. wf_regex r \<Longrightarrow> wf_regex (foldl either a rs)" for a rs
    by (induction rs arbitrary: a) (simp_all add: either_def)
  then show "\<forall>r \<in> set rs. wf_regex r \<Longrightarrow> wf_regex (anyOf rs)"
    by (simp add: anyOf_def epsilon_def split: list.split)
qed

lemma wf_anyOfChars: "wf_regex (anyOfChars cs)"
proof -
  have "\<forall>f \<in> set (toRanges cs). valid_range f" by (rule ranges_sorted_valid [OF toRanges_sorted])
  then show ?thesis unfolding anyOfChars_def
    by (intro wf_anyOf) (simp add: charRange_def valid_range_def)
qed

lemma wf_constructors [simp]:
  "wf_regex epsilon" "wf_regex (charLit c)" "wf_regex (zeroOrMore r) = wf_regex r"
  "wf_regex (either r s) = (wf_regex r \<and> wf_regex s)" "wf_regex (sequence r s) = (wf_regex r \<and> wf_regex s)"
  "wf_regex (bindTo b r) = wf_regex r" "wf_regex (unescapePatChar x)"
  by (simp_all add: epsilon_def charLit_def zeroOrMore_def either_def sequence_def bindTo_def
      unescapePatChar_def wf_anyOfChars)

lemma wf_returnR: "returnR x k r = Inr (j, r') \<Longrightarrow> wf_regex r \<Longrightarrow> wf_regex r'"
  by (auto simp: returnR_def Let_def split: if_splits)

lemma wf_diffRegex:
  "diffRegex n lhs x i = Inr (j, r) \<Longrightarrow> wf_regex lhs \<Longrightarrow> wf_regex r"
proof (induction n arbitrary: lhs i j r)
  case (Suc n)
  have seq: "seqR n lhs c x k = Inr (j, r) \<Longrightarrow> wf_regex c \<Longrightarrow> wf_regex r" for c k
    using Suc.prems(2) Suc.IH wf_returnR
    by (force simp: seqR.simps split: sum.splits)
  have grp: "diffRegex n epsilon x k = Inr (k', g) \<Longrightarrow> wf_regex g" for k k' g
    by (erule Suc.IH) simp
  have rest: "diffRegex n (sequence lhs (bindTo b g)) x k = Inr (j, r) \<Longrightarrow> wf_regex g \<Longrightarrow> wf_regex r" for b g k
    by (erule Suc.IH) (simp add: Suc.prems(2))
  show ?case
    using Suc.prems
    by (auto simp: diffRegex.simps(2) Let_def wf_anyOfChars split: if_splits sum.splits prod.splits
        dest: wf_returnR seq grp rest)
qed simp

lemma wf_parseRegex_loop:
  "parseRegex_loop n x dr = Inr r \<Longrightarrow> wf_regex (snd dr) \<Longrightarrow> wf_regex r"
proof (induction n arbitrary: dr)
  case (Suc n)
  obtain i r0 where dr: "dr = (i, r0)" by (cases dr)
  show ?case
  proof (cases "i < length x")
    case True
    then obtain dr' where d: "diffRegex (Suc (length x)) r0 x i = Inr dr'" "parseRegex_loop n x dr' = Inr r"
      using Suc.prems(1) dr by (auto simp: parseRegex_loop.simps(2) split: sum.splits)
    have "wf_regex (snd dr')" using d(1) Suc.prems(2) dr wf_diffRegex [of "Suc (length x)" r0 x i]
      by (metis prod.collapse snd_conv)
    then show ?thesis using Suc.IH d(2) by blast
  next
    case False
    then show ?thesis using Suc.prems dr by (simp add: parseRegex_loop.simps(2))
  qed
qed simp

lemma wf_parseRegex:
  assumes "parseRegex x = Inr r"
  shows "wf_regex r"
proof -
  obtain dr where d: "diffRegex (Suc (length x)) epsilon x 0 = Inr dr"
    "parseRegex_loop (Suc (length x)) x dr = Inr r"
    using assms unfolding parseRegex_def by (auto split: sum.splits)
  then have "wf_regex (snd dr)" using wf_diffRegex [of "Suc (length x)" epsilon x 0 "fst dr" "snd dr"] by simp
  then show ?thesis using d(2) wf_parseRegex_loop by blast
qed

section \<open>The whole construction\<close>

text \<open>The expressions that the compiled function reports for an input.\<close>

definition reported :: "cregexes \<Rightarrow> rchar list \<Rightarrow> nat set" where
  "reported cr w =
     (case snd (runRegexFn cr w) of
        None \<Rightarrow> {}
      | Some r \<Rightarrow> (case cr_rstates cr r of None \<Rightarrow> {} | Some X \<Rightarrow> X))"

lemma dfa_of_wf:
  assumes "dfa_of nfa ec m dfa rs"
  shows "dfa_wf dfa" "0 < length dfa"
    "s < length dfa \<Longrightarrow> d_acc (dfa ! s) = Some a \<Longrightarrow> rs a \<noteq> None"
proof -
  have fin: "\<exists>ss. fin nfa ec \<lparr>b_nss2ds = m, b_dfa = dfa, b_rstates = rs\<rparr> ss s" if "s < length dfa" for s
    using assms that unfolding dfa_of_def ran_def by blast
  have bound: "m ss = Some d \<Longrightarrow> d < length dfa" for ss d
    using assms by (auto simp: dfa_of_def fin_def)
  show "0 < length dfa" using assms bound by (auto simp: dfa_of_def)
  show "dfa_wf dfa" unfolding dfa_wf_def
  proof (intro allI impI conjI ballI)
    fix s assume s: "s < length dfa"
    from fin [OF s] obtain ss where f: "fin nfa ec \<lparr>b_nss2ds = m, b_dfa = dfa, b_rstates = rs\<rparr> ss s" ..
    then show ok: "rm_ok (d_chars (dfa ! s))" by (simp add: fin_def)
    fix e assume e: "e \<in> set (d_chars (dfa ! s))"
    have "valid_range (fst e)" using e ok ranges_sorted_valid unfolding rm_ok_def by fastforce
    then have "rm_lookup (d_chars (dfa ! s)) (fst (fst e)) = Some (snd e)"
      using rm_lookup_Some_iff [OF ok] e
      by (metis in_range_def order_refl prod.collapse valid_range_def)
    then obtain cr where "m (dstep nfa ec ss cr) = Some (snd e)" using f by (auto simp: fin_def)
    then show "snd e < length dfa" by (rule bound)
  qed
  show "s < length dfa \<Longrightarrow> d_acc (dfa ! s) = Some a \<Longrightarrow> rs a \<noteq> None"
    using fin [of s] by (auto simp: fin_def split: if_splits)
qed

lemma mergeStates_run:
  assumes "dfa_wf dfa" "list_all2 (merged_state fstates rs) dfa dfa1"
  shows "dfa_wf dfa1"
    and "s < length dfa \<Longrightarrow> dfaRun dfa s w = Some a \<Longrightarrow>
      \<exists>a' X. dfaRun dfa1 s w = Some a' \<and> fstates a = Some X \<and> rs a' = Some X"
    and "s < length dfa \<Longrightarrow> dfaRun dfa s w = None \<Longrightarrow> dfaRun dfa1 s w = None"
proof -
  have len: "length dfa1 = length dfa" using list_all2_lengthD [OF assms(2)] by simp
  have st: "merged_state fstates rs (dfa ! s) (dfa1 ! s)" if "s < length dfa" for s
    using list_all2_nthD [OF assms(2) that] .
  have look: "rm_lookup (d_chars (dfa1 ! s)) c = rm_lookup (d_chars (dfa ! s)) c"
    "rm_ok (d_chars (dfa1 ! s))" if "s < length dfa" for s c
    using st [OF that] dfa_wfD(1) [OF assms(1) that]
    by (simp_all add: merged_state_def compact_lookup compact_ok)
  have targets: "snd ` set (rm_compact m) \<subseteq> snd ` set m" for m :: "nat rmap"
    by (induction m rule: rm_compact.induct) (auto split: if_splits)
  show "dfa_wf dfa1" unfolding dfa_wf_def len
  proof (intro allI impI conjI)
    fix s assume s: "s < length dfa"
    show "rm_ok (d_chars (dfa1 ! s))" by (rule look(2) [OF s])
    show "\<forall>e \<in> set (d_chars (dfa1 ! s)). snd e < length dfa"
      using st [OF s] targets [of "d_chars (dfa ! s)"] assms(1) s
      by (fastforce simp: merged_state_def dfa_wf_def)
  qed
  show "s < length dfa \<Longrightarrow> dfaRun dfa s w = Some a \<Longrightarrow>
      \<exists>a' X. dfaRun dfa1 s w = Some a' \<and> fstates a = Some X \<and> rs a' = Some X"
  proof (induction w arbitrary: s)
    case Nil
    then show ?case using st [OF Nil(1)] by (auto simp: merged_state_def)
  next
    case (Cons c w)
    then show ?case using dfa_wfD(2) [OF assms(1) Cons.prems(1), of c]
      by (auto simp: look(1) split: option.splits)
  qed
  show "s < length dfa \<Longrightarrow> dfaRun dfa s w = None \<Longrightarrow> dfaRun dfa1 s w = None"
  proof (induction w arbitrary: s)
    case Nil
    then show ?case using st [OF Nil(1)] by (auto simp: merged_state_def split: option.splits)
  next
    case (Cons c w)
    then show ?case using dfa_wfD(2) [OF assms(1) Cons.prems(1), of c]
      by (auto simp: look(1) split: option.splits)
  qed
qed

lemma ix_0: "subst_ok dfa eqs \<Longrightarrow> ix eqs (rep eqs 0) = 0"
  using subst_okD [of dfa eqs 0] by (auto simp: ix_def split: option.split)

text \<open>
  The run of the compiled function, in terms of the automaton \<open>disambiguate\<close> built.
\<close>

lemma makeRegexFn_spec:
  assumes "\<forall>r \<in> set rs. wf_regex r"
  obtains m dfa fs cr where "makeRegexFn rs = Inr cr"
    "dfa_of (makeNFA rs) (findEpsClosure (makeNFA rs)) m dfa fs"
    "\<And>w. reported cr w = (case dfaRun dfa 0 w of None \<Rightarrow> {} | Some a \<Rightarrow> (case fs a of None \<Rightarrow> {} | Some X \<Rightarrow> X))"
proof -
  have nfa: "nfa_ok (makeNFA rs)" "makeNFA rs \<noteq> []" using makeNFA_ok [OF assms] by simp_all
  obtain m dfa fs where d: "disambiguate (makeNFA rs) = Inr (dfa, fs)"
    "dfa_of (makeNFA rs) (findEpsClosure (makeNFA rs)) m dfa fs"
    by (rule disambiguate_spec [OF nfa])
  note wf = dfa_of_wf [OF d(2)]
  have "\<forall>s \<in> set dfa. \<forall>a. d_acc s = Some a \<longrightarrow> fs a \<noteq> None" using wf(3) by (metis in_set_conv_nth)
  moreover have "results_ok [] Map.empty" by (simp add: results_ok_def)
  ultimately obtain dfa1 rs1 where m1: "mergeCharRangesAndEqResults dfa fs = Inr (dfa1, rs1)"
    "list_all2 (merged_state fs rs1) dfa dfa1"
    unfolding mergeCharRangesAndEqResults_def using mergeStates_spec by blast
  note run = mergeStates_run [OF wf(1) m1(2)]
  obtain eqs where eqs: "findEquivStates dfa1 = Some eqs"
    using eqLoop_terminates [of dfa1] by (auto simp: findEquivStates_def)
  have ok: "subst_ok dfa1 eqs" by (rule findEquivStates_ok [OF run(1) eqs])
  have len: "0 < length dfa1" using wf(2) list_all2_lengthD [OF m1(2)] by simp
  define cr where "cr = \<lparr>cr_dfa = removeEquivStates dfa1 eqs,
     cr_captureVarsAt = (\<lambda>i. if i < length rs then Some (bindingNames (rs ! i)) else None),
     cr_rstates = rs1\<rparr>"
  have "makeRegexFn rs = Inr cr" using d(1) m1(1) eqs by (simp add: makeRegexFn_def makeRegexDFA_def cr_def)
  moreover have "snd (runRegexFn cr w) = dfaRun dfa1 0 w" for w
    using removed_runs [OF run(1) ok len, of Map.empty 0 w] dfaFunc_run [OF run(1) len]
    by (simp add: runRegexFn_def cr_def ix_0 [OF ok])
  then have "reported cr w =
      (case dfaRun dfa 0 w of None \<Rightarrow> {} | Some a \<Rightarrow> (case fs a of None \<Rightarrow> {} | Some X \<Rightarrow> X))" for w
    using run(2) [OF wf(2), of w] run(3) [OF wf(2), of w]
    by (fastforce simp: reported_def cr_def split: option.splits)
  ultimately show thesis using that d(2) by blast
qed

section \<open>Properties\<close>

text \<open>
  C27. What the parser returns is always a regular expression whose character ranges are not
  empty, whatever the string: the form the automaton construction relies on.
\<close>

theorem parse_wellformed:
  assumes "parseRegex x = Inr r"
  shows "wf_regex r"
  by (rule wf_parseRegex [OF assms])

lemma parse_wellformed_witness:
  "\<exists>r. parseRegex ''[z-a]b'' = Inr r \<and> wf_regex r"
proof -
  have "parseRegex ''[z-a]b'' = Inr (RSeq (RSeq REps REps) (RCharRange 98 98))" by code_simp
  then show ?thesis using parse_wellformed by blast
qed

text \<open>
  C26. Compilation of parsed expressions never fails and never runs on: none of the internal
  errors can occur, the subset construction ends within its bound and the search for equivalent
  states reaches its fixed point.
\<close>

theorem parsed_regexes_compile:
  assumes "list_all2 (\<lambda>x r. parseRegex x = Inr r) xs rs"
  shows "\<exists>cr. makeRegexFn rs = Inr cr"
proof -
  have "\<forall>r \<in> set rs. wf_regex r"
    using assms wf_parseRegex by (induction rule: list_all2_induct) auto
  from makeRegexFn_spec [OF this] show ?thesis by metis
qed

lemma parsed_regexes_compile_witness: "\<exists>r cr. parseRegex ''ab*'' = Inr r \<and> makeRegexFn [r] = Inr cr"
proof -
  have p: "parseRegex ''ab*'' =
      Inr (RSeq (RSeq REps (RCharRange 97 97)) (RStar (RCharRange 98 98)))" (is "_ = Inr ?r") by code_simp
  then have "\<exists>cr. makeRegexFn [?r] = Inr cr" using parsed_regexes_compile [of "[''ab*'']" "[?r]"] by simp
  then show ?thesis using p by blast
qed

text \<open>
  The compiled function reports only expressions that match: when no star stands directly
  inside a star, every index reported for an input is an expression of the list that matches it.
\<close>

theorem regex_fn_sound:
  assumes "\<forall>r \<in> set rs. wf_regex r \<and> guarded r" "makeRegexFn rs = Inr cr" "i \<in> reported cr w"
  shows "i < length rs \<and> matches (rs ! i) w"
proof -
  obtain m dfa fs where d: "dfa_of (makeNFA rs) (findEpsClosure (makeNFA rs)) m dfa fs"
    "reported cr w = (case dfaRun dfa 0 w of None \<Rightarrow> {} | Some a \<Rightarrow> (case fs a of None \<Rightarrow> {} | Some X \<Rightarrow> X))"
    using makeRegexFn_spec [of rs] assms(1,2) by (metis sum.inject(2))
  have nfa: "nfa_ok (makeNFA rs)" "makeNFA rs \<noteq> []" using makeNFA_ok [of rs] assms(1) by simp_all
  have det: "det_ok (makeNFA rs) (findEpsClosure (makeNFA rs))" by (rule det_ok_closure [OF nfa(1)])
  have start: "m (ecAt (findEpsClosure (makeNFA rs)) 0) = Some 0" using d(1) by (simp add: dfa_of_def)
  obtain a X where run: "dfaRun dfa 0 w = Some a" "fs a = Some X" "i \<in> X"
    using assms(3) d(2) by (auto split: option.splits)
  obtain s where s: "s \<in> ecAt (findEpsClosure (makeNFA rs)) 0" "nfa_accepts (makeNFA rs) s w i"
    using dfa_sound [OF det d(1) start run(1)] run(2,3) by auto
  have "s \<in> eps_star (makeNFA rs) 0"
    using s(1) findEpsClosure_sound by (auto simp: ecAt_def split: option.splits)
  then have "nfa_accepts (makeNFA rs) 0 w i"
    using s(2) eps_star_path unfolding nfa_accepts_def by blast
  then show ?thesis using makeNFA_accepts assms(1) by blast
qed


lemma regex_fn_sound_witness:
  "\<exists>cr. makeRegexFn [RCharRange 97 98] = Inr cr \<and> 0 \<in> reported cr [97] \<and> matches (RCharRange 97 98) [97]"
proof -
  have g: "\<forall>r \<in> set [RCharRange 97 98]. wf_regex r \<and> guarded r" by simp
  have "case makeRegexFn [RCharRange 97 98] of Inl e \<Rightarrow> False | Inr cr \<Rightarrow> 0 \<in> reported cr [97]" by code_simp
  then obtain cr where cr: "makeRegexFn [RCharRange 97 98] = Inr cr" "0 \<in> reported cr [97]"
    by (auto split: sum.splits)
  then show ?thesis using regex_fn_sound [OF g cr] by auto
qed


text \<open>
  C29. A star around an expression that matches the empty string loses matches: the epsilon edges
  of the inner and the outer star form a cycle, the closure of a state on it is recorded before
  the closures it is made of, and \<open>(a*)*\<close> does not match \<open>a\<close>.
\<close>

theorem nested_star_loses_matches:
  "\<exists>r cr. parseRegex ''(a*)*'' = Inr r \<and> makeRegexFn [r] = Inr cr \<and> matches r [chr (CHR ''a'')] \<and>
     reported cr [chr (CHR ''a'')] = {}"
proof -
  let ?r = "RSeq REps (RStar (RSeq REps (RStar (RCharRange 97 97))))"
  have "parseRegex ''(a*)*'' = Inr ?r" by code_simp
  moreover have "case makeRegexFn [?r] of Inl e \<Rightarrow> False | Inr cr \<Rightarrow> reported cr [chr (CHR ''a'')] = {}"
    by code_simp
  then obtain cr where "makeRegexFn [?r] = Inr cr" "reported cr [chr (CHR ''a'')] = {}"
    by (auto split: sum.splits)
  moreover have "matches (RStar (RCharRange 97 97)) ([97] @ [])" by (intro m_star m_star0) simp
  then have "matches (RSeq REps (RStar (RCharRange 97 97))) ([] @ [97])" by (intro m_seq m_eps) simp
  then have "matches (RStar (RSeq REps (RStar (RCharRange 97 97)))) ([97] @ [])" by (intro m_star m_star0) simp
  then have "matches ?r ([] @ [97])" by (intro m_seq m_eps) simp
  then have "matches ?r [chr (CHR ''a'')]" by simp
  ultimately show ?thesis by blast
qed

text \<open>
  C28. The code generated for the transitions of a state, a switch over characters or a sequence
  of range tests or neither, takes exactly the transition that the range map holds.
\<close>

theorem dispatch_takes_transition:
  assumes "rm_ok (d_chars s)"
  shows "evalCode c (transitionMapping s) = rm_lookup (d_chars s) c"
  by (rule transition_lookup [OF assms])

lemma dispatch_takes_transition_witness:
  "evalCode 98 (transitionMapping (newDState\<lparr>d_chars := [((97, 122), 5)]\<rparr>)) = Some 5"
proof -
  have "rm_ok (d_chars (newDState\<lparr>d_chars := [((97, 122), 5 :: nat)]\<rparr>))" by (simp add: valid_range_def)
  from dispatch_takes_transition [OF this, of 98] show ?thesis
    by (simp add: rm_lookup_Cons valid_range_def in_range_def)
qed

text \<open>
  The search for equivalent states reaches its fixed point: every pass that reports a change
  sets a flag of the table that was not set.
\<close>

theorem equivalence_search_ends: "\<exists>eqs. findEquivStates dfa = Some eqs"
  using eqLoop_terminates [of dfa] by (auto simp: findEquivStates_def)

text \<open>
  C6. Minimisation keeps behaviour: removing the states found equivalent, and renumbering the
  rest, gives an automaton whose function returns the same result and stores the same capture
  positions on every input.
\<close>

theorem minimise_keeps_runs:
  assumes "dfa_wf dfa" "dfa \<noteq> []" "findEquivStates dfa = Some eqs"
  shows "dfaFunc (removeEquivStates dfa eqs) cap i w 0 = dfaFunc dfa cap i w 0"
  using removed_runs [OF assms(1) findEquivStates_ok [OF assms(1,3)], of 0 cap i w] assms(2)
    ix_0 [OF findEquivStates_ok [OF assms(1,3)]] by simp

lemma minimise_keeps_runs_witness:
  "let a = newDState\<lparr>d_acc := Some 0\<rparr>; dfa = [newDState\<lparr>d_chars := [((97, 97), 1), ((98, 98), 2)]\<rparr>, a, a] in
     \<exists>eqs. findEquivStates dfa = Some eqs \<and> length (removeEquivStates dfa eqs) = 2 \<and>
       snd (dfaFunc (removeEquivStates dfa eqs) Map.empty 0 [98] 0) = Some 0"
proof -
  let ?a = "newDState\<lparr>d_acc := Some 0\<rparr>"
  let ?dfa = "[newDState\<lparr>d_chars := [((97, 97), 1), ((98, 98), 2)]\<rparr>, ?a, ?a]"
  have "findEquivStates ?dfa = Some [(2, 1)]" by code_simp
  moreover have "dfa_wf ?dfa"
    by (auto simp: dfa_wf_def newDState_def valid_range_def less_Suc_eq nth_Cons')
  moreover have "length (removeEquivStates ?dfa [(2, 1)]) = 2" by code_simp
  moreover have "snd (dfaFunc ?dfa Map.empty 0 [98] 0) = Some 0" by code_simp
  ultimately show ?thesis using minimise_keeps_runs [of ?dfa "[(2, 1)]" Map.empty 0 "[98]"]
    by (simp add: Let_def)
qed

end
