(* ===== verification/Types.thy ===== *)
theory Types
  imports Results
begin

text \<open>
  The type language of hobbes (\<^verbatim>\<open>include/hobbes/lang/type.H\<close>, \<^verbatim>\<open>lib/hobbes/lang/type.C\<close>): monotypes,
  constraints, qualified types and polytypes, the variables that occur in them, and the
  structural operations on variants and records.

  Monotypes are hash-consed: \<open>makeType\<close> returns the same object for the same constructor
  arguments, and types are compared by address. A value of \<open>mono_type\<close> stands for the constructor
  arguments, so equality of values is equality of addresses. \<open>Array\<close> and \<open>FixedArray\<close> normalise
  their element type in the constructor, after the lookup by arguments; the model keeps the
  argument and normalises in the accessors \<open>arrType\<close> and \<open>farrType\<close>. Type-level expressions
  (\<open>TExpr\<close>) hold a value of a parameter type. Member numbers (the id of a constructor, the
  offset of a field) are 32-bit words; offset -1 says that none is known yet.
\<close>

section \<open>Monotypes\<close>

datatype 't member = Member (mlabel: string) (mtype: 't) (mnum: u32)

datatype 'e mono_type =
    Prim string "'e mono_type option"
  | OpaquePtr string u32 bool
  | TVar string
  | TGen u32
  | TAbs "string list" "'e mono_type"
  | TApp "'e mono_type" "'e mono_type list"
  | FixedArray "'e mono_type" "'e mono_type"
  | Array "'e mono_type"
  | Variant "'e mono_type member list"
  | Record "'e mono_type member list"
  | Func "'e mono_type" "'e mono_type"
  | Exists string "'e mono_type"
  | Recursive string "'e mono_type"
  | TString string
  | TLong u64
  | TExpr 'e

type_synonym 'e members = "'e mono_type member list"

lemma mtype_in_set_member [simp]: "set_member m = {mtype m}"
  by (cases m) simp

lemma member_size [termination_simp]: "m \<in> set ms \<Longrightarrow> size (mtype m) < Suc (size_list (size_member size) ms)"
proof (induction ms)
  case (Cons a ms)
  then show ?case by (cases a; cases "m = a") auto
qed simp

definition opaqueMake :: "string \<Rightarrow> u32 \<Rightarrow> bool \<Rightarrow> 'e mono_type" where
  "opaqueMake nm sz scontig = OpaquePtr nm (if scontig then sz else 0) scontig"

fun normIfOpaquePtr :: "'e mono_type \<Rightarrow> 'e mono_type" where
  "normIfOpaquePtr (OpaquePtr nm sz scontig) = opaqueMake nm sz False"
| "normIfOpaquePtr ty = ty"

lemma size_normIfOpaquePtr [simp]: "size (normIfOpaquePtr t) = size t"
  by (cases t rule: normIfOpaquePtr.cases) (simp_all add: opaqueMake_def)

abbreviation arrType :: "'e mono_type \<Rightarrow> 'e mono_type" where
  "arrType t \<equiv> normIfOpaquePtr t"

section \<open>Variables of a type\<close>

text \<open>
  \<open>freeTVars\<close> and \<open>tgenCount\<close> are fields that the constructors compute. The constructor of \<open>TAbs\<close>
  computes neither, so a type abstraction counts as closed; a type-level expression has none.
\<close>

primrec freeTVars :: "'e mono_type \<Rightarrow> string set" where
  "freeTVars (Prim nm t) = (case map_option freeTVars t of None \<Rightarrow> {} | Some s \<Rightarrow> s)"
| "freeTVars (OpaquePtr nm sz c) = {}"
| "freeTVars (TVar nm) = {nm}"
| "freeTVars (TGen x) = {}"
| "freeTVars (TAbs ns b) = {}"
| "freeTVars (TApp f ts) = freeTVars f \<union> \<Union> (set (map freeTVars ts))"
| "freeTVars (FixedArray ty len) = freeTVars ty \<union> freeTVars len"
| "freeTVars (Array ty) = freeTVars ty"
| "freeTVars (Variant ms) = \<Union> (set (map (\<lambda>m. mtype m) (map (map_member freeTVars) ms)))"
| "freeTVars (Record ms) = \<Union> (set (map (\<lambda>m. mtype m) (map (map_member freeTVars) ms)))"
| "freeTVars (Func a r) = freeTVars a \<union> freeTVars r"
| "freeTVars (Exists n b) = freeTVars b - {n}"
| "freeTVars (Recursive n b) = freeTVars b - {n}"
| "freeTVars (TString s) = {}"
| "freeTVars (TLong x) = {}"
| "freeTVars (TExpr e) = {}"

primrec tgenCount :: "'e mono_type \<Rightarrow> int" where
  "tgenCount (Prim nm t) = (case map_option tgenCount t of None \<Rightarrow> 0 | Some n \<Rightarrow> n)"
| "tgenCount (OpaquePtr nm sz c) = 0"
| "tgenCount (TVar nm) = 0"
| "tgenCount (TGen x) = sint x + 1"
| "tgenCount (TAbs ns b) = 0"
| "tgenCount (TApp f ts) = max (tgenCount f) (foldl max 0 (map tgenCount ts))"
| "tgenCount (FixedArray ty len) = max (tgenCount ty) (tgenCount len)"
| "tgenCount (Array ty) = tgenCount ty"
| "tgenCount (Variant ms) = foldl max 0 (map (\<lambda>m. mtype m) (map (map_member tgenCount) ms))"
| "tgenCount (Record ms) = foldl max 0 (map (\<lambda>m. mtype m) (map (map_member tgenCount) ms))"
| "tgenCount (Func a r) = max (tgenCount a) (tgenCount r)"
| "tgenCount (Exists n b) = tgenCount b"
| "tgenCount (Recursive n b) = tgenCount b"
| "tgenCount (TString s) = 0"
| "tgenCount (TLong x) = 0"
| "tgenCount (TExpr e) = 0"

definition tgenSize :: "'e mono_type list \<Rightarrow> int" where
  "tgenSize mts = foldl max 0 (map tgenCount mts)"

definition isMonoSingular :: "'e mono_type \<Rightarrow> bool" where
  "isMonoSingular mt \<longleftrightarrow> freeTVars mt = {} \<and> tgenCount mt = 0"

text \<open>\<open>walkTy\<close> visits the parts of a type; \<open>tgenVarsF\<close> collects the \<open>TGen\<close>s on the way.\<close>

fun tgenVarsF :: "'e mono_type \<Rightarrow> int set" where
  "tgenVarsF (Prim nm t) = {}"
| "tgenVarsF (OpaquePtr nm sz c) = {}"
| "tgenVarsF (TVar nm) = {}"
| "tgenVarsF (TGen x) = {sint x}"
| "tgenVarsF (TAbs ns b) = tgenVarsF b"
| "tgenVarsF (TApp f ts) = tgenVarsF f \<union> \<Union> (set (map tgenVarsF ts))"
| "tgenVarsF (FixedArray ty len) = tgenVarsF (arrType ty) \<union> tgenVarsF len"
| "tgenVarsF (Array ty) = tgenVarsF (arrType ty)"
| "tgenVarsF (Variant ms) = \<Union> (set (map (\<lambda>m. tgenVarsF (mtype m)) ms))"
| "tgenVarsF (Record ms) = \<Union> (set (map (\<lambda>m. tgenVarsF (mtype m)) ms))"
| "tgenVarsF (Func a r) = tgenVarsF a \<union> tgenVarsF r"
| "tgenVarsF (Exists n b) = tgenVarsF b"
| "tgenVarsF (Recursive n b) = tgenVarsF b"
| "tgenVarsF (TString s) = {}"
| "tgenVarsF (TLong x) = {}"
| "tgenVarsF (TExpr e) = {}"

definition tgenVars :: "'e mono_type \<Rightarrow> int set" where
  "tgenVars mt = (if isMonoSingular mt then {} else tgenVarsF mt)"

section \<open>Errors and labels\<close>

datatype type_error =
    NoTail | NoHead | NoMember | NoSizeTVar | NoSizeTGen | NoSizeTAbs | NoSize | UnknownPrim
  | NonFixedLength | OffsetAbove | OffsetBelow | TGenOutOfRange | NotRecursive | NotRecord
  | NotMonotype | NotFunction | TGenSizeNYI | OutOfFuel

text \<open>\<open>str::from\<close> on a number prints it in decimal.\<close>

fun strFrom :: "nat \<Rightarrow> string" where
  "strFrom n =
     (if n < 10 then [char_of (48 + n)] else strFrom (n div 10) @ [char_of (48 + n mod 10)])"

declare strFrom.simps [simp del]

definition hiddenLabel :: "string \<Rightarrow> string" where
  "hiddenLabel lbl = ''.p'' @ lbl"

text \<open>
  \<open>findHiddenMember\<close> counts down from index \<open>i\<close>; the model passes \<open>i + 1\<close> and returns \<open>None\<close> for
  the result -1.
\<close>

fun findHiddenMember :: "nat \<Rightarrow> string \<Rightarrow> 'e members \<Rightarrow> nat option" where
  "findHiddenMember 0 lbl ms = None"
| "findHiddenMember (Suc i) lbl ms =
     (if mlabel (ms ! i) \<noteq> hiddenLabel lbl then findHiddenMember i lbl ms else Some i)"

definition setLabel :: "string \<Rightarrow> 'e mono_type member \<Rightarrow> 'e mono_type member" where
  "setLabel lbl m = Member lbl (mtype m) (mnum m)"

definition setNum :: "u32 \<Rightarrow> 'e mono_type member \<Rightarrow> 'e mono_type member" where
  "setNum n m = Member (mlabel m) (mtype m) n"

section \<open>Variants\<close>

definition resetCtorIDs :: "'e members \<Rightarrow> 'e members" where
  "resetCtorIDs ms = map2 (\<lambda>i m. setNum (of_nat i) m) [0..<length ms] ms"

definition consCtor :: "string \<Rightarrow> 'e mono_type \<Rightarrow> 'e members \<Rightarrow> 'e members" where
  "consCtor lbl hty tty =
     (case findHiddenMember (length tty) lbl tty of
        None \<Rightarrow> resetCtorIDs (Member lbl hty 0 # tty)
      | Some slot \<Rightarrow> tty[slot := Member lbl hty (mnum (tty ! slot))])"

definition hiddenCtor :: "'e mono_type member \<Rightarrow> bool" where
  "hiddenCtor m \<longleftrightarrow> 2 < length (mlabel m) \<and> mlabel m ! 0 = CHR ''.'' \<and> mlabel m ! 1 = CHR ''p''"

fun normalizeSumFields :: "nat \<Rightarrow> 'e members \<Rightarrow> 'e members" where
  "normalizeSumFields i [] = []"
| "normalizeSumFields i (m # ms) =
     (if hiddenCtor m then m # normalizeSumFields i ms
      else setLabel (''.f'' @ strFrom i) m # normalizeSumFields (i + 1) ms)"

definition variantConsSum :: "'e mono_type \<Rightarrow> 'e members \<Rightarrow> 'e mono_type" where
  "variantConsSum hty tty = Variant (normalizeSumFields 0 (consCtor ''.f0'' hty tty))"

definition variantCons :: "string \<Rightarrow> 'e mono_type \<Rightarrow> 'e members \<Rightarrow> 'e mono_type" where
  "variantCons lbl hty tty = Variant (consCtor lbl hty tty)"

definition nextVisibleCtor :: "'e members \<Rightarrow> nat" where
  "nextVisibleCtor ms = length (takeWhile hiddenCtor ms)"

definition looksLikeSum :: "'e members \<Rightarrow> bool" where
  "looksLikeSum ms =
     list_ex (\<lambda>m. 1 < length (mlabel m) \<and> mlabel m ! 0 = CHR ''.'' \<and> mlabel m ! 1 = CHR ''f'') ms"

definition mmember :: "string \<Rightarrow> 'e members \<Rightarrow> 'e mono_type member option" where
  "mmember lbl ms = List.find (\<lambda>m. mlabel m = lbl) ms"

definition ctorPayload :: "string \<Rightarrow> 'e members \<Rightarrow> type_error + 'e mono_type" where
  "ctorPayload lbl ms = (case mmember lbl ms of Some m \<Rightarrow> Inr (mtype m) | None \<Rightarrow> Inl NoMember)"

fun ctorIndex :: "nat \<Rightarrow> string \<Rightarrow> 'e members \<Rightarrow> type_error + nat" where
  "ctorIndex i lbl [] = Inl NoMember"
| "ctorIndex i lbl (m # ms) = (if mlabel m = lbl then Inr i else ctorIndex (i + 1) lbl ms)"

definition ctorId :: "string \<Rightarrow> 'e members \<Rightarrow> type_error + u32" where
  "ctorId lbl ms = (case mmember lbl ms of Some m \<Rightarrow> Inr (mnum m) | None \<Rightarrow> Inl NoMember)"

definition ctorTailMembers :: "'e members \<Rightarrow> type_error + 'e members" where
  "ctorTailMembers ms =
     (let h = nextVisibleCtor ms in
      if length ms \<le> h then Inl NoTail
      else Inr (ms[h := setLabel (hiddenLabel (mlabel (ms ! h))) (ms ! h)]))"

definition normMember :: "'e mono_type member \<Rightarrow> 'e mono_type member" where
  "normMember m = Member (mlabel m) (normIfOpaquePtr (mtype m)) (mnum m)"

definition ctorHeadMember :: "'e members \<Rightarrow> type_error + 'e mono_type member" where
  "ctorHeadMember ms =
     (let h = nextVisibleCtor ms in
      if length ms \<le> h then Inl NoHead else Inr (normMember (ms ! h)))"

definition variantTailType :: "'e members \<Rightarrow> type_error + 'e mono_type" where
  "variantTailType ms =
     mapR (\<lambda>tms. if length tms \<le> nextVisibleCtor tms then Prim ''void'' None else Variant tms)
       (ctorTailMembers ms)"

section \<open>Records\<close>

text \<open>\<open>field.substr(0, 2) == ".p"\<close>, and the same for \<open>".f"\<close>.\<close>

definition hiddenField :: "'e mono_type member \<Rightarrow> bool" where
  "hiddenField m \<longleftrightarrow> take 2 (mlabel m) = ''.p''"

definition nextVisibleField :: "'e members \<Rightarrow> nat" where
  "nextVisibleField ms = length (takeWhile hiddenField ms)"

definition resetFieldOffsets :: "'e members \<Rightarrow> 'e members" where
  "resetFieldOffsets ms = map (setNum (- 1)) ms"

text \<open>
  Unlike its counterpart for variants, \<open>consMember\<close> for records gives a hidden field its name
  back and leaves its type as it was.
\<close>

definition consField :: "string \<Rightarrow> 'e mono_type \<Rightarrow> 'e members \<Rightarrow> 'e members" where
  "consField lbl hty tty =
     (case findHiddenMember (length tty) lbl tty of
        None \<Rightarrow> resetFieldOffsets (Member lbl hty (- 1) # tty)
      | Some slot \<Rightarrow> tty[slot := setLabel lbl (tty ! slot)])"

fun normalizeTupleFields :: "nat \<Rightarrow> 'e members \<Rightarrow> 'e members" where
  "normalizeTupleFields i [] = []"
| "normalizeTupleFields i (m # ms) =
     (if hiddenField m then m # normalizeTupleFields i ms
      else setLabel (''.f'' @ strFrom i) m # normalizeTupleFields (i + 1) ms)"

definition isTupleDesc :: "'e members \<Rightarrow> bool" where
  "isTupleDesc ms = list_ex (\<lambda>m. take 2 (mlabel m) = ''.f'') ms"

definition renumberFrom :: "'e members \<Rightarrow> 'e members" where
  "renumberFrom ms = map2 (\<lambda>i m. setLabel (''.f'' @ strFrom i) m) [0..<length ms] ms"

definition fieldTailMembers :: "bool \<Rightarrow> 'e members \<Rightarrow> type_error + 'e members" where
  "fieldTailMembers tup ms =
     (let h = nextVisibleField ms in
      if length ms \<le> h then Inl NoTail
      else let tms = ms[h := setLabel (hiddenLabel (mlabel (ms ! h))) (ms ! h)] in
        Inr (if tup then take (h + 1) tms @ renumberFrom (drop (h + 1) tms) else tms))"

definition fieldHeadMember :: "'e members \<Rightarrow> type_error + 'e mono_type member" where
  "fieldHeadMember ms =
     (let h = nextVisibleField ms in
      if length ms \<le> h then Inl NoHead else Inr (normMember (ms ! h)))"

definition fieldType :: "string \<Rightarrow> 'e members \<Rightarrow> type_error + 'e mono_type" where
  "fieldType mn ms = (case mmember mn ms of Some m \<Rightarrow> Inr (mtype m) | None \<Rightarrow> Inl NoMember)"

definition funcParameters :: "'e mono_type \<Rightarrow> 'e mono_type list" where
  "funcParameters aty =
     (case aty of Record ms \<Rightarrow> if isTupleDesc ms then map mtype ms else [aty] | _ \<Rightarrow> [aty])"

definition lookupFieldType :: "'e mono_type \<Rightarrow> string \<Rightarrow> type_error + 'e mono_type" where
  "lookupFieldType mt fieldName =
     (case mt of Record ms \<Rightarrow> fieldType fieldName ms | _ \<Rightarrow> Inl NotRecord)"

section \<open>Common types\<close>

definition primty :: "string \<Rightarrow> 'e mono_type" where
  "primty x = Prim x None"

definition arraytyN :: "'e mono_type \<Rightarrow> u64 \<Rightarrow> 'e mono_type" where
  "arraytyN ty n = FixedArray ty (TLong n)"

definition sumtype :: "'e mono_type \<Rightarrow> 'e mono_type \<Rightarrow> 'e mono_type" where
  "sumtype t0 t1 = Variant [Member ''.f0'' t0 0, Member ''.f1'' t1 1]"

definition maybety :: "'e mono_type \<Rightarrow> 'e mono_type" where
  "maybety t = sumtype (primty ''unit'') t"

definition isMaybe :: "'e mono_type \<Rightarrow> 'e mono_type option" where
  "isMaybe t =
     (case t of
        Variant ms \<Rightarrow>
          if length ms = 2 \<and> mlabel (ms ! 0) = ''.f0'' \<and> mlabel (ms ! 1) = ''.f1'' \<and>
             mtype (ms ! 0) = primty ''unit''
          then Some (mtype (ms ! 1)) else None
      | _ \<Rightarrow> None)"

definition isVoid :: "'e mono_type \<Rightarrow> bool" where
  "isVoid t = (case t of Prim nm rep \<Rightarrow> nm = ''void'' | _ \<Rightarrow> False)"

definition isFileRef :: "'e mono_type \<Rightarrow> bool" where
  "isFileRef mt = (case mt of TApp (Prim nm rep) args \<Rightarrow> nm = ''fileref'' | _ \<Rightarrow> False)"

definition makeFileRef :: "'e mono_type \<Rightarrow> 'e mono_type \<Rightarrow> 'e mono_type" where
  "makeFileRef ty f = TApp (primty ''fileref'') [ty, f]"

definition fnresult :: "'e mono_type \<Rightarrow> type_error + 'e mono_type" where
  "fnresult fty =
     (case fty of
        Func a r \<Rightarrow> Inr r
      | TApp (Prim nm rep) args \<Rightarrow>
          if nm = ''->'' \<and> length args = 2 then Inr (args ! 1) else Inl NotFunction
      | _ \<Rightarrow> Inl NotFunction)"

definition isPrimName :: "string \<Rightarrow> bool" where
  "isPrimName tn = (tn \<in> set
     [''unit'', ''void'', ''bool'', ''char'', ''byte'', ''short'', ''int'', ''long'', ''float'', ''double'',
      ''[]'', ''list'', ''lseq'', ''process'', ''quote'', ''promise'', ''connection'', ''wpipe'', ''rpipe'',
      ''->'', ''closure'', ''fseq'', ''file'', ''fileref''])"

end
