(* ===== verification/Type_Layout.thy ===== *)
theory Type_Layout
  imports Types
begin

text \<open>
  Sizes, alignments and memory layout of types, and the operations of
  \<^verbatim>\<open>lib/hobbes/lang/type.C\<close> that depend on them: records resolve their layout when they are
  made, so everything that builds a record, substitution included, may fail.

  Sizes and offsets are 32-bit words as in the code (\<open>unsigned int\<close> and \<open>int\<close>; comparisons of
  offsets are signed). The size of an applied type function is the size of the function's body
  after substitution. That makes sizes depend on substitution and substitution on record layout;
  the definitions take the size of such an application as the parameter \<open>bt\<close>, and \<open>betaSize n\<close>
  ties the knot for \<open>n\<close> nested applications.
\<close>

section \<open>Alignment arithmetic\<close>

definition align :: "u32 \<Rightarrow> u32 \<Rightarrow> u32" where
  "align x m = (if m = 0 \<or> x mod m = 0 then x else (1 + x div m) * m)"

section \<open>Sizes and alignments\<close>

type_synonym 'e beta = "string list \<Rightarrow> 'e mono_type list \<Rightarrow> 'e mono_type \<Rightarrow> type_error + u32"

definition sizeOfPrim :: "string \<Rightarrow> type_error + u32" where
  "sizeOfPrim pn =
     (if pn = ''unit'' then Inr 0
      else if pn = ''bool'' then Inr 1
      else if pn = ''char'' then Inr 1
      else if pn = ''byte'' then Inr 1
      else if pn = ''short'' then Inr 2
      else if pn = ''int'' then Inr 4
      else if pn = ''long'' then Inr 8
      else if pn = ''float'' then Inr 4
      else if pn = ''double'' then Inr 8
      else if pn = ''void'' then Inr 0
      else Inl UnknownPrim)"

definition requireLength :: "'e mono_type \<Rightarrow> type_error + u64" where
  "requireLength len = (case len of TLong n \<Rightarrow> Inr n | _ \<Rightarrow> Inl NonFixedLength)"

text \<open>\<open>while (const TApp* lv = is<TApp>(v->fn())) v = lv\<close>\<close>

fun uncurryTApp :: "'e mono_type \<Rightarrow> 'e mono_type list \<Rightarrow> 'e mono_type \<times> 'e mono_type list" where
  "uncurryTApp (TApp f ts) args = uncurryTApp f ts"
| "uncurryTApp f args = (f, args)"

definition sizeOfTApp :: "'e beta \<Rightarrow> 'e mono_type \<Rightarrow> 'e mono_type list \<Rightarrow> type_error + u32" where
  "sizeOfTApp bt f0 args0 =
     (let (f, args) = uncurryTApp f0 args0 in
      case f of
        Prim nm rep \<Rightarrow>
          if nm \<in> {''->'', ''closure'', ''[]'', ''list'', ''fseq'', ''lseq'', ''file'', ''fileref'', ''process''}
          then Inr 8
          else if nm \<in> {''connection'', ''quote''} then Inr 0
          else if nm = ''promise'' then Inr 8
          else (case rep of Some (TAbs ns b) \<Rightarrow> bt ns args b | _ \<Rightarrow> Inl NoSize)
      | _ \<Rightarrow> Inl NoSize)"

text \<open>\<open>isUnit\<close> catches what \<open>sizeOf\<close> throws; running on for ever is not caught.\<close>

definition unitSize :: "type_error + u32 \<Rightarrow> type_error + bool" where
  "unitSize r = (case r of Inr n \<Rightarrow> Inr (n = 0) | Inl e \<Rightarrow> if e = OutOfFuel then Inl OutOfFuel else Inr False)"

definition payloadOffsetOf :: "u32 list \<Rightarrow> u32" where
  "payloadOffsetOf as = foldl (\<lambda>o' a. max o' (align 4 a)) 4 as"

definition variantSizeOf :: "u32 list \<Rightarrow> u32 list \<Rightarrow> u32" where
  "variantSizeOf as szs = align (payloadOffsetOf as + foldl max 0 szs) (foldl max 4 as)"

text \<open>
  \<open>Record::size\<close> walks the members from the last one and stops at the first that takes space;
  the sizes of the members before it are not computed.
\<close>

fun firstSized :: "('m \<Rightarrow> type_error + u32) \<Rightarrow> 'm list \<Rightarrow> type_error + ('m \<times> u32) option" where
  "firstSized f [] = Inr None"
| "firstSized f (m # ms) = bindE (f m) (\<lambda>sz. if 0 < sz then Inr (Some (m, sz)) else firstSized f ms)"

lemma firstSized_cong [fundef_cong]:
  "xs = ys \<Longrightarrow> (\<And>x. x \<in> set ys \<Longrightarrow> f x = g x) \<Longrightarrow> firstSized f xs = firstSized g ys"
proof -
  have "(\<And>x. x \<in> set ys \<Longrightarrow> f x = g x) \<Longrightarrow> firstSized f ys = firstSized g ys"
    by (induction ys) (simp_all cong: bindE_cong if_cong)
  then show "xs = ys \<Longrightarrow> (\<And>x. x \<in> set ys \<Longrightarrow> f x = g x) \<Longrightarrow> firstSized f xs = firstSized g ys" by simp
qed

definition recordSizeOf :: "u32 \<Rightarrow> ('e mono_type member \<times> u32) option \<Rightarrow> u32" where
  "recordSizeOf malign l = (case l of None \<Rightarrow> 0 | Some (m, fsz) \<Rightarrow> align (mnum m + fsz) malign)"

function (sequential)
  alignment :: "'e beta \<Rightarrow> 'e mono_type \<Rightarrow> type_error + u32" and
  sizeOf :: "'e beta \<Rightarrow> 'e mono_type \<Rightarrow> type_error + u32" where
  "alignment bt (Prim nm rep) =
     bindE (unitSize (sizeOf bt (Prim nm rep)))
       (\<lambda>u. if u then Inr 1
            else (case rep of Some r \<Rightarrow> alignment bt r | None \<Rightarrow> sizeOf bt (Prim nm rep)))"
| "alignment bt (Variant ms) =
     mapR (\<lambda>as. if payloadOffsetOf as = 4 then 4 else 8) (mapE (\<lambda>m. alignment bt (mtype m)) ms)"
| "alignment bt (FixedArray t len) = alignment bt (arrType t)"
| "alignment bt (OpaquePtr nm sz c) = Inr 8"
| "alignment bt (Array t) = Inr 8"
| "alignment bt (Func a r) = Inr 8"
| "alignment bt (Record ms) = mapR (foldl max 1) (mapE (\<lambda>m. alignment bt (mtype m)) ms)"
| "alignment bt (Recursive n b) = Inr 8"
| "alignment bt (TApp f args) = Inr (if isFileRef (TApp f args) then 8 else 1)"
| "alignment bt t = Inr 1"
| "sizeOf bt (Prim nm rep) = (case rep of Some r \<Rightarrow> sizeOf bt r | None \<Rightarrow> sizeOfPrim nm)"
| "sizeOf bt (OpaquePtr nm sz c) = Inr (if c then sz else 8)"
| "sizeOf bt (TVar n) = Inl NoSizeTVar"
| "sizeOf bt (TGen x) = Inl NoSizeTGen"
| "sizeOf bt (FixedArray t len) =
     bindE (sizeOf bt (arrType t)) (\<lambda>s. mapR (\<lambda>n. s * ucast n) (requireLength len))"
| "sizeOf bt (Array t) = Inr 8"
| "sizeOf bt (Variant ms) =
     bindE (mapE (\<lambda>m. alignment bt (mtype m)) ms)
       (\<lambda>as. mapR (variantSizeOf as) (mapE (\<lambda>m. sizeOf bt (mtype m)) ms))"
| "sizeOf bt (Record ms) =
     (if ms = [] then Inr 0
      else bindE (mapE (\<lambda>m. alignment bt (mtype m)) ms)
        (\<lambda>as. mapR (recordSizeOf (foldl max 1 as)) (firstSized (\<lambda>m. sizeOf bt (mtype m)) (rev ms))))"
| "sizeOf bt (Func a r) = Inr 8"
| "sizeOf bt (Exists n b) = Inr 8"
| "sizeOf bt (Recursive n b) = Inr 8"
| "sizeOf bt (TAbs ns b) = Inl NoSizeTAbs"
| "sizeOf bt (TApp f args) = sizeOfTApp bt f args"
| "sizeOf bt (TString s) = Inr 0"
| "sizeOf bt (TLong x) = Inr 0"
| "sizeOf bt (TExpr e) = Inr 0"
  by pat_completeness auto
termination alignment
  by (relation "measures [\<lambda>x. case x of Inl (bt, t) \<Rightarrow> size t | Inr (bt, t) \<Rightarrow> size t,
        \<lambda>x. case x of Inl _ \<Rightarrow> 1 | Inr _ \<Rightarrow> 0]") (auto simp: termination_simp)


section \<open>Memory layout of records\<close>

definition isUnit :: "'e beta \<Rightarrow> 'e mono_type \<Rightarrow> type_error + bool" where
  "isUnit bt t = unitSize (sizeOf bt t)"

text \<open>
  \<open>withResolvedMemoryLayout\<close>: \<open>None\<close> says that a member with type variables was met, in which
  case the members are returned as they are.
\<close>

fun resolveLoop :: "'e beta \<Rightarrow> u32 \<Rightarrow> 'e members \<Rightarrow> type_error + 'e members option" where
  "resolveLoop bt off [] = Inr (Some [])"
| "resolveLoop bt off (m # ms) =
     (if \<not> isMonoSingular (mtype m) then Inr None
      else bindE (alignment bt (mtype m)) (\<lambda>a.
        let off' = align off a;
            next = (\<lambda>m'. bindE (sizeOf bt (mtype m))
                     (\<lambda>sz. mapR (map_option (Cons m')) (resolveLoop bt (off' + sz) ms)))
        in if mnum m = - 1 then next (setNum off' m)
           else if off' <s mnum m then Inl OffsetAbove
           else if mnum m = off' then next m
           else Inl OffsetBelow))"

declare resolveLoop.simps(2) [simp del]

definition withResolvedMemoryLayout :: "'e beta \<Rightarrow> 'e members \<Rightarrow> type_error + 'e members" where
  "withResolvedMemoryLayout bt ms =
     mapR (\<lambda>r. case r of None \<Rightarrow> ms | Some ms' \<Rightarrow> ms') (resolveLoop bt 0 ms)"

definition recordMake :: "'e beta \<Rightarrow> 'e members \<Rightarrow> type_error + 'e mono_type" where
  "recordMake bt ms = mapR Record (withResolvedMemoryLayout bt ms)"

definition maxFieldAlignmentF :: "'e beta \<Rightarrow> 'e members \<Rightarrow> type_error + u32" where
  "maxFieldAlignmentF bt ms = mapR (foldl max 1) (mapE (\<lambda>m. alignment bt (mtype m)) ms)"

definition padField :: "string \<Rightarrow> nat \<Rightarrow> u64 \<Rightarrow> 'e mono_type member" where
  "padField pfx p n = Member (pfx @ strFrom p) (arraytyN (primty ''char'') n) (- 1)"

fun paddingLoop :: "'e beta \<Rightarrow> string \<Rightarrow> u32 \<Rightarrow> nat \<Rightarrow> 'e members \<Rightarrow> type_error + 'e members \<times> u32 \<times> nat" where
  "paddingLoop bt pfx off p [] = Inr ([], off, p)"
| "paddingLoop bt pfx off p (m # ms) =
     (let pad = (if off <s mnum m then [padField pfx p (scast (mnum m - off))] else []) in
      bindE (sizeOf bt (mtype m)) (\<lambda>msz.
        mapR (\<lambda>(r, off', p'). (pad @ (if 0 < msz then [m] else []) @ r, off', p'))
          (paddingLoop bt pfx (mnum m + msz) (p + length pad) ms)))"

definition withExplicitPadding :: "'e beta \<Rightarrow> string \<Rightarrow> 'e members \<Rightarrow> type_error + 'e members" where
  "withExplicitPadding bt pfx ms =
     bindE (paddingLoop bt pfx 0 0 ms) (\<lambda>(r, off, p).
       mapR (\<lambda>talign.
           if 0 < talign \<and> off < align off talign
           then r @ [padField pfx p (ucast (align off talign - off))] else r)
         (maxFieldAlignmentF bt ms))"

definition alignedMembers :: "'e beta \<Rightarrow> 'e members \<Rightarrow> type_error + 'e members" where
  "alignedMembers bt ms =
     (if isMonoSingular (Record ms) then withExplicitPadding bt ''.p'' ms else Inr [])"

fun fieldIndex :: "'e beta \<Rightarrow> nat \<Rightarrow> string \<Rightarrow> 'e members \<Rightarrow> type_error + nat" where
  "fieldIndex bt k mn [] = Inl NoMember"
| "fieldIndex bt k mn (m # ms) =
     (if mlabel m = mn then Inr k
      else bindE (isUnit bt (mtype m)) (\<lambda>u. fieldIndex bt (if u then k else k + 1) mn ms))"

definition recordConsTuple :: "'e beta \<Rightarrow> 'e mono_type \<Rightarrow> 'e members \<Rightarrow> type_error + 'e mono_type" where
  "recordConsTuple bt hty tty = recordMake bt (normalizeTupleFields 0 (consField ''.f0'' hty tty))"

definition recordCons :: "'e beta \<Rightarrow> string \<Rightarrow> 'e mono_type \<Rightarrow> 'e members \<Rightarrow> type_error + 'e mono_type" where
  "recordCons bt lbl hty tty = recordMake bt (consField lbl hty tty)"

definition recordTailType :: "'e beta \<Rightarrow> 'e members \<Rightarrow> type_error + 'e mono_type" where
  "recordTailType bt ms =
     bindE (fieldTailMembers (isTupleDesc ms) ms)
       (\<lambda>tms. if length tms \<le> nextVisibleField tms then Inr (Prim ''unit'' None) else recordMake bt tms)"

definition tuple :: "'e beta \<Rightarrow> 'e mono_type list \<Rightarrow> type_error + 'e mono_type" where
  "tuple bt mtys =
     (if mtys = [] then Inr (primty ''unit'')
      else recordMake bt (map2 (\<lambda>i t. Member (''.f'' @ strFrom i) t (- 1)) [0..<length mtys] mtys))"

definition functy :: "'e beta \<Rightarrow> 'e mono_type list \<Rightarrow> 'e mono_type \<Rightarrow> type_error + 'e mono_type" where
  "functy bt atys rty =
     (if atys = [] then mapR (\<lambda>t. Func t rty) (bindE (tuple bt []) (\<lambda>u. tuple bt [u]))
      else mapR (\<lambda>t. Func t rty) (tuple bt atys))"

definition closty :: "'e beta \<Rightarrow> 'e mono_type list \<Rightarrow> 'e mono_type \<Rightarrow> type_error + 'e mono_type" where
  "closty bt atys rty =
     bindE (tuple bt (TVar ''E'' # atys)) (\<lambda>a.
       mapR (Exists ''E'') (tuple bt [Func a rty, TVar ''E'']))"

section \<open>Substitution\<close>

type_synonym 'e subst = "string \<rightharpoonup> 'e mono_type"

definition substitution :: "string list \<Rightarrow> 'e mono_type list \<Rightarrow> 'e subst" where
  "substitution ns ts = map_of (rev (zip ns ts))"

text \<open>
  \<open>substituteF\<close> rebuilds a type; with \<open>transitive\<close> set it goes on into what it substitutes, which
  need not end, so the model bounds these steps by fuel. A record is rebuilt by \<open>Record::make\<close>,
  which resolves its layout.
\<close>

function (sequential) substF :: "'e beta \<Rightarrow> bool \<Rightarrow> nat \<Rightarrow> 'e subst \<Rightarrow> 'e mono_type \<Rightarrow> type_error + 'e mono_type" where
  "substF bt tr k s (Prim nm rep) = Inr (Prim nm rep)"
| "substF bt tr k s (OpaquePtr nm sz c) = Inr (opaqueMake nm sz c)"
| "substF bt tr k s (TVar n) =
     (case s n of
        None \<Rightarrow> Inr (TVar n)
      | Some t \<Rightarrow>
          if tr then (case k of 0 \<Rightarrow> Inl OutOfFuel | Suc k' \<Rightarrow> substF bt tr k' s t) else Inr t)"
| "substF bt tr k s (TGen x) = Inr (TGen x)"
| "substF bt tr k s (TAbs ns b) = mapR (TAbs ns) (substF bt tr k s b)"
| "substF bt tr k s (TApp f ts) =
     bindE (substF bt tr k s f) (\<lambda>f'. mapR (TApp f') (mapE (substF bt tr k s) ts))"
| "substF bt tr k s (FixedArray ty len) =
     bindE (substF bt tr k s (arrType ty)) (\<lambda>ty'. mapR (FixedArray ty') (substF bt tr k s len))"
| "substF bt tr k s (Array ty) = mapR Array (substF bt tr k s (arrType ty))"
| "substF bt tr k s (Variant ms) =
     mapR Variant (mapE (\<lambda>m. mapR (\<lambda>t. Member (mlabel m) t (mnum m)) (substF bt tr k s (mtype m))) ms)"
| "substF bt tr k s (Record ms) =
     bindE (mapE (\<lambda>m. mapR (\<lambda>t. Member (mlabel m) t (mnum m)) (substF bt tr k s (mtype m))) ms) (recordMake bt)"
| "substF bt tr k s (Func a r) =
     bindE (substF bt tr k s a) (\<lambda>a'. mapR (Func a') (substF bt tr k s r))"
| "substF bt tr k s (Exists n b) = mapR (Exists n) (substF bt tr k (s(n := None)) b)"
| "substF bt tr k s (Recursive n b) = mapR (Recursive n) (substF bt tr k (s(n := None)) b)"
| "substF bt tr k s (TString x) = Inr (TString x)"
| "substF bt tr k s (TLong x) = Inr (TLong x)"
| "substF bt tr k s (TExpr e) = Inr (TExpr e)"
  by pat_completeness auto
termination substF
  by (relation "measures [\<lambda>(bt, tr, k, s, t). k, \<lambda>(bt, tr, k, s, t). size t]")
    (auto simp: termination_simp less_Suc_eq_le intro: member_size [unfolded less_Suc_eq_le])

definition substituteStep :: "'e beta \<Rightarrow> 'e subst \<Rightarrow> 'e mono_type \<Rightarrow> type_error + 'e mono_type" where
  "substituteStep bt s mt = (if isMonoSingular mt then Inr mt else substF bt False 0 s mt)"

definition substitute :: "'e beta \<Rightarrow> nat \<Rightarrow> 'e subst \<Rightarrow> 'e mono_type \<Rightarrow> type_error + 'e mono_type" where
  "substitute bt k s mt = (if isMonoSingular mt then Inr mt else substF bt True k s mt)"

text \<open>
  The size of an application of a type function is the size of its body after substitution;
  applications nested more than \<open>n\<close> deep run out of fuel.
\<close>

primrec betaSize :: "nat \<Rightarrow> 'e beta" where
  "betaSize 0 = (\<lambda>ns ts b. Inl OutOfFuel)"
| "betaSize (Suc n) = (\<lambda>ns ts b.
     bindE (substitute (betaSize n) n (substitution ns ts) b) (sizeOf (betaSize n)))"

definition unroll :: "'e beta \<Rightarrow> 'e mono_type \<Rightarrow> type_error + 'e mono_type" where
  "unroll bt rty =
     (case rty of Recursive n b \<Rightarrow> substituteStep bt [n \<mapsto> rty] b | _ \<Rightarrow> Inl NotRecursive)"

definition unpackedType :: "'e beta \<Rightarrow> nat \<Rightarrow> 'e mono_type \<Rightarrow> type_error + 'e mono_type" where
  "unpackedType bt k mty =
     (case mty of Exists n b \<Rightarrow> substitute bt k [n \<mapsto> arraytyN (primty ''char'') 1] b | _ \<Rightarrow> Inr mty)"

end
