(* ===== verification/Type_Vars.thy ===== *)
theory Type_Vars
  imports Type_Layout
begin

text \<open>
  Constraints, qualified types and polytypes of \<^verbatim>\<open>lib/hobbes/lang/type.C\<close>, and the operations on
  the variables in them: generalisation, instantiation, fresh names, substitution in constraints
  and the renaming that is done before a type is shown.

  The counter for fresh names is a global of the program; the operations that draw from it take
  its value and return the next one. Sets of names are walked in the order of \<open>std::set\<close>.
\<close>

section \<open>Constraints, qualified types, polytypes\<close>

datatype cstate = Unresolved | Satisfied | Unsatisfiable

record 'e constraint =
  cat :: string
  cargs :: "'e mono_type list"
  cstate :: cstate

record 'e qual_type =
  qconstraints :: "'e constraint list"
  qmono :: "'e mono_type"

record 'e poly_type =
  pvars :: nat
  pqual :: "'e qual_type"

definition constraintMake :: "string \<Rightarrow> 'e mono_type list \<Rightarrow> 'e constraint" where
  "constraintMake nm ts = \<lparr>cat = nm, cargs = ts, cstate = Unresolved\<rparr>"

definition constraintEq :: "'e constraint \<Rightarrow> 'e constraint \<Rightarrow> bool" where
  "constraintEq c d \<longleftrightarrow> cat c = cat d \<and> length (cargs c) = length (cargs d) \<and>
     list_all (\<lambda>i. cargs c ! i = cargs d ! i) [0..<length (cargs c)]"

definition qualtype :: "'e constraint list \<Rightarrow> 'e mono_type \<Rightarrow> 'e qual_type" where
  "qualtype cs mt = \<lparr>qconstraints = cs, qmono = mt\<rparr>"

definition polytype :: "nat \<Rightarrow> 'e qual_type \<Rightarrow> 'e poly_type" where
  "polytype vs qt = \<lparr>pvars = vs, pqual = qt\<rparr>"

definition mergeConstraints :: "'e constraint list \<Rightarrow> 'e constraint list \<Rightarrow> 'e constraint list" where
  "mergeConstraints lhs rhs = lhs @ rhs"

section \<open>Names in types\<close>

definition tvarNamesTs :: "'e mono_type list \<Rightarrow> string set" where
  "tvarNamesTs ts = (\<Union>t \<in> set ts. freeTVars t)"

definition tvarNamesC :: "'e constraint \<Rightarrow> string set" where
  "tvarNamesC c = tvarNamesTs (cargs c)"

definition tvarNamesCs :: "'e constraint list \<Rightarrow> string set" where
  "tvarNamesCs cs = (\<Union>c \<in> set cs. tvarNamesC c)"

definition tvarNamesQ :: "'e qual_type \<Rightarrow> string set" where
  "tvarNamesQ qt = tvarNamesCs (qconstraints qt) \<union> freeTVars (qmono qt)"

definition isFreeVarNameIn :: "string \<Rightarrow> 'e mono_type list \<Rightarrow> bool" where
  "isFreeVarNameIn n ts = list_ex (\<lambda>t. n \<in> freeTVars t) ts"

definition hasFreeVariables :: "'e mono_type list \<Rightarrow> bool" where
  "hasFreeVariables ts = list_ex (\<lambda>t. \<not> isMonoSingular t) ts"

definition hasFreeVariablesQ :: "'e qual_type \<Rightarrow> bool" where
  "hasFreeVariablesQ qt =
     (list_ex (\<lambda>c. hasFreeVariables (cargs c)) (qconstraints qt) \<or> \<not> isMonoSingular (qmono qt))"

definition isMonoSingularQ :: "'e qual_type \<Rightarrow> bool" where
  "isMonoSingularQ qt \<longleftrightarrow> qconstraints qt = [] \<and> isMonoSingular (qmono qt)"

definition isMonotypeQ :: "'e qual_type \<Rightarrow> bool" where
  "isMonotypeQ qt \<longleftrightarrow> qconstraints qt = []"

definition isMonotypeP :: "'e poly_type \<Rightarrow> bool" where
  "isMonotypeP pt \<longleftrightarrow> pvars pt = 0 \<and> isMonotypeQ (pqual pt)"

definition requireMonotypeQ :: "'e qual_type \<Rightarrow> type_error + 'e mono_type" where
  "requireMonotypeQ qt = (if isMonotypeQ qt then Inr (qmono qt) else Inl NotMonotype)"

text \<open>\<open>tgenSize\<close> on constraints throws, whatever they are.\<close>

definition tgenSizeQ :: "'e qual_type \<Rightarrow> type_error + int" where
  "tgenSizeQ qt = Inl TGenSizeNYI"

section \<open>Fresh names\<close>

definition freshName :: "nat \<Rightarrow> string \<times> nat" where
  "freshName uid = (''.t'' @ strFrom uid, uid + 1)"

fun freshNames :: "nat \<Rightarrow> nat \<Rightarrow> string list \<times> nat" where
  "freshNames 0 uid = ([], uid)"
| "freshNames (Suc vs) uid =
     (let (n, uid1) = freshName uid; (ns, uid2) = freshNames vs uid1 in (n # ns, uid2))"

definition freshTypeVars :: "nat \<Rightarrow> nat \<Rightarrow> 'e mono_type list \<times> nat" where
  "freshTypeVars vs uid = map_prod (map TVar) id (freshNames vs uid)"

definition typeVars :: "string list \<Rightarrow> 'e mono_type list" where
  "typeVars ns = map TVar ns"

definition tgens :: "nat \<Rightarrow> 'e mono_type list" where
  "tgens c = map (\<lambda>i. TGen (of_nat i)) [0..<c]"

text \<open>The substitution of a fresh variable for every name of a set, in order.\<close>

definition freshSubst :: "string set \<Rightarrow> nat \<Rightarrow> 'e subst \<times> nat" where
  "freshSubst ns uid =
     (let names = sorted_list_of_set ns; (vs, uid') = freshTypeVars (length names) uid
      in (map_of (zip names vs), uid'))"

section \<open>Substitution in constraints and qualified types\<close>

definition substituteC :: "'e beta \<Rightarrow> nat \<Rightarrow> 'e subst \<Rightarrow> 'e constraint \<Rightarrow> type_error + 'e constraint" where
  "substituteC bt k s c = mapR (constraintMake (cat c)) (mapE (substitute bt k s) (cargs c))"

definition constraintIn :: "'e constraint \<Rightarrow> 'e constraint list \<Rightarrow> bool" where
  "constraintIn c cs = list_ex (constraintEq c) cs"

definition substituteCs :: "'e beta \<Rightarrow> nat \<Rightarrow> 'e subst \<Rightarrow> 'e constraint list \<Rightarrow> type_error + 'e constraint list" where
  "substituteCs bt k s cs =
     foldE (\<lambda>c r. mapR (\<lambda>sc. if constraintIn sc r then r else r @ [sc]) (substituteC bt k s c)) cs []"

definition substituteQ :: "'e beta \<Rightarrow> nat \<Rightarrow> 'e subst \<Rightarrow> 'e qual_type \<Rightarrow> type_error + 'e qual_type" where
  "substituteQ bt k s qt =
     bindE (substituteCs bt k s (qconstraints qt))
       (\<lambda>cs. mapR (qualtype cs) (substitute bt k s (qmono qt)))"

definition freshenTs :: "'e beta \<Rightarrow> nat \<Rightarrow> 'e mono_type list \<Rightarrow> nat \<Rightarrow> (type_error + 'e mono_type list) \<times> nat" where
  "freshenTs bt k ts uid =
     (let (s, uid') = freshSubst (tvarNamesTs ts) uid in (mapE (substitute bt k s) ts, uid'))"

definition freshenC :: "'e beta \<Rightarrow> nat \<Rightarrow> 'e constraint \<Rightarrow> nat \<Rightarrow> (type_error + 'e constraint) \<times> nat" where
  "freshenC bt k c uid =
     (let (s, uid') = freshSubst (tvarNamesC c) uid in (substituteC bt k s c, uid'))"

definition freshenCs :: "'e beta \<Rightarrow> nat \<Rightarrow> 'e constraint list \<Rightarrow> nat \<Rightarrow> (type_error + 'e constraint list) \<times> nat" where
  "freshenCs bt k cs uid =
     (let (s, uid') = freshSubst (tvarNamesCs cs) uid in (substituteCs bt k s cs, uid'))"

section \<open>Instantiation\<close>

text \<open>Indexing \<open>ts\<close> outside its bounds is undefined; the model gives \<open>TGenOutOfRange\<close>.\<close>

fun instantiateF :: "'e beta \<Rightarrow> 'e mono_type list \<Rightarrow> 'e mono_type \<Rightarrow> type_error + 'e mono_type" where
  "instantiateF bt ts (Prim nm rep) = Inr (Prim nm rep)"
| "instantiateF bt ts (OpaquePtr nm sz c) = Inr (opaqueMake nm sz c)"
| "instantiateF bt ts (TVar n) = Inr (TVar n)"
| "instantiateF bt ts (TGen x) =
     (if 0 \<le> sint x \<and> nat (sint x) < length ts then Inr (ts ! nat (sint x)) else Inl TGenOutOfRange)"
| "instantiateF bt ts (TAbs ns b) = mapR (TAbs ns) (instantiateF bt ts b)"
| "instantiateF bt ts (TApp f args) =
     bindE (instantiateF bt ts f) (\<lambda>f'. mapR (TApp f') (mapE (instantiateF bt ts) args))"
| "instantiateF bt ts (FixedArray ty len) =
     bindE (instantiateF bt ts (arrType ty)) (\<lambda>ty'. mapR (FixedArray ty') (instantiateF bt ts len))"
| "instantiateF bt ts (Array ty) = mapR Array (instantiateF bt ts (arrType ty))"
| "instantiateF bt ts (Variant ms) =
     mapR Variant (mapE (\<lambda>m. mapR (\<lambda>t. Member (mlabel m) t (mnum m)) (instantiateF bt ts (mtype m))) ms)"
| "instantiateF bt ts (Record ms) =
     bindE (mapE (\<lambda>m. mapR (\<lambda>t. Member (mlabel m) t (mnum m)) (instantiateF bt ts (mtype m))) ms) (recordMake bt)"
| "instantiateF bt ts (Func a r) =
     bindE (instantiateF bt ts a) (\<lambda>a'. mapR (Func a') (instantiateF bt ts r))"
| "instantiateF bt ts (Exists n b) = mapR (Exists n) (instantiateF bt ts b)"
| "instantiateF bt ts (Recursive n b) = mapR (Recursive n) (instantiateF bt ts b)"
| "instantiateF bt ts (TString x) = Inr (TString x)"
| "instantiateF bt ts (TLong x) = Inr (TLong x)"
| "instantiateF bt ts (TExpr e) = Inr (TExpr e)"

definition instantiate :: "'e beta \<Rightarrow> 'e mono_type list \<Rightarrow> 'e mono_type \<Rightarrow> type_error + 'e mono_type" where
  "instantiate bt ts mt = (if isMonoSingular mt then Inr mt else instantiateF bt ts mt)"

definition instantiateC :: "'e beta \<Rightarrow> 'e mono_type list \<Rightarrow> 'e constraint \<Rightarrow> type_error + 'e constraint" where
  "instantiateC bt ts c = mapR (constraintMake (cat c)) (mapE (instantiate bt ts) (cargs c))"

definition instantiateQ :: "'e beta \<Rightarrow> 'e mono_type list \<Rightarrow> 'e qual_type \<Rightarrow> type_error + 'e qual_type" where
  "instantiateQ bt ts qt =
     bindE (mapE (instantiateC bt ts) (qconstraints qt))
       (\<lambda>cs. mapR (qualtype cs) (instantiate bt ts (qmono qt)))"

definition instantiateP :: "'e beta \<Rightarrow> 'e poly_type \<Rightarrow> nat \<Rightarrow> (type_error + 'e qual_type) \<times> nat" where
  "instantiateP bt pt uid =
     (if pvars pt = 0 then (Inr (pqual pt), uid)
      else let (ts, uid') = freshTypeVars (pvars pt) uid in (instantiateQ bt ts (pqual pt), uid'))"

definition requireMonotypeP :: "'e beta \<Rightarrow> 'e poly_type \<Rightarrow> nat \<Rightarrow> (type_error + 'e mono_type) \<times> nat" where
  "requireMonotypeP bt pt uid =
     (if isMonotypeP pt
      then let (q, uid') = instantiateP bt pt uid in (bindE q requireMonotypeQ, uid')
      else (Inl NotMonotype, uid))"

section \<open>Generalisation and canonical names\<close>

definition tgenSubst :: "string set \<Rightarrow> 'e subst" where
  "tgenSubst ns =
     (let names = sorted_list_of_set ns
      in map_of (zip names (map (\<lambda>i. TGen (of_nat i)) [0..<length names])))"

definition generalize :: "'e beta \<Rightarrow> nat \<Rightarrow> 'e qual_type \<Rightarrow> type_error + 'e poly_type" where
  "generalize bt k qt =
     (let fnames = tvarNamesQ qt
      in mapR (polytype (card fnames)) (substituteQ bt k (tgenSubst fnames) qt))"

definition canonicalName :: "nat \<Rightarrow> string" where
  "canonicalName v = (if 26 \<le> v then ''t'' @ strFrom (v - 26) else [''abcdefghijklmnopqrstuvwxyz'' ! v])"

definition canonicalNameSubst :: "string set \<Rightarrow> 'e subst" where
  "canonicalNameSubst ns =
     (let names = sorted_list_of_set ns
      in map_of (filter (\<lambda>(n, t). t \<noteq> TVar n)
           (zip names (map (\<lambda>v. TVar (canonicalName v)) [0..<length names]))))"

definition simplifyVarNames :: "'e beta \<Rightarrow> nat \<Rightarrow> 'e mono_type \<Rightarrow> type_error + 'e mono_type" where
  "simplifyVarNames bt k t = substitute bt k (canonicalNameSubst (freeTVars t)) t"

definition simplifyVarNamesTs :: "'e beta \<Rightarrow> nat \<Rightarrow> 'e mono_type list \<Rightarrow> type_error + 'e mono_type list" where
  "simplifyVarNamesTs bt k ts = mapE (substitute bt k (canonicalNameSubst (tvarNamesTs ts))) ts"

definition simplifyVarNamesQ :: "'e beta \<Rightarrow> nat \<Rightarrow> 'e qual_type \<Rightarrow> type_error + 'e qual_type" where
  "simplifyVarNamesQ bt k qt = substituteQ bt k (canonicalNameSubst (tvarNamesQ qt)) qt"

definition simplifyVarNamesC :: "'e beta \<Rightarrow> nat \<Rightarrow> 'e constraint \<Rightarrow> type_error + 'e constraint" where
  "simplifyVarNamesC bt k c = substituteC bt k (canonicalNameSubst (tvarNamesC c)) c"

section \<open>Opaque aliases\<close>

text \<open>
  \<open>unalias\<close> replaces named types by their representation, apart from the three time types. The
  result is cached in the type when the type has variables; the cache does not show.
\<close>

fun unalias :: "'e beta \<Rightarrow> 'e mono_type \<Rightarrow> type_error + 'e mono_type" where
  "unalias bt (Prim nm rep) =
     (case rep of
        None \<Rightarrow> Inr (Prim nm None)
      | Some t \<Rightarrow> if nm \<notin> {''time'', ''datetime'', ''timespan''} then unalias bt t else Inr (Prim nm rep))"
| "unalias bt (OpaquePtr nm sz c) = Inr (opaqueMake nm sz c)"
| "unalias bt (TVar n) = Inr (TVar n)"
| "unalias bt (TGen x) = Inr (TGen x)"
| "unalias bt (TAbs ns b) = mapR (TAbs ns) (unalias bt b)"
| "unalias bt (TApp f args) = bindE (unalias bt f) (\<lambda>f'. mapR (TApp f') (mapE (unalias bt) args))"
| "unalias bt (FixedArray ty len) =
     bindE (unalias bt (arrType ty)) (\<lambda>ty'. mapR (FixedArray ty') (unalias bt len))"
| "unalias bt (Array ty) = mapR Array (unalias bt (arrType ty))"
| "unalias bt (Variant ms) =
     mapR Variant (mapE (\<lambda>m. mapR (\<lambda>t. Member (mlabel m) t (mnum m)) (unalias bt (mtype m))) ms)"
| "unalias bt (Record ms) =
     bindE (mapE (\<lambda>m. mapR (\<lambda>t. Member (mlabel m) t (mnum m)) (unalias bt (mtype m))) ms) (recordMake bt)"
| "unalias bt (Func a r) = bindE (unalias bt a) (\<lambda>a'. mapR (Func a') (unalias bt r))"
| "unalias bt (Exists n b) = mapR (Exists n) (unalias bt b)"
| "unalias bt (Recursive n b) = mapR (Recursive n) (unalias bt b)"
| "unalias bt (TString x) = Inr (TString x)"
| "unalias bt (TLong x) = Inr (TLong x)"
| "unalias bt (TExpr e) = Inr (TExpr e)"

end
