(* ===== verification/Layout_Props.thy ===== *)
theory Layout_Props
  imports Type_Layout
begin

text \<open>
  The layout that \<^verbatim>\<open>lib/hobbes/lang/type.C\<close> gives to records: resolved members do not overlap, are
  aligned and lie within the size of the record, and the explicitly padded form of a record
  places the same members at the same offsets when packed.
\<close>

section \<open>Alignment\<close>

lemma unat_align:
  assumes "unat x + unat m < 2 ^ 32"
  shows "unat x \<le> unat (align x m)" "unat (align x m) < unat x + max 1 (unat m)"
    "unat m dvd unat (align x m) \<or> m = 0"
proof -
  consider "m = 0" | "m \<noteq> 0" "x mod m = 0" | "m \<noteq> 0" "x mod m \<noteq> 0" by blast
  then have "unat x \<le> unat (align x m) \<and> unat (align x m) < unat x + max 1 (unat m) \<and>
      (unat m dvd unat (align x m) \<or> m = 0)"
  proof cases
    case 2
    have "unat x mod unat m = 0" using 2(2) by (metis unat_0 unat_mod)
    then show ?thesis using 2 by (auto simp: align_def)
  next
    case 3
    have pos: "0 < unat m" using 3(1) by (simp add: unat_gt_0)
    have "unat x mod unat m \<noteq> 0" using 3(2) by (metis unat_0 unat_mod word_unat_eq_iff)
    then have r: "0 < unat x mod unat m" "unat x mod unat m < unat m" using pos by auto
    define q where "q = unat x div unat m"
    have eq: "q * unat m + unat x mod unat m = unat x" unfolding q_def by (rule div_mult_mod_eq)
    have nxt: "(1 + q) * unat m = unat m + q * unat m" by simp
    then have b: "(1 + q) * unat m < 2 ^ 32" using eq assms r by linarith
    have "1 + q \<le> (1 + q) * unat m" using mult_le_mono2 [of 1 "unat m" "1 + q"] pos by simp
    then have "1 + q < 2 ^ 32" using b by linarith
    then have "unat (1 + x div m) = 1 + q"
      by (subst unat_plus_no_wrap) (simp_all add: unat_div q_def)
    then have "unat (align x m) = (1 + q) * unat m"
      using b 3 by (simp add: align_def unat_word_ariths)
    then show ?thesis using eq r nxt by auto
  qed (simp add: align_def)
  then show "unat x \<le> unat (align x m)" "unat (align x m) < unat x + max 1 (unat m)"
    "unat m dvd unat (align x m) \<or> m = 0" by simp_all
qed

text \<open>Alignments are powers of two up to eight.\<close>

definition align_value :: "u32 \<Rightarrow> bool" where
  "align_value a \<longleftrightarrow> a = 1 \<or> a = 2 \<or> a = 4 \<or> a = 8"

lemma sizeOfPrim_value: "sizeOfPrim nm = Inr n \<Longrightarrow> n \<noteq> 0 \<Longrightarrow> align_value n"
  by (auto simp: sizeOfPrim_def align_value_def split: if_splits)

lemma max_align_value: "align_value a \<Longrightarrow> align_value b \<Longrightarrow> align_value (max a b)"
  by (auto simp: align_value_def max_def)

lemma foldl_max_align_value:
  "align_value a \<Longrightarrow> \<forall>b \<in> set bs. align_value b \<Longrightarrow> align_value (foldl max a bs)"
  by (induction bs arbitrary: a) (simp_all add: max_align_value)

lemma alignment_value: "alignment bt t = Inr a \<Longrightarrow> align_value a"
  and "sizeOf bt t = Inr n \<Longrightarrow> True"
proof (induction bt t and bt t arbitrary: a and n rule: alignment_sizeOf.induct)
  case (1 bt nm rep)
  then obtain u where u: "unitSize (sizeOf bt (Prim nm rep)) = Inr u"
    "(if u then Inr 1 else case rep of None \<Rightarrow> sizeOf bt (Prim nm rep) | Some r \<Rightarrow> alignment bt r) = Inr a"
    by (auto simp: bindE_Inr_iff)
  show ?case
  proof (cases u)
    case True
    then show ?thesis using u(2) by (simp add: align_value_def)
  next
    case False
    show ?thesis
    proof (cases rep)
      case None
      then have n: "sizeOfPrim nm = Inr a" using u(2) False by simp
      then have "a \<noteq> 0" using u(1) False None by (simp add: unitSize_def)
      with n show ?thesis by (rule sizeOfPrim_value)
    next
      case (Some r)
      then show ?thesis using "1.IH"(3) [OF u(1) False Some] u(2) False by simp
    qed
  qed
next
  case (7 bt ms)
  then obtain as where as: "mapE (\<lambda>m. alignment bt (mtype m)) ms = Inr as" "a = foldl max 1 as"
    by (auto simp: mapR_Inr_iff)
  have "\<forall>b \<in> set as. align_value b"
  proof
    fix b assume "b \<in> set as"
    then obtain m where "m \<in> set ms" "alignment bt (mtype m) = Inr b"
      using mapE_Inr_mem [OF as(1)] by blast
    then show "align_value b" by (rule "7.IH")
  qed
  then show ?case unfolding as(2) by (intro foldl_max_align_value) (simp_all add: align_value_def)
qed (auto simp: align_value_def mapR_Inr_iff split: if_splits)

section \<open>Resolved layouts\<close>

lemma resolveLoop_Cons:
  fixes ms' :: "'e members"
  shows "resolveLoop bt off (m # ms) = Inr (Some ms') \<longleftrightarrow>
     (\<exists>a sz r. isMonoSingular (mtype m) \<and> alignment bt (mtype m) = Inr a \<and> sizeOf bt (mtype m) = Inr sz \<and>
        (mnum m = - 1 \<or> mnum m = align off a) \<and> resolveLoop bt (align off a + sz) ms = Inr (Some r) \<and>
        ms' = setNum (align off a) m # r)"
proof -
  have sm: "Some y = map_option f x \<longleftrightarrow> (\<exists>z. x = Some z \<and> y = f z)" for f x and y :: "'e members"
    by (cases x) auto
  have same: "setNum n m = m" if "mnum m = n" for n using that by (cases m) (simp add: setNum_def)
  show ?thesis
    by (cases "alignment bt (mtype m)"; cases "sizeOf bt (mtype m)")
      (auto simp: resolveLoop.simps(2) Let_def mapR_Inr_iff same sm)
qed

lemma setNum_simps [simp]: "mtype (setNum n m) = mtype m" "mnum (setNum n m) = n"
  "mlabel (setNum n m) = mlabel m" "setNum n (setNum k m) = setNum n m"
  by (simp_all add: setNum_def)

lemma resolveLoop_idem:
  "resolveLoop bt off ms = Inr (Some ms') \<Longrightarrow> resolveLoop bt off ms' = Inr (Some ms')"
  by (induction ms arbitrary: off ms') (auto simp: resolveLoop_Cons)


text \<open>
  Each member of a resolved record begins at the next multiple of its alignment after the
  member before it. \<open>bound\<close> bounds the offsets: when it stays below 2^31 no offset wraps.
\<close>

fun laid_out :: "'e beta \<Rightarrow> u32 \<Rightarrow> 'e members \<Rightarrow> bool" where
  "laid_out bt off [] = True"
| "laid_out bt off (m # ms) =
     (\<exists>a sz. alignment bt (mtype m) = Inr a \<and> sizeOf bt (mtype m) = Inr sz \<and>
        mnum m = align off a \<and> laid_out bt (mnum m + sz) ms)"

lemma resolveLoop_laid_out:
  "resolveLoop bt off ms = Inr (Some ms') \<Longrightarrow> laid_out bt off ms'"
  by (induction ms arbitrary: off ms') (auto simp: resolveLoop_Cons)

abbreviation valueOf :: "type_error + u32 \<Rightarrow> nat" where
  "valueOf r \<equiv> (case r of Inl e \<Rightarrow> 0 | Inr n \<Rightarrow> unat n)"

definition sizeNat :: "'e beta \<Rightarrow> 'e mono_type member \<Rightarrow> nat" where
  "sizeNat bt m = valueOf (sizeOf bt (mtype m))"

definition alignNat :: "'e beta \<Rightarrow> 'e mono_type member \<Rightarrow> nat" where
  "alignNat bt m = valueOf (alignment bt (mtype m))"

definition bound :: "'e beta \<Rightarrow> 'e members \<Rightarrow> nat" where
  "bound bt ms = (\<Sum>m\<leftarrow>ms. sizeNat bt m + alignNat bt m)"

lemma bound_simps [simp]: "bound bt [] = 0" "bound bt (m # ms) = sizeNat bt m + alignNat bt m + bound bt ms"
  by (simp_all add: bound_def)

lemma alignment_pos: "alignment bt t = Inr a \<Longrightarrow> a \<noteq> 0"
  using alignment_value [of bt t a] by (auto simp: align_value_def)

text \<open>The same over natural numbers.\<close>

fun laidNat :: "'e beta \<Rightarrow> nat \<Rightarrow> 'e members \<Rightarrow> bool" where
  "laidNat bt off [] = True"
| "laidNat bt off (m # ms) =
     (off \<le> unat (mnum m) \<and> unat (mnum m) < off + alignNat bt m \<and> alignNat bt m dvd unat (mnum m) \<and>
      laidNat bt (unat (mnum m) + sizeNat bt m) ms)"

lemma laid_out_nat:
  "laid_out bt off ms \<Longrightarrow> unat off + bound bt ms < 2 ^ 31 \<Longrightarrow> laidNat bt (unat off) ms"
proof (induction ms arbitrary: off)
  case (Cons m ms)
  then obtain a sz where m: "alignment bt (mtype m) = Inr a" "sizeOf bt (mtype m) = Inr sz"
    "mnum m = align off a" "laid_out bt (mnum m + sz) ms" by auto
  have n: "alignNat bt m = unat a" "sizeNat bt m = unat sz" using m by (simp_all add: alignNat_def sizeNat_def)
  have "0 < unat a" using alignment_pos [OF m(1)] by (simp add: unat_gt_0)
  then have al: "unat off \<le> unat (mnum m)" "unat (mnum m) < unat off + unat a" "unat a dvd unat (mnum m)"
    using unat_align [of off a] Cons.prems(2) n alignment_pos [OF m(1)] unfolding m(3) by auto
  have sum: "unat (mnum m + sz) = unat (mnum m) + unat sz"
    using al Cons.prems(2) n by (intro unat_plus_no_wrap) simp
  have "laidNat bt (unat (mnum m + sz)) ms"
    using Cons.IH [OF m(4)] al(2) Cons.prems(2) n sum by simp
  then show ?case using al n sum by simp
qed simp

lemma laidNat_bounds:
  "laidNat bt off ms \<Longrightarrow> m \<in> set ms \<Longrightarrow>
    off \<le> unat (mnum m) \<and> alignNat bt m dvd unat (mnum m) \<and>
    unat (mnum m) + sizeNat bt m \<le> off + bound bt ms"
proof (induction ms arbitrary: off)
  case (Cons k ms)
  then show ?case
  proof (cases "m = k")
    case False
    then have "m \<in> set ms" using Cons.prems(2) by simp
    from Cons.IH [OF _ this] Cons.prems(1) show ?thesis by fastforce
  qed simp
qed simp

lemma laidNat_disjoint:
  "laidNat bt off ms \<Longrightarrow> i < j \<Longrightarrow> j < length ms \<Longrightarrow>
    unat (mnum (ms ! i)) + sizeNat bt (ms ! i) \<le> unat (mnum (ms ! j))"
proof (induction ms arbitrary: off i j)
  case (Cons m ms)
  then obtain j' where j: "j = Suc j'" by (cases j) simp_all
  show ?case
  proof (cases i)
    case 0
    then show ?thesis using Cons.prems j laidNat_bounds [of bt _ ms "ms ! j'"] by fastforce
  next
    case (Suc i')
    then show ?thesis using Cons.prems j Cons.IH by auto
  qed
qed simp


section \<open>The size of a record\<close>

lemma align_value_dvd: "align_value a \<Longrightarrow> align_value b \<Longrightarrow> a \<le> b \<Longrightarrow> unat a dvd unat b"
  by (auto simp: align_value_def word_le_nat_alt)

lemma foldl_max_ge: "a \<le> foldl max a bs" "b \<in> set bs \<Longrightarrow> b \<le> foldl max (a :: u32) bs"
proof (induction bs arbitrary: a)
  case (Cons c bs)
  {
    case 1
    show ?case using Cons.IH(1) [of "max a c"] by simp
  next
    case 2
    then show ?case using Cons.IH(1) [of "max a c"] Cons.IH(2) [of "max a c"] by auto
  }
qed simp_all

definition alignAll :: "'e beta \<Rightarrow> 'e members \<Rightarrow> u32" where
  "alignAll bt ms = foldl max 1 (map (\<lambda>m. case alignment bt (mtype m) of Inl e \<Rightarrow> 1 | Inr a \<Rightarrow> a) ms)"

lemma laid_out_members:
  "laid_out bt off ms \<Longrightarrow> m \<in> set ms \<Longrightarrow>
    (\<exists>a. alignment bt (mtype m) = Inr a) \<and> (\<exists>sz. sizeOf bt (mtype m) = Inr sz)"
  by (induction ms arbitrary: off) auto

lemma alignAll_eq:
  assumes "laid_out bt off ms"
  shows "mapE (\<lambda>m. alignment bt (mtype m)) ms =
      Inr (map (\<lambda>m. case alignment bt (mtype m) of Inl e \<Rightarrow> 1 | Inr a \<Rightarrow> a) ms)"
    and "maxFieldAlignmentF bt ms = Inr (alignAll bt ms)"
proof -
  have "alignment bt (mtype m) = Inr (case alignment bt (mtype m) of Inl e \<Rightarrow> 1 | Inr a \<Rightarrow> a)"
    if "m \<in> set ms" for m using laid_out_members [OF assms that] by auto
  from mapE_all [OF this]
  show 1: "mapE (\<lambda>m. alignment bt (mtype m)) ms =
      Inr (map (\<lambda>m. case alignment bt (mtype m) of Inl e \<Rightarrow> 1 | Inr a \<Rightarrow> a) ms)" .
  show "maxFieldAlignmentF bt ms = Inr (alignAll bt ms)"
    unfolding maxFieldAlignmentF_def 1 by (simp add: alignAll_def)
qed

lemma alignAll_value: "align_value (alignAll bt ms)"
  unfolding alignAll_def
  by (rule foldl_max_align_value) (auto simp: align_value_def [of 1] alignment_value split: sum.split)

lemma alignAll_dvd:
  assumes "laid_out bt off ms" "m \<in> set ms"
  shows "alignNat bt m dvd unat (alignAll bt ms)"
proof -
  obtain a where a: "alignment bt (mtype m) = Inr a" using laid_out_members [OF assms] by auto
  then have "a \<in> set (map (\<lambda>m. case alignment bt (mtype m) of Inl e \<Rightarrow> 1 | Inr a \<Rightarrow> a) ms)"
    using assms(2) by force
  from foldl_max_ge(2) [OF this, of 1] have "a \<le> alignAll bt ms" by (simp add: alignAll_def)
  from align_value_dvd [OF alignment_value [OF a] alignAll_value this] show ?thesis
    by (simp add: alignNat_def a)
qed

lemma firstSized_rev:
  assumes "\<forall>m \<in> set ms. \<exists>sz. sizeOf bt (mtype m) = Inr sz"
  shows "(firstSized (\<lambda>m. sizeOf bt (mtype m)) (rev ms) = Inr None \<and> (\<forall>m \<in> set ms. sizeNat bt m = 0)) \<or>
    (\<exists>ys m zs sz. ms = ys @ m # zs \<and> sizeOf bt (mtype m) = Inr sz \<and> 0 < sz \<and> (\<forall>m \<in> set zs. sizeNat bt m = 0) \<and>
       firstSized (\<lambda>m. sizeOf bt (mtype m)) (rev ms) = Inr (Some (m, sz)))"
  using assms
proof (induction ms rule: rev_induct)
  case (snoc m ms)
  obtain sz where sz: "sizeOf bt (mtype m) = Inr sz" using snoc.prems by auto
  show ?case
  proof (cases "0 < sz")
    case True
    then show ?thesis using sz by (intro disjI2 exI [of _ ms] exI [of _ m] exI [of _ "[]"] exI [of _ sz]) simp
  next
    case False
    then have z: "sizeNat bt m = 0" "\<not> 0 < sz" using sz by (simp_all add: sizeNat_def word_gt_0)
    from snoc.IH snoc.prems consider
        "firstSized (\<lambda>m. sizeOf bt (mtype m)) (rev ms) = Inr None" "\<forall>m \<in> set ms. sizeNat bt m = 0"
      | ys k zs s where "ms = ys @ k # zs" "sizeOf bt (mtype k) = Inr s" "0 < s" "\<forall>m \<in> set zs. sizeNat bt m = 0"
        "firstSized (\<lambda>m. sizeOf bt (mtype m)) (rev ms) = Inr (Some (k, s))"
      by auto
    then show ?thesis
    proof cases
      case 1
      then show ?thesis using sz z by simp
    next
      case 2
      then show ?thesis using sz z
        by (intro disjI2 exI [of _ ys] exI [of _ k] exI [of _ "zs @ [m]"] exI [of _ s]) auto
    qed
  qed
qed simp

fun finOff :: "'e beta \<Rightarrow> nat \<Rightarrow> 'e members \<Rightarrow> nat" where
  "finOff bt off [] = off"
| "finOff bt off (m # ms) = finOff bt (unat (mnum m) + sizeNat bt m) ms"

lemma laidNat_append:
  "laidNat bt off (ms @ ns) \<longleftrightarrow> laidNat bt off ms \<and> laidNat bt (finOff bt off ms) ns"
  "finOff bt off (ms @ ns) = finOff bt (finOff bt off ms) ns"
  by (induction ms arbitrary: off) simp_all

lemma finOff_bounds: "laidNat bt off ms \<Longrightarrow> off \<le> finOff bt off ms \<and> finOff bt off ms \<le> off + bound bt ms"
  by (induction ms arbitrary: off) fastforce+

lemma laidNat_finOff: "laidNat bt off ms \<Longrightarrow> k \<in> set ms \<Longrightarrow> unat (mnum k) + sizeNat bt k \<le> finOff bt off ms"
proof (induction ms arbitrary: off)
  case (Cons m ms)
  then show ?case using finOff_bounds [of bt "unat (mnum m) + sizeNat bt m" ms] by auto
qed simp

text \<open>Members without size at the end stay below the next multiple of the record's alignment.\<close>

lemma finOff_zero:
  assumes "d dvd N" "\<forall>m \<in> set ms. sizeNat bt m = 0 \<and> alignNat bt m dvd d"
  shows "laidNat bt off ms \<Longrightarrow> off \<le> N \<Longrightarrow> finOff bt off ms \<le> N"
  using assms(2)
proof (induction ms arbitrary: off)
  case (Cons m ms)
  have z: "sizeNat bt m = 0" "alignNat bt m dvd N" using Cons.prems(3) assms(1) by (auto intro: dvd_trans)
  have l: "unat (mnum m) < off + alignNat bt m" "alignNat bt m dvd unat (mnum m)"
    "laidNat bt (unat (mnum m)) ms" using Cons.prems(1) z by simp_all
  have "unat (mnum m) \<le> N"
  proof (rule ccontr)
    assume "\<not> unat (mnum m) \<le> N"
    then have "0 < unat (mnum m) - N" "unat (mnum m) - N < alignNat bt m" using l(1) Cons.prems(2) by linarith+
    moreover have "alignNat bt m dvd unat (mnum m) - N" using l(2) z(2) by (rule dvd_diff_nat)
    ultimately show False by (meson dvd_imp_le not_le)
  qed
  then show ?case using Cons.IH [OF l(3)] Cons.prems(3) z by simp
qed simp

lemma multiples_eq:
  fixes d x y z :: nat
  assumes "d dvd x" "d dvd y" "x < y + d" "y < x + d"
  shows "x = y"
proof (rule ccontr)
  assume "x \<noteq> y"
  then consider "x < y" | "y < x" by linarith
  then show False
  proof cases
    case 1
    moreover have "d dvd y - x" using assms(1,2) by simp
    ultimately show False using assms(4) dvd_imp_le [of d "y - x"] by linarith
  next
    case 2
    moreover have "d dvd x - y" using assms(1,2) by simp
    ultimately show False using assms(3) dvd_imp_le [of d "x - y"] by linarith
  qed
qed

lemma record_size:
  assumes "laid_out bt 0 ms" "bound bt ms < 2 ^ 31"
  obtains n where "sizeOf bt (Record ms) = Inr n" "unat n < 2 ^ 32"
    "\<forall>m \<in> set ms. 0 < sizeNat bt m \<longrightarrow> unat (mnum m) + sizeNat bt m \<le> unat n"
    "n = align (of_nat (finOff bt 0 ms)) (alignAll bt ms)"
proof -
  let ?M = "alignAll bt ms"
  have lay: "laidNat bt 0 ms" using laid_out_nat [OF assms(1)] assms(2) by simp
  have Mv: "?M \<noteq> 0" "unat ?M \<le> 8" "1 \<le> unat ?M" using alignAll_value [of bt ms] by (auto simp: align_value_def)
  have fin: "finOff bt 0 ms < 2 ^ 31" using finOff_bounds [OF lay] assms(2) by simp
  define f where "f = (of_nat (finOff bt 0 ms) :: u32)"
  have f: "unat f = finOff bt 0 ms" using fin by (simp add: f_def unat_of_nat)
  have af: "finOff bt 0 ms \<le> unat (align f ?M)" "unat (align f ?M) < finOff bt 0 ms + unat ?M"
    "unat ?M dvd unat (align f ?M)"
    using unat_align [of f ?M] fin Mv f by (auto simp: unat_gt_0 max_def split: if_splits)
  have sizes: "\<forall>m \<in> set ms. \<exists>sz. sizeOf bt (mtype m) = Inr sz" using laid_out_members [OF assms(1)] by blast
  show thesis
  proof (cases "ms = []")
    case True
    then show thesis using that [of 0] by (simp add: align_def)
  next
    case False
    have sz: "sizeOf bt (Record ms) =
        mapR (recordSizeOf ?M) (firstSized (\<lambda>m. sizeOf bt (mtype m)) (rev ms))"
      using False alignAll_eq(1) [OF assms(1)] by (simp add: alignAll_def)
    from firstSized_rev [OF sizes] show thesis
    proof (elim disjE exE conjE)
      assume none: "firstSized (\<lambda>m. sizeOf bt (mtype m)) (rev ms) = Inr None" "\<forall>m \<in> set ms. sizeNat bt m = 0"
      have "finOff bt 0 ms \<le> 0"
        using none(2) alignAll_dvd [OF assms(1)] by (intro finOff_zero [OF _ _ lay, of "unat ?M" 0]) auto
      then have "f = 0" by (simp add: f_def)
      then show thesis using that [of 0] sz none by (simp add: recordSizeOf_def f_def align_def)
    next
      fix ys m zs s
      assume m: "ms = ys @ m # zs" "sizeOf bt (mtype m) = Inr s" "0 < s" "\<forall>m \<in> set zs. sizeNat bt m = 0"
        "firstSized (\<lambda>m. sizeOf bt (mtype m)) (rev ms) = Inr (Some (m, s))"
      let ?E = "unat (mnum m) + sizeNat bt m"
      have s: "sizeNat bt m = unat s" using m(2) by (simp add: sizeNat_def)
      have lz: "laidNat bt ?E zs" "finOff bt 0 ms = finOff bt ?E zs"
        using lay unfolding m(1) laidNat_append by simp_all
      have E: "?E < 2 ^ 31" using finOff_bounds [OF lz(1)] lz(2) fin by simp
      have Es: "unat (mnum m + s) = ?E" using E s by (subst unat_plus_no_wrap) simp_all
      let ?n = "align (mnum m + s) ?M"
      have n: "?E \<le> unat ?n" "unat ?n < ?E + unat ?M" "unat ?M dvd unat ?n"
        using unat_align [of "mnum m + s" ?M] E Mv Es by (auto simp: unat_gt_0 max_def split: if_splits)
      have "finOff bt 0 ms \<le> unat ?n"
        unfolding lz(2) using m(1,4) n alignAll_dvd [OF assms(1)] lz(1)
        by (intro finOff_zero [where d = "unat ?M"]) auto
      moreover have "?E \<le> finOff bt 0 ms" using finOff_bounds [OF lz(1)] lz(2) by simp
      ultimately have "unat ?n = unat (align f ?M)" using af n by (intro multiples_eq [where d = "unat ?M"]) auto
      then have nf: "?n = align f ?M" by (simp add: word_unat_eq_iff)
      have "unat (mnum k) + sizeNat bt k \<le> unat ?n" if "k \<in> set ms" for k
      proof -
        have "unat (mnum k) + sizeNat bt k \<le> finOff bt 0 ms" by (rule laidNat_finOff [OF lay that])
        then show ?thesis using af(1) nf by simp
      qed
      then show thesis using that [of ?n] sz m(5) nf unsigned_less [of ?n]
        by (simp add: recordSizeOf_def f_def)
    qed
  qed
qed

section \<open>Explicit padding\<close>

definition bytes :: "'e beta \<Rightarrow> 'e members \<Rightarrow> nat" where
  "bytes bt ms = (\<Sum>m\<leftarrow>ms. sizeNat bt m)"

lemma bytes_simps [simp]:
  "bytes bt [] = 0" "bytes bt (m # ms) = sizeNat bt m + bytes bt ms"
  "bytes bt (ms @ ns) = bytes bt ms + bytes bt ns"
  by (simp_all add: bytes_def)

lemma sizeNat_padField: "sizeNat bt (padField pfx p n) = unat (ucast n :: u32)"
  by (simp add: sizeNat_def padField_def arraytyN_def primty_def sizeOfPrim_def requireLength_def)

lemma sless_small:
  fixes x y :: u32
  assumes "unat x < 2 ^ 31" "unat y < 2 ^ 31"
  shows "x <s y \<longleftrightarrow> x < y"
proof -
  have "sint z = int (unat z)" if "unat z < 2 ^ 31" for z :: u32
  proof -
    have "int (unat z) < int (2 ^ 31)" using that by (simp only: of_nat_less_iff)
    then have "uint z < 2 ^ 31" by simp
    moreover have "- (2 ^ 31) \<le> uint z" by (rule order_trans [of _ 0]) simp_all
    ultimately have "signed_take_bit 31 (uint z) = uint z" by (intro signed_take_bit_int_eq_self)
    then show ?thesis by (simp add: sint_uint)
  qed
  then show ?thesis using assms by (simp add: word_sless_alt word_less_def)
qed

lemma sizeNat_pad_to:
  fixes x y :: u32
  assumes "x \<le> y"
  shows "sizeNat bt (padField pfx p (scast (y - x))) = unat y - unat x"
    "sizeNat bt (padField pfx p (ucast (y - x))) = unat y - unat x"
proof -
  have "ucast (scast z :: u64) = z" for z :: u32
    by (rule bit_word_eqI) (simp add: bit_simps)
  moreover have "ucast (ucast z :: u64) = z" for z :: u32
    by (rule bit_word_eqI) (simp add: bit_simps)
  ultimately show "sizeNat bt (padField pfx p (scast (y - x))) = unat y - unat x"
    "sizeNat bt (padField pfx p (ucast (y - x))) = unat y - unat x"
    using assms by (simp_all add: sizeNat_padField unat_sub)
qed

text \<open>Every member that takes space stands in the padded list after as many bytes as its offset says.\<close>

definition placed :: "'e beta \<Rightarrow> nat \<Rightarrow> 'e members \<Rightarrow> 'e mono_type member \<Rightarrow> bool" where
  "placed bt off ams m \<longleftrightarrow> (\<exists>ys zs. ams = ys @ m # zs \<and> off + bytes bt ys = unat (mnum m))"

lemma placed_prefix:
  "placed bt (off + bytes bt xs) ams m \<Longrightarrow> placed bt off (xs @ ams) m"
  unfolding placed_def by (metis append_assoc add.assoc bytes_simps(3))

lemma placed_append: "placed bt off ams m \<Longrightarrow> placed bt off (ams @ bs) m"
  unfolding placed_def by (metis append_Cons append_assoc)

lemma paddingLoop_spec:
  "laid_out bt off ms \<Longrightarrow> unat off + bound bt ms < 2 ^ 31 \<Longrightarrow>
    \<exists>r off' p'. paddingLoop bt pfx off p ms = Inr (r, off', p') \<and>
      unat off' = finOff bt (unat off) ms \<and> unat off + bytes bt r = unat off' \<and>
      (\<forall>m \<in> set ms. 0 < sizeNat bt m \<longrightarrow> placed bt (unat off) r m)"
proof (induction ms arbitrary: off p)
  case (Cons m ms)
  obtain a sz where m: "sizeOf bt (mtype m) = Inr sz" "laid_out bt (mnum m + sz) ms"
    using Cons.prems(1) by auto
  have lay: "laidNat bt (unat off) (m # ms)" by (rule laid_out_nat [OF Cons.prems])
  have s: "sizeNat bt m = unat sz" using m(1) by (simp add: sizeNat_def)
  have le: "unat off \<le> unat (mnum m)" "unat (mnum m) + unat sz + bound bt ms < 2 ^ 31"
    using lay Cons.prems(2) s by simp_all
  have sum: "unat (mnum m + sz) = unat (mnum m) + unat sz"
    using le(2) by (intro unat_plus_no_wrap) simp
  let ?pad = "if off <s mnum m then [padField pfx p (scast (mnum m - off))] else []"
  have "off <s mnum m \<longleftrightarrow> off < mnum m" using le Cons.prems(2) by (intro sless_small) simp_all
  then have pad: "unat off + bytes bt ?pad = unat (mnum m)"
    using le(1) sizeNat_pad_to(1) [of off "mnum m" bt pfx p]
    by (auto simp: word_le_nat_alt word_less_nat_alt)
  have "unat (mnum m + sz) + bound bt ms < 2 ^ 31" using le(2) sum by simp
  from Cons.IH [OF m(2) this, of "p + length ?pad"] obtain r off' p' where
    r: "paddingLoop bt pfx (mnum m + sz) (p + length ?pad) ms = Inr (r, off', p')"
    "unat off' = finOff bt (unat (mnum m + sz)) ms" "unat (mnum m + sz) + bytes bt r = unat off'"
    "\<forall>k \<in> set ms. 0 < sizeNat bt k \<longrightarrow> placed bt (unat (mnum m + sz)) r k" by blast
  let ?m = "if 0 < sz then [m] else []"
  have bm: "bytes bt ?m = unat sz" using s by (auto simp: word_gt_0)
  have run: "paddingLoop bt pfx off p (m # ms) = Inr (?pad @ ?m @ r, off', p')"
    using m(1) r(1) by (cases "off <s mnum m") (simp_all add: Let_def)
  have pre: "unat off + bytes bt (?pad @ ?m) = unat (mnum m + sz)" using pad bm sum by simp
  have "placed bt (unat off) (?pad @ ?m @ r) k" if "k \<in> set (m # ms)" "0 < sizeNat bt k" for k
  proof (cases "k = m")
    case True
    then have "?m = [m]" using that(2) s by (simp add: unat_gt_0 word_gt_0)
    then show ?thesis using pad True unfolding placed_def
      by (intro exI [of _ ?pad] exI [of _ r]) simp
  next
    case False
    then have "placed bt (unat off + bytes bt (?pad @ ?m)) r k" unfolding pre using r(4) that by simp
    from placed_prefix [OF this] show ?thesis by simp
  qed
  moreover have "unat off + bytes bt (?pad @ ?m @ r) = unat off'" using pre r(3) by simp
  moreover have "unat off' = finOff bt (unat off) (m # ms)" using r(2) sum s by simp
  ultimately show ?case using run by blast
qed (simp)

lemma padding_spec:
  assumes "laid_out bt 0 ms" "bound bt ms < 2 ^ 31"
  shows "\<exists>ams n. withExplicitPadding bt pfx ms = Inr ams \<and> sizeOf bt (Record ms) = Inr n \<and>
    bytes bt ams = unat n \<and> (\<forall>m \<in> set ms. 0 < sizeNat bt m \<longrightarrow> placed bt 0 ams m)"
proof -
  obtain n where n: "sizeOf bt (Record ms) = Inr n" "n = align (of_nat (finOff bt 0 ms)) (alignAll bt ms)"
    using record_size [OF assms] by metis
  have "unat (0 :: u32) + bound bt ms < 2 ^ 31" using assms(2) by simp
  from paddingLoop_spec [OF assms(1) this, of pfx 0] obtain r off' p' where
    r: "paddingLoop bt pfx 0 0 ms = Inr (r, off', p')" "unat off' = finOff bt 0 ms"
    "bytes bt r = unat off'" "\<forall>m \<in> set ms. 0 < sizeNat bt m \<longrightarrow> placed bt 0 r m" by auto
  have off: "off' = of_nat (finOff bt 0 ms)" unfolding r(2) [symmetric] by simp
  let ?M = "alignAll bt ms"
  let ?tail = "if off' < align off' ?M then [padField pfx p' (ucast (align off' ?M - off'))] else []"
  have fin: "finOff bt 0 ms < 2 ^ 31"
    using finOff_bounds [OF laid_out_nat [OF assms(1)]] assms(2) by simp
  have "0 < ?M" "unat ?M \<le> 8" using alignAll_value [of bt ms] by (auto simp: align_value_def)
  then have run: "withExplicitPadding bt pfx ms = Inr (r @ ?tail)"
    and "off' \<le> align off' ?M"
    using r(1,2) alignAll_eq(2) [OF assms(1)] unat_align(1) [of off' ?M] fin
    by (simp_all add: withExplicitPadding_def word_le_nat_alt)
  moreover have "n = align off' ?M" unfolding n(2) off ..
  ultimately have "bytes bt (r @ ?tail) = unat n"
    using sizeNat_pad_to(2) [of off' "align off' ?M" bt pfx p'] r(3)
    by (auto simp: word_le_nat_alt word_less_nat_alt)
  then show ?thesis using run n(1) r(4) placed_append by blast
qed

section \<open>Properties\<close>

lemma recordMake_laid_out:
  assumes "recordMake bt ms = Inr (Record ms')" "\<forall>m \<in> set ms. isMonoSingular (mtype m)"
  shows "resolveLoop bt 0 ms = Inr (Some ms')" "map mtype ms' = map mtype ms" "bound bt ms' = bound bt ms"
proof -
  have "resolveLoop bt off ms \<noteq> Inr None" for off
    using assms(2)
  proof (induction ms arbitrary: off)
    case (Cons m ms)
    then show ?case by (auto simp: resolveLoop.simps(2) Let_def bindE_Inr_iff mapR_Inr_iff split: if_splits)
  qed simp
  then obtain r where "resolveLoop bt 0 ms = Inr (Some r)"
    using assms(1) by (auto simp: recordMake_def withResolvedMemoryLayout_def mapR_Inr_iff) (metis option.exhaust)
  then show r: "resolveLoop bt 0 ms = Inr (Some ms')"
    using assms(1) by (simp add: recordMake_def withResolvedMemoryLayout_def)
  have types: "resolveLoop bt off ms = Inr (Some ms') \<Longrightarrow> map mtype ms' = map mtype ms" for off
    by (induction ms arbitrary: off ms') (auto simp: resolveLoop_Cons)
  then show eq: "map mtype ms' = map mtype ms" using r by blast
  have bk: "bound bt ks = (\<Sum>t\<leftarrow>map mtype ks. valueOf (sizeOf bt t) + valueOf (alignment bt t))" for ks
    by (simp add: bound_def sizeNat_def alignNat_def comp_def)
  show "bound bt ms' = bound bt ms" by (simp only: bk eq)
qed

text \<open>
  C11. The layout of a record: once offsets are resolved, every member starts at a multiple of its
  alignment, ends before any later member starts, and ends within the size of the record. The
  bound says that sizes and alignments add up to less than 2^31, so that no offset wraps.
\<close>

theorem record_layout_disjoint:
  assumes "recordMake bt ms = Inr (Record ms')" "\<forall>m \<in> set ms. isMonoSingular (mtype m)"
    and "bound bt ms < 2 ^ 31"
  shows "\<exists>n. sizeOf bt (Record ms') = Inr n \<and>
    (\<forall>m \<in> set ms'. alignNat bt m dvd unat (mnum m)) \<and>
    (\<forall>m \<in> set ms'. 0 < sizeNat bt m \<longrightarrow> unat (mnum m) + sizeNat bt m \<le> unat n) \<and>
    (\<forall>j < length ms'. \<forall>i < j. unat (mnum (ms' ! i)) + sizeNat bt (ms' ! i) \<le> unat (mnum (ms' ! j)))"
proof -
  note r = recordMake_laid_out [OF assms(1,2)]
  have lay: "laid_out bt 0 ms'" by (rule resolveLoop_laid_out [OF r(1)])
  have b: "bound bt ms' < 2 ^ 31" using r(3) assms(3) by simp
  have nat: "laidNat bt 0 ms'" using laid_out_nat [OF lay] b by simp
  obtain n where "sizeOf bt (Record ms') = Inr n"
    "\<forall>m \<in> set ms'. 0 < sizeNat bt m \<longrightarrow> unat (mnum m) + sizeNat bt m \<le> unat n"
    using record_size [OF lay b] by metis
  then show ?thesis using laidNat_bounds [OF nat] laidNat_disjoint [OF nat] by blast
qed

text \<open>
  C30. The padded form of a record, which code generation hands to LLVM as a packed structure, has
  the record's size and puts every member that takes space at the offset the layout gave it.
\<close>

theorem padding_matches_layout:
  assumes "recordMake bt ms = Inr (Record ms')" "\<forall>m \<in> set ms. isMonoSingular (mtype m)"
    and "bound bt ms < 2 ^ 31"
  shows "\<exists>ams n. withExplicitPadding bt pfx ms' = Inr ams \<and> sizeOf bt (Record ms') = Inr n \<and>
    bytes bt ams = unat n \<and> (\<forall>m \<in> set ms'. 0 < sizeNat bt m \<longrightarrow> placed bt 0 ams m)"
proof -
  note r = recordMake_laid_out [OF assms(1,2)]
  show ?thesis
    using padding_spec [OF resolveLoop_laid_out [OF r(1)]] r(3) assms(3) by simp
qed

text \<open>
  Resolving a layout is idempotent: making a record again from the members of a made record
  changes nothing and cannot fail.
\<close>

theorem layout_idempotent:
  assumes "withResolvedMemoryLayout bt ms = Inr ms'"
  shows "withResolvedMemoryLayout bt ms' = Inr ms'"
proof -
  obtain r where r: "resolveLoop bt 0 ms = Inr r" "ms' = (case r of None \<Rightarrow> ms | Some ms' \<Rightarrow> ms')"
    using assms by (auto simp: withResolvedMemoryLayout_def mapR_Inr_iff)
  show ?thesis
  proof (cases r)
    case None
    then show ?thesis using r by (simp add: withResolvedMemoryLayout_def)
  next
    case (Some ms'')
    then show ?thesis using r resolveLoop_idem [of bt 0 ms ms''] by (simp add: withResolvedMemoryLayout_def)
  qed
qed

text \<open>
  Explicit padding is not idempotent, although its declaration asks for it: the padding fields
  it adds carry no offset, and a second pass takes that for offset -1 and pads again.
\<close>

theorem padding_not_idempotent:
  "\<exists>ms ams ams'. recordMake (betaSize 0) [Member ''a'' (primty ''byte'') (- 1), Member ''b'' (primty ''int'') (- 1)] =
       Inr (Record ms :: unit mono_type) \<and>
     withExplicitPadding (betaSize 0) ''.p'' ms = Inr ams \<and>
     withExplicitPadding (betaSize 0) ''.p'' ams = Inr ams' \<and> length ams' \<noteq> length ams"
proof -
  let ?a = "Member ''a'' (primty ''byte'') 0 :: unit mono_type member" and ?b = "Member ''b'' (primty ''int'') 4"
  let ?p = "\<lambda>i n. padField ''.p'' i n"
  have "recordMake (betaSize 0) [Member ''a'' (primty ''byte'') (- 1), Member ''b'' (primty ''int'') (- 1)] =
      Inr (Record [?a, ?b])" by code_simp
  moreover have "withExplicitPadding (betaSize 0) ''.p'' [?a, ?b] = Inr [?a, ?p 0 3, ?b]" by code_simp
  moreover have "withExplicitPadding (betaSize 0) ''.p'' [?a, ?p 0 3, ?b] = Inr [?a, ?p 0 3, ?p 0 2, ?b]" by code_simp
  ultimately show ?thesis by fastforce
qed

lemma layout_idempotent_witness:
  "withResolvedMemoryLayout (betaSize 0) [Member ''a'' (primty ''byte'') 0, Member ''b'' (primty ''int'') 4] =
     (Inr [Member ''a'' (primty ''byte'') 0, Member ''b'' (primty ''int'') 4] :: type_error + unit members)"
proof -
  have "withResolvedMemoryLayout (betaSize 0) [Member ''a'' (primty ''byte'') (- 1), Member ''b'' (primty ''int'') (- 1)] =
     (Inr [Member ''a'' (primty ''byte'') 0, Member ''b'' (primty ''int'') 4] :: type_error + unit members)" by code_simp
  then show ?thesis by (rule layout_idempotent)
qed

lemma record_layout_disjoint_witness:
  "\<exists>n. sizeOf (betaSize 0) (Record [Member ''a'' (primty ''byte'') 0, Member ''b'' (primty ''int'') 4] :: unit mono_type) = Inr n \<and>
     4 + sizeNat (betaSize 0) (Member ''b'' (primty ''int'') 4 :: unit mono_type member) \<le> unat n"
proof -
  let ?ms = "[Member ''a'' (primty ''byte'') (- 1), Member ''b'' (primty ''int'') (- 1)] :: unit members"
  let ?b = "Member ''b'' (primty ''int'') 4 :: unit mono_type member"
  let ?ms' = "[Member ''a'' (primty ''byte'') 0, ?b]"
  have "recordMake (betaSize 0) ?ms = Inr (Record ?ms')" by code_simp
  moreover have "\<forall>m \<in> set ?ms. isMonoSingular (mtype m)" by code_simp
  moreover have "bound (betaSize 0) ?ms < 2 ^ 31"
    by (simp add: sizeNat_def alignNat_def primty_def unitSize_def sizeOfPrim_def)
  ultimately obtain n where n: "sizeOf (betaSize 0) (Record ?ms') = Inr n"
    "\<forall>m \<in> set ?ms'. 0 < sizeNat (betaSize 0) m \<longrightarrow> unat (mnum m) + sizeNat (betaSize 0) m \<le> unat n"
    using record_layout_disjoint by blast
  have "0 < sizeNat (betaSize 0) ?b" by code_simp
  with n show ?thesis by auto
qed

lemma padding_matches_layout_witness:
  "\<exists>ams. withExplicitPadding (betaSize 0) ''.p'' [Member ''a'' (primty ''byte'') 0, Member ''b'' (primty ''int'') 4] = Inr ams \<and>
     bytes (betaSize 0) (ams :: unit members) = 8"
proof -
  let ?ms = "[Member ''a'' (primty ''byte'') (- 1), Member ''b'' (primty ''int'') (- 1)] :: unit members"
  let ?ms' = "[Member ''a'' (primty ''byte'') 0, Member ''b'' (primty ''int'') 4] :: unit members"
  have "recordMake (betaSize 0) ?ms = Inr (Record ?ms')" by code_simp
  moreover have "\<forall>m \<in> set ?ms. isMonoSingular (mtype m)" by code_simp
  moreover have "bound (betaSize 0) ?ms < 2 ^ 31"
    by (simp add: sizeNat_def alignNat_def primty_def unitSize_def sizeOfPrim_def)
  ultimately obtain ams n where p: "withExplicitPadding (betaSize 0) ''.p'' ?ms' = Inr ams"
    "sizeOf (betaSize 0) (Record ?ms') = Inr n" "bytes (betaSize 0) ams = unat n"
    using padding_matches_layout by blast
  have "sizeOf (betaSize 0) (Record ?ms') = Inr 8" by code_simp
  then show ?thesis using p by simp
qed

end
