(* ===== verification/Type_Subst.thy ===== *)
theory Type_Subst
  imports Type_Vars Layout_Props
begin

section \<open>Types as the constructors make them\<close>

text \<open>
  \<open>plain\<close>: the contiguity flag and the size of opaque pointers agree, records are as
  \<open>Record::make\<close> returns them, representations of named types are closed, and there is no
  abstraction over types (whose variables \<open>freeTVars\<close> does not see). \<open>normal\<close>: element types of
  arrays are as the constructors normalise them.
\<close>

fun plain :: "'e beta \<Rightarrow> 'e mono_type \<Rightarrow> bool" where
  "plain bt (Prim nm rep) = (case rep of None \<Rightarrow> True | Some r \<Rightarrow> plain bt r \<and> isMonoSingular r)"
| "plain bt (OpaquePtr nm sz c) = (c \<or> sz = 0)"
| "plain bt (TVar n) = True"
| "plain bt (TGen x) = True"
| "plain bt (TAbs ns b) = False"
| "plain bt (TApp f ts) = (plain bt f \<and> (\<forall>t \<in> set ts. plain bt t))"
| "plain bt (FixedArray ty len) = (plain bt ty \<and> plain bt len)"
| "plain bt (Array ty) = plain bt ty"
| "plain bt (Variant ms) = (\<forall>m \<in> set ms. plain bt (mtype m))"
| "plain bt (Record ms) = (recordMake bt ms = Inr (Record ms) \<and> (\<forall>m \<in> set ms. plain bt (mtype m)))"
| "plain bt (Func a r) = (plain bt a \<and> plain bt r)"
| "plain bt (Exists n b) = plain bt b"
| "plain bt (Recursive n b) = plain bt b"
| "plain bt (TString x) = True"
| "plain bt (TLong x) = True"
| "plain bt (TExpr e) = True"

fun normal :: "'e mono_type \<Rightarrow> bool" where
  "normal (TAbs ns b) = normal b"
| "normal (TApp f ts) = (normal f \<and> (\<forall>t \<in> set ts. normal t))"
| "normal (FixedArray ty len) = (arrType ty = ty \<and> normal ty \<and> normal len)"
| "normal (Array ty) = (arrType ty = ty \<and> normal ty)"
| "normal (Variant ms) = (\<forall>m \<in> set ms. normal (mtype m))"
| "normal (Record ms) = (\<forall>m \<in> set ms. normal (mtype m))"
| "normal (Func a r) = (normal a \<and> normal r)"
| "normal (Exists n b) = normal b"
| "normal (Recursive n b) = normal b"
| "normal t = True"

lemma plain_arrType [simp]: "plain bt t \<Longrightarrow> plain bt (arrType t)"
  by (cases t rule: normIfOpaquePtr.cases) (simp_all add: opaqueMake_def)

lemma freeTVars_arrType [simp]: "freeTVars (arrType t) = freeTVars t"
  by (cases t rule: normIfOpaquePtr.cases) (simp_all add: opaqueMake_def)

lemma tgenCount_arrType [simp]: "tgenCount (arrType t) = tgenCount t"
  by (cases t rule: normIfOpaquePtr.cases) (simp_all add: opaqueMake_def)

lemma opaqueMake_same [simp]: "c \<or> sz = 0 \<Longrightarrow> opaqueMake nm sz c = OpaquePtr nm sz c"
  by (auto simp: opaqueMake_def)

lemma freeTVars_members:
  "freeTVars (Variant ms) = (\<Union>m \<in> set ms. freeTVars (mtype m))"
  "freeTVars (Record ms) = (\<Union>m \<in> set ms. freeTVars (mtype m))"
  by (auto simp: member.map_sel)

declare freeTVars.simps(9,10) [simp del] 

lemmas [simp] = freeTVars_members

lemma Member_eta: "Member (mlabel m) (mtype m) (mnum m) = m"
  by (cases m) simp

lemma members_same:
  assumes "\<And>m. m \<in> set ms \<Longrightarrow> f (mtype m) = Inr (mtype m)"
  shows "mapE (\<lambda>m. mapR (\<lambda>t. Member (mlabel m) t (mnum m)) (f (mtype m))) ms = Inr ms"
proof -
  have "mapE (\<lambda>m. mapR (\<lambda>t. Member (mlabel m) t (mnum m)) (f (mtype m))) ms = Inr (map id ms)"
    using assms by (intro mapE_all) (simp add: Member_eta)
  then show ?thesis by simp
qed

lemma mapE_same: "(\<And>t. t \<in> set ts \<Longrightarrow> f t = Inr t) \<Longrightarrow> mapE f ts = Inr ts"
  using mapE_all [of ts f id] by simp

section \<open>Substitution away from the variables of a type\<close>

lemma subst_nop:
  "plain bt t \<Longrightarrow> normal t \<Longrightarrow> dom s \<inter> freeTVars t = {} \<Longrightarrow> substF bt tr k s t = Inr t"
proof (induction bt tr k s t rule: substF.induct)
  case (3 bt tr k s n)
  then show ?case by (auto split: option.split)
next
  case (6 bt tr k s f ts)
  have f: "substF bt tr k s f = Inr f" using "6.IH"(1) "6.prems" by (auto simp: Int_Un_distrib)
  then have "mapE (substF bt tr k s) ts = Inr ts" using "6.IH"(2) "6.prems" by (intro mapE_same) fastforce
  then show ?case using f by simp
next
  case (9 bt tr k s ms)
  have "mapE (\<lambda>m. mapR (\<lambda>t. Member (mlabel m) t (mnum m)) (substF bt tr k s (mtype m))) ms = Inr ms"
    using 9 by (intro members_same) fastforce
  then show ?case by simp
next
  case (10 bt tr k s ms)
  have "mapE (\<lambda>m. mapR (\<lambda>t. Member (mlabel m) t (mnum m)) (substF bt tr k s (mtype m))) ms = Inr ms"
    using 10 by (intro members_same) fastforce
  then show ?case using 10 by simp
next
  case (7 bt tr k s ty len)
  have "substF bt tr k s (arrType ty) = Inr ty" using "7.IH"(1) "7.prems" by (simp add: Int_Un_distrib)
  then show ?case using "7.IH"(2) "7.prems" by (simp add: Int_Un_distrib)
next
  case (11 bt tr k s a r)
  have "substF bt tr k s a = Inr a" using "11.IH"(1) "11.prems" by (simp add: Int_Un_distrib)
  then show ?case using "11.IH"(2) "11.prems" by (simp add: Int_Un_distrib)
next
  case (12 bt tr k s n b)
  have "dom (s(n := None)) \<inter> freeTVars b = {}" using "12.prems"(3) by auto
  then have "substF bt tr k (s(n := None)) b = Inr b"
    by (rule "12.IH" [rotated 2]) (use "12.prems" in simp_all)
  then show ?case by simp
next
  case (13 bt tr k s n b)
  have "dom (s(n := None)) \<inter> freeTVars b = {}" using "13.prems"(3) by auto
  then have "substF bt tr k (s(n := None)) b = Inr b"
    by (rule "13.IH" [rotated 2]) (use "13.prems" in simp_all)
  then show ?case by simp
qed auto

section \<open>Variables after substitution\<close>

lemma resolveLoop_types: "resolveLoop bt off ms = Inr (Some ms') \<Longrightarrow> map mtype ms' = map mtype ms"
  by (induction ms arbitrary: off ms') (auto simp: resolveLoop_Cons)

lemma recordMake_types:
  assumes "recordMake bt ms = Inr t"
  obtains ms' where "t = Record ms'" "map mtype ms' = map mtype ms" "recordMake bt ms' = Inr (Record ms')"
proof -
  obtain r where r: "resolveLoop bt 0 ms = Inr r" "t = Record (case r of None \<Rightarrow> ms | Some ms' \<Rightarrow> ms')"
    using assms by (auto simp: recordMake_def withResolvedMemoryLayout_def mapR_Inr_iff)
  show thesis
  proof (cases r)
    case None
    then show thesis using that r by (simp add: recordMake_def withResolvedMemoryLayout_def)
  next
    case (Some ms')
    then show thesis using that [of ms'] r resolveLoop_types [of bt 0 ms ms'] resolveLoop_idem [of bt 0 ms ms']
      by (simp add: recordMake_def withResolvedMemoryLayout_def)
  qed
qed

lemma members_mem:
  assumes "mapE (\<lambda>m. mapR (\<lambda>t. Member (mlabel m) t (mnum m)) (f (mtype m))) ms = Inr ms'"
    "t' \<in> set (map mtype ms')"
  obtains m where "m \<in> set ms" "f (mtype m) = Inr t'"
proof -
  obtain m' where "m' \<in> set ms'" "t' = mtype m'" using assms(2) by auto
  then show thesis using mapE_Inr_mem [OF assms(1)] that by (fastforce simp: mapR_Inr_iff)
qed

text \<open>The results of a substitution that succeeds, by the form of the type.\<close>

lemma substF_InrE:
  "substF bt tr k s (TApp f ts) = Inr t' \<Longrightarrow>
    \<exists>f' ts'. substF bt tr k s f = Inr f' \<and> mapE (substF bt tr k s) ts = Inr ts' \<and> t' = TApp f' ts'"
  "substF bt tr k s (FixedArray ty len) = Inr t' \<Longrightarrow>
    \<exists>ty' len'. substF bt tr k s (arrType ty) = Inr ty' \<and> substF bt tr k s len = Inr len' \<and> t' = FixedArray ty' len'"
  "substF bt tr k s (Array ty) = Inr t' \<Longrightarrow> \<exists>ty'. substF bt tr k s (arrType ty) = Inr ty' \<and> t' = Array ty'"
  "substF bt tr k s (Variant ms) = Inr t' \<Longrightarrow>
    \<exists>ms'. mapE (\<lambda>m. mapR (\<lambda>t. Member (mlabel m) t (mnum m)) (substF bt tr k s (mtype m))) ms = Inr ms' \<and> t' = Variant ms'"
  "substF bt tr k s (Record ms) = Inr t' \<Longrightarrow>
    \<exists>ms'. mapE (\<lambda>m. mapR (\<lambda>t. Member (mlabel m) t (mnum m)) (substF bt tr k s (mtype m))) ms = Inr ms' \<and>
      recordMake bt ms' = Inr t'"
  "substF bt tr k s (Func a r) = Inr t' \<Longrightarrow>
    \<exists>a' r'. substF bt tr k s a = Inr a' \<and> substF bt tr k s r = Inr r' \<and> t' = Func a' r'"
  "substF bt tr k s (Exists n b) = Inr t' \<Longrightarrow> \<exists>b'. substF bt tr k (s(n := None)) b = Inr b' \<and> t' = Exists n b'"
  "substF bt tr k s (Recursive n b) = Inr t' \<Longrightarrow> \<exists>b'. substF bt tr k (s(n := None)) b = Inr b' \<and> t' = Recursive n b'"
  by (auto simp: bindE_Inr_iff mapR_Inr_iff)


lemma subst_plain:
  "plain bt t \<Longrightarrow> \<forall>n u. s n = Some u \<longrightarrow> plain bt u \<Longrightarrow> substF bt tr k s t = Inr t' \<Longrightarrow> plain bt t'"
proof (induction bt tr k s t arbitrary: t' rule: substF.induct)
  case (3 bt tr k s n)
  then show ?case by (auto split: option.splits if_splits nat.splits)
next
  case (6 bt tr k s f ts)
  from substF_InrE(1) [OF "6.prems"(3)] obtain f' ts' where
    t': "substF bt tr k s f = Inr f'" "mapE (substF bt tr k s) ts = Inr ts'" "t' = TApp f' ts'" by blast
  have "plain bt u'" if u': "u' \<in> set ts'" for u'
  proof -
    obtain u where u: "u \<in> set ts" "substF bt tr k s u = Inr u'" using mapE_Inr_mem [OF t'(2) u'] by blast
    show ?thesis by (rule "6.IH"(2) [OF t'(1) u(1) _ "6.prems"(2) u(2)]) (use "6.prems"(1) u(1) in simp)
  qed
  moreover have "plain bt f'" by (rule "6.IH"(1) [OF _ "6.prems"(2) t'(1)]) (use "6.prems"(1) in simp)
  ultimately show ?case using t'(3) by simp
next
  case (7 bt tr k s ty len)
  from substF_InrE(2) [OF "7.prems"(3)] obtain ty' len' where
    t': "substF bt tr k s (arrType ty) = Inr ty'" "substF bt tr k s len = Inr len'" "t' = FixedArray ty' len'" by blast
  have "plain bt ty'" by (rule "7.IH"(1) [OF _ "7.prems"(2) t'(1)]) (use "7.prems"(1) in simp)
  moreover have "plain bt len'" by (rule "7.IH"(2) [OF t'(1) _ "7.prems"(2) t'(2)]) (use "7.prems"(1) in simp)
  ultimately show ?case using t'(3) by simp
next
  case (8 bt tr k s ty)
  from substF_InrE(3) [OF "8.prems"(3)] obtain ty' where
    t': "substF bt tr k s (arrType ty) = Inr ty'" "t' = Array ty'" by blast
  have "plain bt ty'" by (rule "8.IH" [OF _ "8.prems"(2) t'(1)]) (use "8.prems"(1) in simp)
  then show ?case using t'(2) by simp
next
  case (9 bt tr k s ms)
  from substF_InrE(4) [OF "9.prems"(3)] obtain ms' where
    t': "mapE (\<lambda>m. mapR (\<lambda>t. Member (mlabel m) t (mnum m)) (substF bt tr k s (mtype m))) ms = Inr ms'"
    "t' = Variant ms'" by blast
  have "plain bt u" if u: "u \<in> set (map mtype ms')" for u
  proof -
    obtain m where m: "m \<in> set ms" "substF bt tr k s (mtype m) = Inr u" by (rule members_mem [OF t'(1) u])
    show ?thesis by (rule "9.IH" [OF m(1) _ "9.prems"(2) m(2)]) (use "9.prems"(1) m(1) in simp)
  qed
  then show ?case using t'(2) by simp
next
  case (10 bt tr k s ms)
  from substF_InrE(5) [OF "10.prems"(3)] obtain ms1 where
    t': "mapE (\<lambda>m. mapR (\<lambda>t. Member (mlabel m) t (mnum m)) (substF bt tr k s (mtype m))) ms = Inr ms1"
    "recordMake bt ms1 = Inr t'" by blast
  obtain ms' where ms': "t' = Record ms'" "map mtype ms' = map mtype ms1" "recordMake bt ms' = Inr (Record ms')"
    using recordMake_types [OF t'(2)] .
  have "plain bt u" if u: "u \<in> set (map mtype ms1)" for u
  proof -
    obtain m where m: "m \<in> set ms" "substF bt tr k s (mtype m) = Inr u" by (rule members_mem [OF t'(1) u])
    show ?thesis by (rule "10.IH" [OF m(1) _ "10.prems"(2) m(2)]) (use "10.prems"(1) m(1) in simp)
  qed
  then have "plain bt u" if "u \<in> set (map mtype ms')" for u using that unfolding ms'(2) by blast
  then show ?case using ms'(1,3) by simp
next
  case (11 bt tr k s a r)
  from substF_InrE(6) [OF "11.prems"(3)] obtain a' r' where
    t': "substF bt tr k s a = Inr a'" "substF bt tr k s r = Inr r'" "t' = Func a' r'" by blast
  have "plain bt a'" by (rule "11.IH"(1) [OF _ "11.prems"(2) t'(1)]) (use "11.prems"(1) in simp)
  moreover have "plain bt r'" by (rule "11.IH"(2) [OF t'(1) _ "11.prems"(2) t'(2)]) (use "11.prems"(1) in simp)
  ultimately show ?case using t'(3) by simp
next
  case (12 bt tr k s n b)
  from substF_InrE(7) [OF "12.prems"(3)] obtain b' where
    t': "substF bt tr k (s(n := None)) b = Inr b'" "t' = Exists n b'" by blast
  have "plain bt b'" by (rule "12.IH" [OF _ _ t'(1)]) (use "12.prems"(1,2) in auto)
  then show ?case using t'(2) by simp
next
  case (13 bt tr k s n b)
  from substF_InrE(8) [OF "13.prems"(3)] obtain b' where
    t': "substF bt tr k (s(n := None)) b = Inr b'" "t' = Recursive n b'" by blast
  have "plain bt b'" by (rule "13.IH" [OF _ _ t'(1)]) (use "13.prems"(1,2) in auto)
  then show ?case using t'(2) by simp
qed (auto simp: opaqueMake_def)

text \<open>A transitive substitution leaves none of the variables it substitutes.\<close>

lemma subst_eliminates:
  "plain bt t \<Longrightarrow> \<forall>n u. s n = Some u \<longrightarrow> plain bt u \<Longrightarrow> substF bt True k s t = Inr t' \<Longrightarrow>
    x \<in> freeTVars t' \<Longrightarrow> s x = None"
proof (induction bt "True" k s t arbitrary: t' rule: substF.induct)
  case (1 bt k s nm rep)
  then show ?case by (auto simp: isMonoSingular_def split: option.splits)
next
  case (3 bt k s n)
  then show ?case by (auto split: option.splits nat.splits)
next
  case (6 bt k s f ts)
  from substF_InrE(1) [OF "6.prems"(3)] obtain f' ts' where
    t': "substF bt True k s f = Inr f'" "mapE (substF bt True k s) ts = Inr ts'" "t' = TApp f' ts'" by blast
  consider "x \<in> freeTVars f'" | u' where "u' \<in> set ts'" "x \<in> freeTVars u'" using "6.prems"(4) t'(3) by auto
  then show ?case
  proof cases
    case 1
    then show ?thesis using "6.hyps"(1) [OF _ "6.prems"(2) t'(1)] "6.prems"(1) by simp
  next
    case 2
    obtain u where u: "u \<in> set ts" "substF bt True k s u = Inr u'" using mapE_Inr_mem [OF t'(2) 2(1)] by blast
    show ?thesis by (rule "6.hyps"(2) [OF t'(1) u(1) _ "6.prems"(2) u(2) 2(2)]) (use "6.prems"(1) u(1) in simp)
  qed
next
  case (7 bt k s ty len)
  from substF_InrE(2) [OF "7.prems"(3)] obtain ty' len' where
    t': "substF bt True k s (arrType ty) = Inr ty'" "substF bt True k s len = Inr len'" "t' = FixedArray ty' len'" by blast
  have "plain bt (arrType ty)" "plain bt len" using "7.prems"(1) by simp_all
  then have "x \<in> freeTVars ty' \<Longrightarrow> s x = None" "x \<in> freeTVars len' \<Longrightarrow> s x = None"
    using "7.hyps"(1) [OF _ "7.prems"(2) t'(1)] "7.hyps"(2) [OF t'(1) _ "7.prems"(2) t'(2)] by blast+
  then show ?case using "7.prems"(4) t'(3) by auto
next
  case (8 bt k s ty)
  from substF_InrE(3) [OF "8.prems"(3)] obtain ty' where
    t': "substF bt True k s (arrType ty) = Inr ty'" "t' = Array ty'" by blast
  show ?case by (rule "8.hyps" [OF _ "8.prems"(2) t'(1)]) (use "8.prems"(1,4) t'(2) in simp_all)
next
  case (9 bt k s ms)
  from substF_InrE(4) [OF "9.prems"(3)] obtain ms' where
    t': "mapE (\<lambda>m. mapR (\<lambda>t. Member (mlabel m) t (mnum m)) (substF bt True k s (mtype m))) ms = Inr ms'"
    "t' = Variant ms'" by blast
  obtain u where u: "u \<in> set (map mtype ms')" "x \<in> freeTVars u" using "9.prems"(4) t'(2) by auto
  obtain m where m: "m \<in> set ms" "substF bt True k s (mtype m) = Inr u" by (rule members_mem [OF t'(1) u(1)])
  show ?case by (rule "9.hyps" [OF m(1) _ "9.prems"(2) m(2) u(2)]) (use "9.prems"(1) m(1) in simp)
next
  case (10 bt k s ms)
  from substF_InrE(5) [OF "10.prems"(3)] obtain ms1 where
    t': "mapE (\<lambda>m. mapR (\<lambda>t. Member (mlabel m) t (mnum m)) (substF bt True k s (mtype m))) ms = Inr ms1"
    "recordMake bt ms1 = Inr t'" by blast
  obtain ms' where ms': "t' = Record ms'" "map mtype ms' = map mtype ms1"
    using recordMake_types [OF t'(2)] .
  obtain u where u: "u \<in> set (map mtype ms')" "x \<in> freeTVars u" using "10.prems"(4) ms'(1) by auto
  obtain m where m: "m \<in> set ms" "substF bt True k s (mtype m) = Inr u"
    by (rule members_mem [OF t'(1) u(1) [unfolded ms'(2)]])
  show ?case by (rule "10.hyps" [OF m(1) _ "10.prems"(2) m(2) u(2)]) (use "10.prems"(1) m(1) in simp)
next
  case (11 bt k s a r)
  from substF_InrE(6) [OF "11.prems"(3)] obtain a' r' where
    t': "substF bt True k s a = Inr a'" "substF bt True k s r = Inr r'" "t' = Func a' r'" by blast
  have "plain bt a" "plain bt r" using "11.prems"(1) by simp_all
  then have "x \<in> freeTVars a' \<Longrightarrow> s x = None" "x \<in> freeTVars r' \<Longrightarrow> s x = None"
    using "11.hyps"(1) [OF _ "11.prems"(2) t'(1)] "11.hyps"(2) [OF t'(1) _ "11.prems"(2) t'(2)] by blast+
  then show ?case using "11.prems"(4) t'(3) by auto
next
  case (12 bt k s n b)
  from substF_InrE(7) [OF "12.prems"(3)] obtain b' where
    t': "substF bt True k (s(n := None)) b = Inr b'" "t' = Exists n b'" by blast
  have x: "x \<in> freeTVars b'" "x \<noteq> n" using "12.prems"(4) t'(2) by auto
  have "(s(n := None)) x = None" by (rule "12.hyps" [OF _ _ t'(1) x(1)]) (use "12.prems"(1,2) in auto)
  then show ?case using x(2) by simp
next
  case (13 bt k s n b)
  from substF_InrE(8) [OF "13.prems"(3)] obtain b' where
    t': "substF bt True k (s(n := None)) b = Inr b'" "t' = Recursive n b'" by blast
  have x: "x \<in> freeTVars b'" "x \<noteq> n" using "13.prems"(4) t'(2) by auto
  have "(s(n := None)) x = None" by (rule "13.hyps" [OF _ _ t'(1) x(1)]) (use "13.prems"(1,2) in auto)
  then show ?case using x(2) by simp
qed (auto simp: opaqueMake_def)

section \<open>Acyclic substitutions end\<close>

lemma plain_uncurryTApp: "plain bt f \<Longrightarrow> plain bt (fst (uncurryTApp f args))"
  by (induction f args rule: uncurryTApp.induct) simp_all

lemma sizeOfTApp_fuel:
  assumes "plain bt f"
  shows "sizeOfTApp bt f args \<noteq> Inl OutOfFuel"
proof -
  obtain f' args' where f': "uncurryTApp f args = (f', args')" by fastforce
  have p: "plain bt f'" using plain_uncurryTApp [OF assms, of args] f' by simp
  show ?thesis
  proof (cases f')
    case (Prim nm rep)
    show ?thesis
    proof (cases rep)
      case (Some r)
      then show ?thesis using f' p Prim by (cases r) (simp_all add: sizeOfTApp_def)
    qed (use f' Prim in \<open>simp add: sizeOfTApp_def\<close>)
  qed (use f' in \<open>simp_all add: sizeOfTApp_def\<close>)
qed

lemma bindE_fuel: "r \<noteq> Inl e \<Longrightarrow> (\<And>a. r = Inr a \<Longrightarrow> f a \<noteq> Inl e) \<Longrightarrow> bindE r f \<noteq> Inl e"
  by (cases r) auto

lemma mapR_fuel: "r \<noteq> Inl e \<Longrightarrow> mapR f r \<noteq> Inl e"
  by (cases r) (auto simp: mapR_def)

lemma if_fuel: "(P \<Longrightarrow> a \<noteq> Inl e) \<Longrightarrow> (\<not> P \<Longrightarrow> b \<noteq> Inl e) \<Longrightarrow> (if P then a else b) \<noteq> Inl e"
  by simp

lemma mapE_fuel: "(\<And>x. x \<in> set xs \<Longrightarrow> f x \<noteq> Inl e) \<Longrightarrow> mapE f xs \<noteq> Inl e"
proof (induction xs)
  case (Cons x xs)
  show ?case unfolding mapE.simps by (intro bindE_fuel mapR_fuel Cons.IH Cons.prems) simp_all
qed simp

lemma firstSized_fuel: "(\<And>x. x \<in> set xs \<Longrightarrow> f x \<noteq> Inl e) \<Longrightarrow> firstSized f xs \<noteq> Inl e"
proof (induction xs)
  case (Cons x xs)
  have r: "firstSized f xs \<noteq> Inl e" by (intro Cons.IH Cons.prems) simp
  show ?case unfolding firstSized.simps by (intro bindE_fuel) (use r Cons.prems in simp_all)
qed simp

lemma unitSize_fuel: "r \<noteq> Inl OutOfFuel \<Longrightarrow> unitSize r \<noteq> Inl OutOfFuel"
  by (cases r) (auto simp: unitSize_def)

lemma sizeOf_fuel:
  "plain bt t \<Longrightarrow> alignment bt t \<noteq> Inl OutOfFuel"
  "plain bt t \<Longrightarrow> sizeOf bt t \<noteq> Inl OutOfFuel"
proof (induction bt t and bt t rule: alignment_sizeOf.induct)
  case (1 bt nm rep)
  have s: "sizeOf bt (Prim nm rep) \<noteq> Inl OutOfFuel" using "1.IH"(1) "1.prems" .
  show ?case
  proof (cases rep)
    case None
    then show ?thesis unfolding alignment.simps
      using s by (intro bindE_fuel unitSize_fuel) (simp_all del: sizeOf.simps)
  next
    case (Some r)
    show ?thesis unfolding alignment.simps
    proof (intro bindE_fuel unitSize_fuel s)
      fix u
      assume u: "unitSize (sizeOf bt (Prim nm rep)) = Inr u"
      show "(if u then Inr 1 else case rep of None \<Rightarrow> sizeOf bt (Prim nm rep) | Some r \<Rightarrow> alignment bt r) \<noteq> Inl OutOfFuel"
        using Some "1.prems" "1.IH"(3) [OF u] by (cases u) (simp_all del: sizeOf.simps)
    qed
  qed
next
  case (2 bt ms)
  show ?case unfolding alignment.simps
    by (intro mapR_fuel mapE_fuel "2.IH") (use "2.prems" in simp_all)
next
  case (7 bt ms)
  show ?case unfolding alignment.simps
    by (intro mapR_fuel mapE_fuel "7.IH") (use "7.prems" in simp_all)
next
  case (3 bt t len)
  then show ?case by simp
next
  case (11 bt nm rep)
  then show ?case by (auto simp: sizeOfPrim_def split: option.splits)
next
  case (15 bt t len)
  have "requireLength len \<noteq> Inl OutOfFuel" by (cases len) (simp_all add: requireLength_def)
  then show ?case unfolding sizeOf.simps
    by (intro bindE_fuel mapR_fuel) (use "15.IH" "15.prems" in simp_all)
next
  case (17 bt ms)
  show ?case unfolding sizeOf.simps
    by (intro bindE_fuel mapR_fuel mapE_fuel "17.IH") (use "17.prems" in simp_all)
next
  case (18 bt ms)
  show ?case
  proof (cases "ms = []")
    case False
    show ?thesis unfolding sizeOf.simps if_not_P [OF False]
      by (intro bindE_fuel mapR_fuel mapE_fuel firstSized_fuel "18.IH" False) (use "18.prems" in simp_all)
  qed simp
next
  case (23 bt f args)
  then show ?case by (simp add: sizeOfTApp_fuel)
qed (simp_all)

lemma resolveLoop_fuel:
  "(\<And>m. m \<in> set ms \<Longrightarrow> plain bt (mtype m)) \<Longrightarrow> resolveLoop bt off ms \<noteq> Inl OutOfFuel"
proof (induction ms arbitrary: off)
  case (Cons m ms)
  have s: "alignment bt (mtype m) \<noteq> Inl OutOfFuel" "sizeOf bt (mtype m) \<noteq> Inl OutOfFuel"
    using Cons.prems by (simp_all add: sizeOf_fuel)
  have r: "resolveLoop bt off ms \<noteq> Inl OutOfFuel" for off using Cons.IH Cons.prems by simp
  have n: "bindE (sizeOf bt (mtype m)) (\<lambda>sz. mapR (map_option (Cons m')) (resolveLoop bt (off' + sz) ms)) \<noteq> Inl OutOfFuel"
    for m' off' by (intro bindE_fuel mapR_fuel s r)
  show ?case unfolding resolveLoop.simps(2) Let_def by (intro if_fuel bindE_fuel s n) simp_all
qed simp

lemma recordMake_fuel:
  "(\<And>m. m \<in> set ms \<Longrightarrow> plain bt (mtype m)) \<Longrightarrow> recordMake bt ms \<noteq> Inl OutOfFuel"
  unfolding recordMake_def withResolvedMemoryLayout_def by (intro mapR_fuel resolveLoop_fuel)

text \<open>\<open>R\<close> ranks the variables: what is substituted for one has only lower ones left to substitute.\<close>

definition ranked :: "(string \<Rightarrow> nat) \<Rightarrow> 'e subst \<Rightarrow> bool" where
  "ranked R s \<longleftrightarrow> (\<forall>n u. s n = Some u \<longrightarrow> (\<forall>m \<in> freeTVars u. s m \<noteq> None \<longrightarrow> R m < R n))"

definition plain_subst :: "'e beta \<Rightarrow> 'e subst \<Rightarrow> bool" where
  "plain_subst bt s \<longleftrightarrow> (\<forall>n u. s n = Some u \<longrightarrow> plain bt u)"

lemma ranked_remove: "ranked R s \<Longrightarrow> ranked R (s(n := None))"
  by (auto simp: ranked_def split: if_splits)

lemma plain_subst_remove: "plain_subst bt s \<Longrightarrow> plain_subst bt (s(n := None))"
  by (auto simp: plain_subst_def split: if_splits)

definition below :: "(string \<Rightarrow> nat) \<Rightarrow> nat \<Rightarrow> 'e subst \<Rightarrow> 'e mono_type \<Rightarrow> bool" where
  "below R k s t \<longleftrightarrow> (\<forall>n \<in> freeTVars t. s n \<noteq> None \<longrightarrow> R n < k)"

lemma below_simps [simp]:
  "below R k s (TApp f ts) \<longleftrightarrow> below R k s f \<and> (\<forall>t \<in> set ts. below R k s t)"
  "below R k s (FixedArray t len) \<longleftrightarrow> below R k s t \<and> below R k s len"
  "below R k s (Array t) \<longleftrightarrow> below R k s t"
  "below R k s (Variant ms) \<longleftrightarrow> (\<forall>m \<in> set ms. below R k s (mtype m))"
  "below R k s (Record ms) \<longleftrightarrow> (\<forall>m \<in> set ms. below R k s (mtype m))"
  "below R k s (Func t len) \<longleftrightarrow> below R k s t \<and> below R k s len"
  "below R k s (Exists n t) \<longleftrightarrow> below R k (s(n := None)) t"
  "below R k s (Recursive n t) \<longleftrightarrow> below R k (s(n := None)) t"
  "below R k s (TVar n) \<longleftrightarrow> (s n \<noteq> None \<longrightarrow> R n < k)"
  "below R k s (arrType t) \<longleftrightarrow> below R k s t"
  by (auto simp: below_def)

lemma subst_fuel:
  "plain bt t \<Longrightarrow> ranked R s \<Longrightarrow> plain_subst bt s \<Longrightarrow> below R k s t \<Longrightarrow>
    substF bt True k s t \<noteq> Inl OutOfFuel"
proof (induction bt "True" k s t rule: substF.induct)
  case (3 bt k s n)
  show ?case
  proof (cases "s n")
    case (Some u)
    obtain k' where k: "k = Suc k'" using "3.prems"(4) Some by (cases k) auto
    have "below R k' s u" using "3.prems"(2,4) Some k by (fastforce simp: ranked_def below_def)
    then have "substF bt True k' s u \<noteq> Inl OutOfFuel"
      using "3.hyps" [OF Some _ k] "3.prems" Some by (simp add: plain_subst_def)
    then show ?thesis using Some k by simp
  qed simp
next
  case (6 bt k s f ts)
  show ?case unfolding substF.simps
    by (intro bindE_fuel mapR_fuel mapE_fuel "6.hyps") (use "6.prems" in simp_all)
next
  case (7 bt k s ty len)
  show ?case unfolding substF.simps
    by (intro bindE_fuel mapR_fuel "7.hyps") (use "7.prems" in simp_all)
next
  case (8 bt k s ty)
  show ?case unfolding substF.simps by (intro mapR_fuel "8.hyps") (use "8.prems" in simp_all)
next
  case (9 bt k s ms)
  show ?case unfolding substF.simps
    by (intro mapR_fuel mapE_fuel "9.hyps") (use "9.prems" in simp_all)
next
  case (10 bt k s ms)
  show ?case unfolding substF.simps
  proof (intro bindE_fuel mapE_fuel mapR_fuel "10.hyps" recordMake_fuel)
    fix ms' m'
    assume ms': "mapE (\<lambda>m. mapR (\<lambda>t. Member (mlabel m) t (mnum m)) (substF bt True k s (mtype m))) ms = Inr ms'"
      and "m' \<in> set ms'"
    then have "mtype m' \<in> set (map mtype ms')" by simp
    from members_mem [OF ms' this] obtain m where m: "m \<in> set ms" "substF bt True k s (mtype m) = Inr (mtype m')" .
    have "plain bt (mtype m)" using "10.prems"(1) m(1) by simp
    moreover have "\<forall>n u. s n = Some u \<longrightarrow> plain bt u" using "10.prems"(3) unfolding plain_subst_def .
    ultimately show "plain bt (mtype m')" using m(2) by (rule subst_plain)
  qed (use "10.prems" in simp_all)
next
  case (11 bt k s a r)
  show ?case unfolding substF.simps
    by (intro bindE_fuel mapR_fuel "11.hyps") (use "11.prems" in simp_all)
next
  case (12 bt k s n b)
  show ?case unfolding substF.simps
    by (intro mapR_fuel "12.hyps" ranked_remove plain_subst_remove) (use "12.prems" in \<open>simp_all del: fun_upd_apply\<close>)
next
  case (13 bt k s n b)
  show ?case unfolding substF.simps
    by (intro mapR_fuel "13.hyps" ranked_remove plain_subst_remove) (use "13.prems" in \<open>simp_all del: fun_upd_apply\<close>)
qed (simp_all only: substF.simps plain.simps sum.simps simp_thms not_True_eq_False)

section \<open>Generalisation and instantiation\<close>

text \<open>\<open>gens\<close>: every name that \<open>s\<close> substitutes is the one at the index of its generalised variable.\<close>

definition gens :: "string list \<Rightarrow> 'e subst \<Rightarrow> bool" where
  "gens ns s \<longleftrightarrow> length ns < 2 ^ 31 \<and>
     (\<forall>n u. s n = Some u \<longrightarrow> (\<exists>i < length ns. u = TGen (of_nat i) \<and> ns ! i = n))"

lemma gens_remove: "gens ns s \<Longrightarrow> gens ns (s(n := None))"
  by (simp add: gens_def)

lemma gens_plain: "gens ns s \<Longrightarrow> s n = Some u \<Longrightarrow> plain bt u"
  unfolding gens_def by (metis plain.simps(4))

lemma sint_of_nat_small: "i < 2 ^ 31 \<Longrightarrow> sint (of_nat i :: u32) = int i"
  by (simp add: signed_of_nat signed_take_bit_int_eq_self)

text \<open>Types whose generalised variables have indices from 0: \<open>tgenCount\<close> counts them.\<close>

lemma foldl_max_start: "a \<le> foldl max (a :: int) xs"
  by (induction xs arbitrary: a) (auto intro: order_trans [OF max.cobounded1])

lemma foldl_max_mem: "x \<in> set xs \<Longrightarrow> x \<le> foldl max (a :: int) xs"
proof (induction xs arbitrary: a)
  case (Cons y xs)
  then show ?case using foldl_max_start [of "max a y" xs] by auto
qed simp

lemma tgenCount_members [simp]:
  "tgenCount (Variant ms) = foldl max 0 (map (\<lambda>m. tgenCount (mtype m)) ms)"
  "tgenCount (Record ms) = foldl max 0 (map (\<lambda>m. tgenCount (mtype m)) ms)"
  by (simp_all add: member.map_sel comp_def)

declare tgenCount.simps(9,10) [simp del]

lemma tgenVarsF_arrType [simp]: "tgenVarsF (arrType t) = tgenVarsF t"
  by (cases t rule: normIfOpaquePtr.cases) (simp_all add: opaqueMake_def)

lemma tgenCount_gens:
  "plain bt t \<Longrightarrow> tgenVarsF t \<subseteq> {0..} \<Longrightarrow> tgenCount t \<le> 0 \<Longrightarrow> tgenVarsF t = {}"
proof (induction t rule: tgenVarsF.induct)
  case (6 f ts)
  have "tgenCount f \<le> 0" "\<forall>t \<in> set ts. tgenCount t \<le> 0"
    using "6.prems"(3) foldl_max_mem [of _ "map tgenCount ts" 0] by fastforce+
  moreover have "tgenVarsF t \<subseteq> {0..}" if "t \<in> set ts" for t using "6.prems"(2) that by auto
  ultimately show ?case using 6 by simp
next
  case (9 ms)
  have "\<forall>m \<in> set ms. tgenCount (mtype m) \<le> 0"
    using "9.prems"(3) foldl_max_mem [of _ "map (\<lambda>m. tgenCount (mtype m)) ms" 0] by fastforce
  moreover have "tgenVarsF (mtype m) \<subseteq> {0..}" if "m \<in> set ms" for m using "9.prems"(2) that by auto
  ultimately show ?case using 9 by simp
next
  case (10 ms)
  have "\<forall>m \<in> set ms. tgenCount (mtype m) \<le> 0"
    using "10.prems"(3) foldl_max_mem [of _ "map (\<lambda>m. tgenCount (mtype m)) ms" 0] by fastforce
  moreover have "tgenVarsF (mtype m) \<subseteq> {0..}" if "m \<in> set ms" for m using "10.prems"(2) that by auto
  ultimately show ?case using 10 by simp
qed auto

lemma resolveLoop_alike:
  assumes "list_all2 (\<lambda>m m1. mlabel m1 = mlabel m \<and> mnum m1 = mnum m \<and>
      (isMonoSingular (mtype m) \<or> isMonoSingular (mtype m1) \<longrightarrow> mtype m1 = mtype m)) ms ms1"
  shows "resolveLoop bt off ms1 = resolveLoop bt off ms"
  using assms
proof (induction arbitrary: off rule: list_all2_induct)
  case (Cons m ms m1 ms1)
  show ?case
  proof (cases "isMonoSingular (mtype m)")
    case True
    then have "m1 = m" using Cons.hyps(1) by (metis member.expand)
    then show ?thesis by (simp add: resolveLoop.simps(2) Cons.IH Let_def)
  next
    case False
    then have "\<not> isMonoSingular (mtype m1)" using Cons.hyps(1) by metis
    then show ?thesis using False by (simp add: resolveLoop.simps(2))
  qed
qed simp

lemma resolveLoop_Some_singular:
  "resolveLoop bt off ms = Inr (Some ms') \<Longrightarrow> m \<in> set ms \<Longrightarrow> isMonoSingular (mtype m)"
  by (induction ms arbitrary: off ms') (auto simp: resolveLoop_Cons)

text \<open>What holds of a type \<open>t\<close> and its generalised form \<open>t1\<close>.\<close>

definition gen_ok :: "'e beta \<Rightarrow> string list \<Rightarrow> 'e mono_type \<Rightarrow> 'e mono_type \<Rightarrow> bool" where
  "gen_ok bt ns t t1 \<longleftrightarrow> plain bt t1 \<and> tgenVarsF t1 \<subseteq> {0..} \<and> (tgenVarsF t1 = {} \<longrightarrow> t1 = t) \<and>
     (isMonoSingular t \<longrightarrow> t1 = t) \<and> (arrType t = t \<longrightarrow> arrType t1 = t1) \<and> instantiateF bt (map TVar ns) t1 = Inr t"

lemma gen_ok_singular: "gen_ok bt ns t t1 \<Longrightarrow> isMonoSingular t1 \<Longrightarrow> t1 = t"
  unfolding gen_ok_def isMonoSingular_def by (metis tgenCount_gens order_refl)

lemma gen_members:
  assumes "mapE (\<lambda>m. mapR (\<lambda>t. Member (mlabel m) t (mnum m)) (f (mtype m))) ms = Inr ms1"
    "\<And>m t1. m \<in> set ms \<Longrightarrow> f (mtype m) = Inr t1 \<Longrightarrow> gen_ok bt ns (mtype m) t1"
  shows "list_all2 (\<lambda>m m1. mlabel m1 = mlabel m \<and> mnum m1 = mnum m \<and> gen_ok bt ns (mtype m) (mtype m1)) ms ms1"
  using assms
proof (induction ms arbitrary: ms1)
  case (Cons m ms)
  then show ?case by (fastforce simp: bindE_Inr_iff mapR_Inr_iff)
qed simp

lemma gen_members_back:
  assumes "list_all2 (\<lambda>m m1. mlabel m1 = mlabel m \<and> mnum m1 = mnum m \<and> gen_ok bt ns (mtype m) (mtype m1)) ms ms1"
  shows "mapE (\<lambda>m. mapR (\<lambda>t. Member (mlabel m) t (mnum m)) (instantiateF bt (map TVar ns) (mtype m))) ms1 = Inr ms"
  using assms
proof (induction rule: list_all2_induct)
  case (Cons m ms m1 ms1)
  then show ?case by (cases m) (simp add: gen_ok_def mapR_def)
qed simp

lemma gen_ok_list:
  assumes "mapE f ts = Inr ts1" "\<And>t t1. t \<in> set ts \<Longrightarrow> f t = Inr t1 \<Longrightarrow> gen_ok bt ns t t1"
  shows "list_all2 (gen_ok bt ns) ts ts1"
  using assms by (induction ts arbitrary: ts1) (fastforce simp: bindE_Inr_iff mapR_Inr_iff)+

lemma gen_ok_list_back:
  "list_all2 (gen_ok bt ns) ts ts1 \<Longrightarrow> mapE (instantiateF bt (map TVar ns)) ts1 = Inr ts"
  by (induction rule: list_all2_induct) (simp_all add: gen_ok_def mapR_def)

lemma list_all2_set2: "list_all2 R xs ys \<Longrightarrow> y \<in> set ys \<Longrightarrow> \<exists>x \<in> set xs. R x y"
  by (induction rule: list_all2_induct) auto

text \<open>The step for the members of variants and records.\<close>

lemma gen_ok_members:
  assumes l: "list_all2 (\<lambda>m m1. mlabel m1 = mlabel m \<and> mnum m1 = mnum m \<and> gen_ok bt ns (mtype m) (mtype m1)) ms ms1"
  shows "\<forall>m1 \<in> set ms1. plain bt (mtype m1) \<and> tgenVarsF (mtype m1) \<subseteq> {0..}"
    "(\<forall>m1 \<in> set ms1. tgenVarsF (mtype m1) = {}) \<longrightarrow> ms1 = ms"
    "(\<forall>m \<in> set ms. isMonoSingular (mtype m)) \<longrightarrow> ms1 = ms"
    "recordMake bt ms = Inr (Record ms) \<Longrightarrow> recordMake bt ms1 = Inr (Record ms1)"
proof -
  show "\<forall>m1 \<in> set ms1. plain bt (mtype m1) \<and> tgenVarsF (mtype m1) \<subseteq> {0..}"
    using list_all2_set2 [OF l] by (fastforce simp: gen_ok_def)
  show "(\<forall>m1 \<in> set ms1. tgenVarsF (mtype m1) = {}) \<longrightarrow> ms1 = ms"
    using l by (induction rule: list_all2_induct) (auto simp: gen_ok_def intro: member.expand)
  show s: "(\<forall>m \<in> set ms. isMonoSingular (mtype m)) \<longrightarrow> ms1 = ms"
    using l by (induction rule: list_all2_induct) (auto simp: gen_ok_def intro: member.expand)
  have "list_all2 (\<lambda>m m1. mlabel m1 = mlabel m \<and> mnum m1 = mnum m \<and>
      (isMonoSingular (mtype m) \<or> isMonoSingular (mtype m1) \<longrightarrow> mtype m1 = mtype m)) ms ms1"
    using l by (rule list.rel_mono_strong) (metis gen_ok_singular gen_ok_def)
  then have r: "resolveLoop bt 0 ms1 = resolveLoop bt 0 ms" by (rule resolveLoop_alike)
  show "recordMake bt ms1 = Inr (Record ms1)" if rm: "recordMake bt ms = Inr (Record ms)"
  proof -
    obtain q where q: "resolveLoop bt 0 ms = Inr q" "ms = (case q of None \<Rightarrow> ms | Some ms' \<Rightarrow> ms')"
      using rm by (auto simp: recordMake_def withResolvedMemoryLayout_def mapR_Inr_iff)
    show ?thesis
    proof (cases q)
      case None
      then show ?thesis using q r by (simp add: recordMake_def withResolvedMemoryLayout_def)
    next
      case (Some ms')
      then have "ms1 = ms" using s resolveLoop_Some_singular q by blast
      then show ?thesis using rm by simp
    qed
  qed
qed

lemma gen_okD:
  assumes "gen_ok bt ns t t1"
  shows "plain bt t1" "tgenVarsF t1 \<subseteq> {0..}" "tgenVarsF t1 = {} \<Longrightarrow> t1 = t" "arrType t = t \<Longrightarrow> arrType t1 = t1"
    "instantiateF bt (map TVar ns) t1 = Inr t"
  using assms unfolding gen_ok_def by blast+

lemma gen_ok_same: "list_all2 (gen_ok bt ns) ts ts1 \<Longrightarrow> (\<forall>t \<in> set ts1. tgenVarsF t = {}) \<longrightarrow> ts1 = ts"
proof (induction rule: list_all2_induct)
  case (Cons t ts t1 ts1)
  from Cons.hyps(1) have "tgenVarsF t1 = {} \<longrightarrow> t1 = t" unfolding gen_ok_def by blast
  with Cons.IH show ?case by simp
qed simp

lemma gen_ok_Inr:
  assumes "plain bt t" "normal t" "substF bt True k s t = Inr t1"
    "plain bt t1" "tgenVarsF t1 \<subseteq> {0..}" "tgenVarsF t1 = {} \<longrightarrow> t1 = t" "arrType t = t \<longrightarrow> arrType t1 = t1"
    "instantiateF bt (map TVar ns) t1 = Inr t"
  shows "gen_ok bt ns t t1"
proof -
  have "isMonoSingular t \<longrightarrow> t1 = t"
    using subst_nop [OF assms(1,2), of s True k] assms(3) by (auto simp: isMonoSingular_def)
  then show ?thesis unfolding gen_ok_def using assms(4-8) by blast
qed

lemma generalize_F:
  "plain bt t \<Longrightarrow> normal t \<Longrightarrow> tgenVarsF t = {} \<Longrightarrow> gens ns s \<Longrightarrow> substF bt True k s t = Inr t1 \<Longrightarrow>
    gen_ok bt ns t t1"
proof (induction bt "True" k s t arbitrary: t1 rule: substF.induct)
  case (3 bt k s n)
  show ?case
  proof (cases "s n")
    case None
    then have "t1 = TVar n" using "3.prems"(5) by simp
    then show ?thesis by (intro gen_ok_Inr [OF "3.prems"(1,2,5)]) simp_all
  next
    case (Some u)
    then obtain i where i: "i < length ns" "u = TGen (of_nat i)" "ns ! i = n" and l: "length ns < 2 ^ 31"
      using "3.prems"(4) unfolding gens_def by blast
    have "t1 = TGen (of_nat i)" using "3.prems"(5) Some i(2) by (auto split: nat.splits)
    moreover have "sint (of_nat i :: u32) = int i" using i(1) l by (intro sint_of_nat_small) simp
    ultimately show ?thesis using i by (intro gen_ok_Inr [OF "3.prems"(1,2,5)]) simp_all
  qed
next
  case (6 bt k s f ts)
  from substF_InrE(1) [OF "6.prems"(5)] obtain f1 ts1 where
    t1: "substF bt True k s f = Inr f1" "mapE (substF bt True k s) ts = Inr ts1" "t1 = TApp f1 ts1" by blast
  have f: "gen_ok bt ns f f1" by (rule "6.hyps"(1) [OF _ _ _ "6.prems"(4) t1(1)]) (use "6.prems" in simp_all)
  have "gen_ok bt ns u u1" if "u \<in> set ts" "substF bt True k s u = Inr u1" for u u1
    by (rule "6.hyps"(2) [OF t1(1) that(1) _ _ _ "6.prems"(4) that(2)]) (use "6.prems" that in simp_all)
  from gen_ok_list [OF t1(2) this] have l: "list_all2 (gen_ok bt ns) ts ts1" .
  note e = gen_ok_same [OF l]
  have m: "plain bt u1 \<and> tgenVarsF u1 \<subseteq> {0..}" if "u1 \<in> set ts1" for u1
    using list_all2_set2 [OF l that] unfolding gen_ok_def by blast
  have f': "plain bt f1" "tgenVarsF f1 \<subseteq> {0..}" "tgenVarsF f1 = {} \<longrightarrow> f1 = f"
      "instantiateF bt (map TVar ns) f1 = Inr f" using f unfolding gen_ok_def by blast+
  show ?case unfolding t1(3)
  proof (rule gen_ok_Inr [OF "6.prems"(1,2) "6.prems"(5) [unfolded t1(3)]])
    show "plain bt (TApp f1 ts1)" using f'(1) m by simp
    show "tgenVarsF (TApp f1 ts1) \<subseteq> {0..}" using f'(2) m by auto
    show "tgenVarsF (TApp f1 ts1) = {} \<longrightarrow> TApp f1 ts1 = TApp f ts" using f'(3) e by simp
  qed (simp_all add: f'(4) gen_ok_list_back [OF l] mapR_def)
next
  case (7 bt k s ty len)
  from substF_InrE(2) [OF "7.prems"(5)] obtain ty1 len1 where
    t1: "substF bt True k s (arrType ty) = Inr ty1" "substF bt True k s len = Inr len1" "t1 = FixedArray ty1 len1" by blast
  have a: "arrType ty = ty" using "7.prems"(2) by simp
  have g': "gen_ok bt ns (arrType ty) ty1"
    by (rule "7.hyps"(1) [OF _ _ _ "7.prems"(4) t1(1)]) (use "7.prems" a in simp_all)
  note g = g' [unfolded a]
  have h: "gen_ok bt ns len len1"
    by (rule "7.hyps"(2) [OF t1(1) _ _ _ "7.prems"(4) t1(2)]) (use "7.prems" in simp_all)
  show ?case unfolding t1(3)
    by (rule gen_ok_Inr [OF "7.prems"(1,2) "7.prems"(5) [unfolded t1(3)]])
      (simp_all add: gen_okD(1,2,5) [OF g] gen_okD(1,2,5) [OF h] gen_okD(4) [OF g a] mapR_def,
       blast dest: gen_okD(3) [OF g] gen_okD(3) [OF h])
next
  case (8 bt k s ty)
  from substF_InrE(3) [OF "8.prems"(5)] obtain ty1 where
    t1: "substF bt True k s (arrType ty) = Inr ty1" "t1 = Array ty1" by blast
  have a: "arrType ty = ty" using "8.prems"(2) by simp
  have g': "gen_ok bt ns (arrType ty) ty1"
    by (rule "8.hyps"(1) [OF _ _ _ "8.prems"(4) t1(1)]) (use "8.prems" a in simp_all)
  note g = g' [unfolded a]
  show ?case unfolding t1(2)
    by (rule gen_ok_Inr [OF "8.prems"(1,2) "8.prems"(5) [unfolded t1(2)]])
      (simp_all add: gen_okD(1,2,5) [OF g] gen_okD(4) [OF g a] mapR_def, blast dest: gen_okD(3) [OF g])
next
  case (9 bt k s ms)
  from substF_InrE(4) [OF "9.prems"(5)] obtain ms1 where
    t1: "mapE (\<lambda>m. mapR (\<lambda>t. Member (mlabel m) t (mnum m)) (substF bt True k s (mtype m))) ms = Inr ms1"
    "t1 = Variant ms1" by blast
  have "gen_ok bt ns (mtype m) u1" if "m \<in> set ms" "substF bt True k s (mtype m) = Inr u1" for m u1
    by (rule "9.hyps" [OF that(1) _ _ _ "9.prems"(4) that(2)]) (use "9.prems" that in simp_all)
  then have l: "list_all2 (\<lambda>m m1. mlabel m1 = mlabel m \<and> mnum m1 = mnum m \<and> gen_ok bt ns (mtype m) (mtype m1)) ms ms1"
    by (rule gen_members [OF t1(1)])
  show ?case unfolding t1(2)
  proof (rule gen_ok_Inr [OF "9.prems"(1,2) "9.prems"(5) [unfolded t1(2)]])
    show "plain bt (Variant ms1)" "tgenVarsF (Variant ms1) \<subseteq> {0..}"
      using gen_ok_members(1) [OF l] by (simp_all add: UN_subset_iff)
    show "tgenVarsF (Variant ms1) = {} \<longrightarrow> Variant ms1 = Variant ms" using gen_ok_members(2) [OF l] by simp
  qed (simp_all add: gen_members_back [OF l])
next
  case (10 bt k s ms)
  from substF_InrE(5) [OF "10.prems"(5)] obtain ms1 where
    t1: "mapE (\<lambda>m. mapR (\<lambda>t. Member (mlabel m) t (mnum m)) (substF bt True k s (mtype m))) ms = Inr ms1"
    "recordMake bt ms1 = Inr t1" by blast
  have "gen_ok bt ns (mtype m) u1" if "m \<in> set ms" "substF bt True k s (mtype m) = Inr u1" for m u1
    by (rule "10.hyps" [OF that(1) _ _ _ "10.prems"(4) that(2)]) (use "10.prems" that in simp_all)
  then have l: "list_all2 (\<lambda>m m1. mlabel m1 = mlabel m \<and> mnum m1 = mnum m \<and> gen_ok bt ns (mtype m) (mtype m1)) ms ms1"
    by (rule gen_members [OF t1(1)])
  have r: "recordMake bt ms = Inr (Record ms)" using "10.prems"(1) by simp
  have t: "t1 = Record ms1" using gen_ok_members(4) [OF l r] t1(2) by simp
  show ?case unfolding t
  proof (rule gen_ok_Inr [OF "10.prems"(1,2) "10.prems"(5) [unfolded t]])
    show "plain bt (Record ms1)" "tgenVarsF (Record ms1) \<subseteq> {0..}"
      using gen_ok_members(1) [OF l] gen_ok_members(4) [OF l r] by (simp_all add: UN_subset_iff)
    show "tgenVarsF (Record ms1) = {} \<longrightarrow> Record ms1 = Record ms" using gen_ok_members(2) [OF l] by simp
  qed (simp_all add: r gen_members_back [OF l])
next
  case (11 bt k s a r)
  from substF_InrE(6) [OF "11.prems"(5)] obtain a1 r1 where
    t1: "substF bt True k s a = Inr a1" "substF bt True k s r = Inr r1" "t1 = Func a1 r1" by blast
  have g: "gen_ok bt ns a a1" by (rule "11.hyps"(1) [OF _ _ _ "11.prems"(4) t1(1)]) (use "11.prems" in simp_all)
  have h: "gen_ok bt ns r r1"
    by (rule "11.hyps"(2) [OF t1(1) _ _ _ "11.prems"(4) t1(2)]) (use "11.prems" in simp_all)
  show ?case unfolding t1(3)
    by (rule gen_ok_Inr [OF "11.prems"(1,2) "11.prems"(5) [unfolded t1(3)]])
      (simp_all add: gen_okD(1,2,5) [OF g] gen_okD(1,2,5) [OF h] mapR_def,
       blast dest: gen_okD(3) [OF g] gen_okD(3) [OF h])
next
  case (12 bt k s n b)
  from substF_InrE(7) [OF "12.prems"(5)] obtain b1 where
    t1: "substF bt True k (s(n := None)) b = Inr b1" "t1 = Exists n b1" by blast
  have g: "gen_ok bt ns b b1"
    by (rule "12.hyps" [OF _ _ _ gens_remove [OF "12.prems"(4)] t1(1)]) (use "12.prems" in simp_all)
  show ?case unfolding t1(2)
    by (rule gen_ok_Inr [OF "12.prems"(1,2) "12.prems"(5) [unfolded t1(2)]])
      (simp_all add: gen_okD(1,2,5) [OF g] mapR_def, blast dest: gen_okD(3) [OF g])
next
  case (13 bt k s n b)
  from substF_InrE(8) [OF "13.prems"(5)] obtain b1 where
    t1: "substF bt True k (s(n := None)) b = Inr b1" "t1 = Recursive n b1" by blast
  have g: "gen_ok bt ns b b1"
    by (rule "13.hyps" [OF _ _ _ gens_remove [OF "13.prems"(4)] t1(1)]) (use "13.prems" in simp_all)
  show ?case unfolding t1(2)
    by (rule gen_ok_Inr [OF "13.prems"(1,2) "13.prems"(5) [unfolded t1(2)]])
      (simp_all add: gen_okD(1,2,5) [OF g] mapR_def, blast dest: gen_okD(3) [OF g])
qed (auto intro!: gen_ok_Inr simp: opaqueMake_def)

lemma finite_freeTVars [simp]: "finite (freeTVars t)"
proof (induction t)
  case (Prim nm rep)
  then show ?case by (cases rep) simp_all
qed (auto simp: member.map_sel)

lemma finite_tvarNamesQ [simp]: "finite (tvarNamesQ qt)"
  by (simp add: tvarNamesQ_def tvarNamesCs_def tvarNamesC_def tvarNamesTs_def)

lemma gens_tgenSubst:
  "finite ns \<Longrightarrow> card ns < 2 ^ 31 \<Longrightarrow> gens (sorted_list_of_set ns) (tgenSubst ns)"
  unfolding gens_def tgenSubst_def Let_def
  by (auto dest!: map_of_SomeD simp: set_zip)


definition pair_qt :: "unit qual_type" where
  "pair_qt = qualtype [] (Func (TVar ''b'') (Func (TVar ''a'') (Array (TVar ''b''))))"


section \<open>Properties of substitution\<close>

text \<open>
  C32. An acyclic substitution ends: when the variables can be ranked so that what \<open>s\<close> gives for a
  variable has only variables of \<open>s\<close> of a lower rank, and those of \<open>t\<close> have ranks below \<open>k\<close>,
  \<open>k\<close> nested replacements are enough for the transitive substitution.
\<close>

theorem acyclic_substitution_ends:
  assumes "plain bt t" "plain_subst bt s" "ranked R s" "below R k s t"
  shows "substitute bt k s t \<noteq> Inl OutOfFuel"
  unfolding substitute_def using subst_fuel [OF assms(1,3,2,4)] by simp

definition chain_subst :: "unit subst" where
  "chain_subst = [''a'' \<mapsto> Array (TVar ''b''), ''b'' \<mapsto> primty ''int'']"

lemma acyclic_substitution_ends_witness:
  "substitute (betaSize 0) 2 chain_subst (Func (TVar ''a'') (TVar ''b'')) \<noteq> Inl OutOfFuel"
  by (rule acyclic_substitution_ends [where R = "\<lambda>n. if n = ''a'' then 1 else 0"])
    (auto simp: chain_subst_def plain_subst_def ranked_def primty_def split: if_splits)

text \<open>
  A transitive substitution that ends has replaced every variable it substitutes: none of
  them is left in the result, not even through what was substituted.
\<close>

theorem substitution_eliminates:
  assumes "plain bt t" "plain_subst bt s" "substitute bt k s t = Inr t'"
  shows "freeTVars t' \<inter> dom s = {}"
proof (cases "isMonoSingular t")
  case True
  then show ?thesis using assms(3) by (simp add: substitute_def isMonoSingular_def)
next
  case False
  then have "substF bt True k s t = Inr t'" using assms(3) by (simp add: substitute_def)
  then show ?thesis using subst_eliminates [OF assms(1) assms(2) [unfolded plain_subst_def]] by auto
qed

lemma substitution_eliminates_witness:
  "freeTVars (Func (Array (primty ''int'')) (primty ''int'') :: unit mono_type) \<inter> dom chain_subst = {}"
proof (rule substitution_eliminates)
  show "plain (betaSize 0) (Func (TVar ''a'') (TVar ''b''))" by simp
  show "plain_subst (betaSize 0) chain_subst"
    by (auto simp: chain_subst_def plain_subst_def primty_def split: if_splits)
  show "substitute (betaSize 0) 2 chain_subst (Func (TVar ''a'') (TVar ''b'')) =
      Inr (Func (Array (primty ''int'')) (primty ''int''))" by code_simp
qed

text \<open>
  Nothing checks for cycles: the substitution of \<open>[a]\<close> for \<open>a\<close> recurses without end, however
  much it is allowed to.
\<close>

theorem cyclic_substitution_diverges:
  "substitute bt k [''a'' \<mapsto> Array (TVar ''a'')] (TVar ''a'') = Inl OutOfFuel"
proof -
  have "substF bt True k [''a'' \<mapsto> Array (TVar ''a'')] (TVar ''a'') = Inl OutOfFuel" by (induction k) simp_all
  then show ?thesis by (simp add: substitute_def isMonoSingular_def)
qed

text \<open>
  The renaming that is done before a type is shown conflates variables: it maps names to
  canonical ones with the transitive substitution, so that a canonical name that is itself a
  variable of the type is renamed again. The type \<open>b -> c\<close> is shown as \<open>a -> a\<close>.
\<close>

theorem simplify_conflates_names:
  fixes bt :: "'e beta"
  shows "simplifyVarNames bt (Suc (Suc k)) (Func (TVar ''b'') (TVar ''c'')) = Inr (Func (TVar ''a'') (TVar ''a''))"
proof -
  have "sorted_list_of_set {''c'', ''b''} = [''b'', ''c'']" "canonicalName 0 = ''a''" "canonicalName (Suc 0) = ''b''"
    by code_simp+
  then have "(canonicalNameSubst {''c'', ''b''} :: 'e subst) = [''b'' \<mapsto> TVar ''a'', ''c'' \<mapsto> TVar ''b'']"
    by (simp add: canonicalNameSubst_def fun_upd_twist)
  then show ?thesis by (simp add: simplifyVarNames_def substitute_def isMonoSingular_def)
qed

end
