(* ===== verification/Type_Codec.thy ===== *)
theory Type_Codec
  imports Type_Subst
begin

text \<open>
  The binary codec for types at the end of \<^verbatim>\<open>lib/hobbes/lang/type.C\<close>: how numbers, strings and
  vectors are written and read, \<open>encodeMonoTypeF\<close>, \<open>decodeFrom\<close> with one function for each form of
  type, and the framing that is put around an encoding in a stream
  (\<^verbatim>\<open>include/hobbes/util/codec.H\<close>).

  Writers append to a vector of bytes; the model returns the bytes. Readers advance a position in
  a vector; the model passes the bytes from that position on. Reading past the end of the input is
  undefined in the code and the error \<open>ReadPastEnd\<close> of the model. Machine words are little endian.

  Expressions in types have a codec of their own (in \<^verbatim>\<open>expr.C\<close>); it is the pair of parameters
  \<open>encE\<close> and \<open>decE\<close>, and \<open>bt\<close> is the size of applied type functions that record layout needs.
\<close>

datatype decode_error = ReadPastEnd | MalformedType | MalformedExpr | MakeError type_error | DecodeFuel
  | StreamCorrupted | QualTypeNYI | UnknownExpr u32 | SwitchRefused

type_synonym bytes = "u8 list"
type_synonym 'a reader = "bytes \<Rightarrow> decode_error + 'a \<times> bytes"

section \<open>Numbers, strings and vectors\<close>

primrec leBytes :: "nat \<Rightarrow> 'a::len word \<Rightarrow> bytes" where
  "leBytes 0 x = []"
| "leBytes (Suc n) x = ucast x # leBytes n (drop_bit 8 x)"

fun fromLE :: "bytes \<Rightarrow> 'a::len word" where
  "fromLE [] = 0"
| "fromLE (b # bs) = or (ucast b) (push_bit 8 (fromLE bs))"

definition writeBool :: "bool \<Rightarrow> bytes" where
  "writeBool b = [if b then 1 else 0]"

definition writeInt :: "u32 \<Rightarrow> bytes" where
  "writeInt x = leBytes 4 x"

definition writeLong :: "u64 \<Rightarrow> bytes" where
  "writeLong x = leBytes 8 x"

definition writeSize :: "nat \<Rightarrow> bytes" where
  "writeSize n = writeLong (of_nat n)"

definition writeString :: "string \<Rightarrow> bytes" where
  "writeString s = writeSize (length s) @ map of_char s"

definition writeVector :: "('a \<Rightarrow> bytes) \<Rightarrow> 'a list \<Rightarrow> bytes" where
  "writeVector w xs = writeSize (length xs) @ concat (map w xs)"

lemma writeVector_cong [fundef_cong]:
  "xs = ys \<Longrightarrow> (\<And>x. x \<in> set ys \<Longrightarrow> f x = g x) \<Longrightarrow> writeVector f xs = writeVector g ys"
  by (simp add: writeVector_def cong: map_cong)

definition readBytes :: "nat \<Rightarrow> bytes reader" where
  "readBytes n inp = (if length inp < n then Inl ReadPastEnd else Inr (take n inp, drop n inp))"

definition readByte :: "u8 reader" where
  "readByte inp = mapR (\<lambda>(bs, r). (hd bs, r)) (readBytes 1 inp)"

definition readInt :: "u32 reader" where
  "readInt inp = mapR (\<lambda>(bs, r). (fromLE bs, r)) (readBytes 4 inp)"

definition readLong :: "u64 reader" where
  "readLong inp = mapR (\<lambda>(bs, r). (fromLE bs, r)) (readBytes 8 inp)"

definition readBool :: "bool reader" where
  "readBool inp = mapR (\<lambda>(b, r). (b \<noteq> 0, r)) (readByte inp)"

definition readString :: "string reader" where
  "readString inp = bindE (readLong inp) (\<lambda>(sz, r). mapR (\<lambda>(bs, r'). (map (\<lambda>b. char_of (unat b)) bs, r')) (readBytes (unat sz) r))"

fun readN :: "'a reader \<Rightarrow> nat \<Rightarrow> 'a list reader" where
  "readN f 0 inp = Inr ([], inp)"
| "readN f (Suc n) inp = bindE (f inp) (\<lambda>(x, r). mapR (\<lambda>(xs, r'). (x # xs, r')) (readN f n r))"

definition readVector :: "'a reader \<Rightarrow> 'a list reader" where
  "readVector f inp = bindE (readLong inp) (\<lambda>(sz, r). readN f (unat sz) r)"

section \<open>Encoding\<close>

fun type_case_id :: "'e mono_type \<Rightarrow> u32" where
  "type_case_id (Prim nm rep) = 0"
| "type_case_id (OpaquePtr nm sz c) = 1"
| "type_case_id (TVar nm) = 2"
| "type_case_id (TGen x) = 3"
| "type_case_id (FixedArray ty len) = 4"
| "type_case_id (Array ty) = 5"
| "type_case_id (Variant ms) = 6"
| "type_case_id (Record ms) = 7"
| "type_case_id (Func a r) = 8"
| "type_case_id (Exists n b) = 9"
| "type_case_id (TString s) = 10"
| "type_case_id (TLong x) = 11"
| "type_case_id (TApp f ts) = 12"
| "type_case_id (Recursive n b) = 13"
| "type_case_id (TExpr e) = 14"
| "type_case_id (TAbs ns b) = 15"

function (sequential) encodeMT :: "('e \<Rightarrow> bytes) \<Rightarrow> 'e mono_type \<Rightarrow> bytes" where
  "encodeMT encE (Prim nm rep) = writeInt 0 @ writeString nm @
     (case rep of Some t \<Rightarrow> writeBool True @ encodeMT encE t | None \<Rightarrow> writeBool False)"
| "encodeMT encE (OpaquePtr nm sz c) = writeInt 1 @ writeString nm @ writeInt sz @ writeBool c"
| "encodeMT encE (TGen x) = writeInt 3 @ writeInt x"
| "encodeMT encE (TVar nm) = writeInt 2 @ writeString nm"
| "encodeMT encE (TAbs ns b) = writeInt 15 @ writeVector writeString ns @ encodeMT encE b"
| "encodeMT encE (TApp f ts) = writeInt 12 @ encodeMT encE f @ writeVector (encodeMT encE) ts"
| "encodeMT encE (FixedArray ty len) = writeInt 4 @ encodeMT encE (arrType ty) @ encodeMT encE len"
| "encodeMT encE (Array ty) = writeInt 5 @ encodeMT encE (arrType ty)"
| "encodeMT encE (Variant ms) = writeInt 6 @
     writeVector (\<lambda>m. writeString (mlabel m) @ writeInt (mnum m) @ encodeMT encE (mtype m)) ms"
| "encodeMT encE (Record ms) = writeInt 7 @
     writeVector (\<lambda>m. writeString (mlabel m) @ writeInt (mnum m) @ encodeMT encE (mtype m)) ms"
| "encodeMT encE (Func a r) = writeInt 8 @ encodeMT encE a @ encodeMT encE r"
| "encodeMT encE (Exists n b) = writeInt 9 @ writeString n @ encodeMT encE b"
| "encodeMT encE (Recursive n b) = writeInt 13 @ writeString n @ encodeMT encE b"
| "encodeMT encE (TString s) = writeInt 10 @ writeString s"
| "encodeMT encE (TLong x) = writeInt 11 @ writeLong x"
| "encodeMT encE (TExpr e) = writeInt 14 @ writeVector (\<lambda>b. [b]) (encE e)"
  by pat_completeness auto

termination encodeMT
  by (relation "measure (\<lambda>(encE, t). size t)") (auto simp: termination_simp)

definition encodeQT :: "('e \<Rightarrow> bytes) \<Rightarrow> 'e qual_type \<Rightarrow> decode_error + bytes" where
  "encodeQT encE qty =
     (if isMonotypeQ qty then Inr (writeSize 0 @ encodeMT encE (qmono qty)) else Inl QualTypeNYI)"

section \<open>Decoding\<close>

text \<open>One function for each form of type; \<open>d\<close> decodes the types within it.\<close>

definition thenR :: "'a reader \<Rightarrow> ('a \<Rightarrow> 'b reader) \<Rightarrow> 'b reader" where
  "thenR f g inp = bindE (f inp) (\<lambda>(x, r). g x r)"

definition makeR :: "'a \<Rightarrow> 'a reader" where
  "makeR x inp = Inr (x, inp)"

definition decodePrim :: "'e mono_type reader \<Rightarrow> 'e mono_type reader" where
  "decodePrim d =
     thenR readString (\<lambda>pname. thenR readBool (\<lambda>hasHRep.
       if hasHRep then thenR d (\<lambda>hrep. makeR (Prim pname (Some hrep))) else makeR (Prim pname None)))"

definition decodeOpaquePtr :: "'e mono_type reader" where
  "decodeOpaquePtr =
     thenR readString (\<lambda>s. thenR readInt (\<lambda>sz. thenR readBool (\<lambda>sc. makeR (opaqueMake s sz sc))))"

definition decodeTGen :: "'e mono_type reader" where
  "decodeTGen = thenR readInt (\<lambda>i. makeR (TGen i))"

definition decodeTAbs :: "'e mono_type reader \<Rightarrow> 'e mono_type reader" where
  "decodeTAbs d = thenR (readVector readString) (\<lambda>ns. thenR d (\<lambda>b. makeR (TAbs ns b)))"

definition decodeTApp :: "'e mono_type reader \<Rightarrow> 'e mono_type reader" where
  "decodeTApp d = thenR d (\<lambda>f. thenR (readVector d) (\<lambda>args. makeR (TApp f args)))"

definition decodeTVar :: "'e mono_type reader" where
  "decodeTVar = thenR readString (\<lambda>v. makeR (TVar v))"

definition decodeFixedArr :: "'e mono_type reader \<Rightarrow> 'e mono_type reader" where
  "decodeFixedArr d = thenR d (\<lambda>ty. thenR d (\<lambda>len. makeR (FixedArray (normIfOpaquePtr ty) len)))"

definition decodeArr :: "'e mono_type reader \<Rightarrow> 'e mono_type reader" where
  "decodeArr d = thenR d (\<lambda>ty. makeR (Array (normIfOpaquePtr ty)))"

definition decodeMember :: "'e mono_type reader \<Rightarrow> 'e mono_type member reader" where
  "decodeMember d =
     thenR readString (\<lambda>lbl. thenR readInt (\<lambda>n. thenR d (\<lambda>ty. makeR (Member lbl ty n))))"

definition decodeVariant :: "'e mono_type reader \<Rightarrow> 'e mono_type reader" where
  "decodeVariant d = thenR (readVector (decodeMember d)) (\<lambda>ms. makeR (Variant ms))"

definition decodeRecord :: "'e beta \<Rightarrow> 'e mono_type reader \<Rightarrow> 'e mono_type reader" where
  "decodeRecord bt d =
     thenR (readVector (decodeMember d))
       (\<lambda>ms inp. case recordMake bt ms of Inl e \<Rightarrow> Inl (MakeError e) | Inr t \<Rightarrow> Inr (t, inp))"

definition decodeFunc :: "'e mono_type reader \<Rightarrow> 'e mono_type reader" where
  "decodeFunc d = thenR d (\<lambda>aty. thenR d (\<lambda>rty. makeR (Func aty rty)))"

definition decodeExists :: "'e mono_type reader \<Rightarrow> 'e mono_type reader" where
  "decodeExists d = thenR readString (\<lambda>tn. thenR d (\<lambda>aty. makeR (Exists tn aty)))"

definition decodeRecursive :: "'e mono_type reader \<Rightarrow> 'e mono_type reader" where
  "decodeRecursive d = thenR readString (\<lambda>tn. thenR d (\<lambda>rty. makeR (Recursive tn rty)))"

definition decodeTString :: "'e mono_type reader" where
  "decodeTString = thenR readString (\<lambda>s. makeR (TString s))"

definition decodeTLong :: "'e mono_type reader" where
  "decodeTLong = thenR readLong (\<lambda>x. makeR (TLong x))"

definition decodeTExpr :: "(bytes \<Rightarrow> 'e option) \<Rightarrow> 'e mono_type reader" where
  "decodeTExpr decE =
     thenR (readVector readByte)
       (\<lambda>ebs inp. case decE ebs of None \<Rightarrow> Inl MalformedExpr | Some e \<Rightarrow> Inr (TExpr e, inp))"

text \<open>
  \<open>decodeFrom\<close> dispatches on the code that is read first; there is no case for \<open>TAbs\<close>, so that
  \<open>decodeTAbs\<close> is never called. Fuel bounds the nesting of types.
\<close>

primrec decodeFrom :: "'e beta \<Rightarrow> (bytes \<Rightarrow> 'e option) \<Rightarrow> nat \<Rightarrow> 'e mono_type reader" where
  "decodeFrom bt decE 0 = (\<lambda>inp. Inl DecodeFuel)"
| "decodeFrom bt decE (Suc k) =
     (let d = decodeFrom bt decE k in
      thenR readInt (\<lambda>c.
        if c = 0 then decodePrim d
        else if c = 1 then decodeOpaquePtr
        else if c = 2 then decodeTVar
        else if c = 3 then decodeTGen
        else if c = 12 then decodeTApp d
        else if c = 4 then decodeFixedArr d
        else if c = 5 then decodeArr d
        else if c = 6 then decodeVariant d
        else if c = 7 then decodeRecord bt d
        else if c = 8 then decodeFunc d
        else if c = 9 then decodeExists d
        else if c = 13 then decodeRecursive d
        else if c = 10 then decodeTString
        else if c = 11 then decodeTLong
        else if c = 14 then decodeTExpr decE
        else (\<lambda>inp. Inl MalformedType)))"

definition decode :: "'e beta \<Rightarrow> (bytes \<Rightarrow> 'e option) \<Rightarrow> bytes \<Rightarrow> decode_error + 'e mono_type" where
  "decode bt decE inp = mapR fst (decodeFrom bt decE (Suc (length inp)) inp)"

section \<open>Streams\<close>

text \<open>
  In a stream an encoding is preceded by its length. A qualified type is written as the number of
  its constraints, which is always zero, and its type; what is read for that number is ignored.
\<close>

definition encodeStream :: "('e \<Rightarrow> bytes) \<Rightarrow> 'e mono_type \<Rightarrow> bytes" where
  "encodeStream encE mty = writeVector (\<lambda>b. [b]) (encodeMT encE mty)"

definition encodeStreamQ :: "('e \<Rightarrow> bytes) \<Rightarrow> 'e qual_type \<Rightarrow> decode_error + bytes" where
  "encodeStreamQ encE qty =
     (if isMonotypeQ qty then Inr (writeSize 0 @ encodeStream encE (qmono qty)) else Inl QualTypeNYI)"

definition decodeStream :: "'e beta \<Rightarrow> (bytes \<Rightarrow> 'e option) \<Rightarrow> 'e mono_type reader" where
  "decodeStream bt decE =
     thenR (readVector readByte) (\<lambda>cs inp.
       if cs = [] then Inl StreamCorrupted else mapR (\<lambda>t. (t, inp)) (decode bt decE cs))"

definition decodeStreamQ :: "'e beta \<Rightarrow> (bytes \<Rightarrow> 'e option) \<Rightarrow> 'e qual_type reader" where
  "decodeStreamQ bt decE =
     thenR readLong (\<lambda>x. thenR (decodeStream bt decE) (\<lambda>mty. makeR (qualtype [] mty)))"

section \<open>Round trip\<close>

lemma fromLE_leBytes: "fromLE (leBytes n (x :: 'a::len word)) = take_bit (8 * n) x"
proof (induction n arbitrary: x)
  case (Suc n)
  have "or (ucast (ucast x :: u8)) (push_bit 8 (take_bit (8 * n) (drop_bit 8 x))) = take_bit (8 * Suc n) x"
    by (rule bit_word_eqI) (auto simp: bit_simps)
  then show ?case using Suc by simp
qed simp

lemma length_leBytes [simp]: "length (leBytes n x) = n"
  by (induction n arbitrary: x) simp_all

lemma readBytes_append [simp]: "length bs = n \<Longrightarrow> readBytes n (bs @ r) = Inr (bs, r)"
  by (simp add: readBytes_def)

named_theorems codec

lemma read_write [codec]:
  "readInt (writeInt x @ r) = Inr (x, r)" "readLong (writeLong y @ r) = Inr (y, r)"
  "readBool (writeBool b @ r) = Inr (b, r)" "readByte (z # r) = Inr (z, r)"
  by (simp_all add: readInt_def writeInt_def readLong_def writeLong_def fromLE_leBytes readBool_def writeBool_def
      readByte_def readBytes_def take_bit_word_eq_self)

lemma unat_size: "n < 2 ^ 64 \<Longrightarrow> unat (of_nat n :: u64) = n"
  by (simp add: unat_of_nat take_bit_nat_eq_self)

lemma char_of_byte: "char_of (unat (of_char c :: u8)) = c"
proof -
  have "of_char c = (of_nat (of_char c) :: u8)" by (simp only: of_nat_of_char)
  then have "unat (of_char c :: u8) = of_char c"
    using nat_of_char_less_256 [of c] by (simp only: unat_of_nat) simp
  then show ?thesis by simp
qed

lemma readString_write [codec]: "length s < 2 ^ 64 \<Longrightarrow> readString (writeString s @ r) = Inr (s, r)"
  by (simp add: readString_def writeString_def writeSize_def codec unat_size char_of_byte comp_def)

lemma readN_write:
  "(\<And>x r. x \<in> set xs \<Longrightarrow> f (w x @ r) = Inr (x, r)) \<Longrightarrow> readN f (length xs) (concat (map w xs) @ r) = Inr (xs, r)"
  by (induction xs) simp_all

lemma readVector_write:
  "length xs < 2 ^ 64 \<Longrightarrow> (\<And>x r. x \<in> set xs \<Longrightarrow> f (w x @ r) = Inr (x, r)) \<Longrightarrow>
    readVector f (writeVector w xs @ r) = Inr (xs, r)"
  by (simp add: readVector_def writeVector_def writeSize_def codec unat_size readN_write)

lemma readBytes_write: "length bs < 2 ^ 64 \<Longrightarrow> readVector readByte (writeVector (\<lambda>b. [b]) bs @ r) = Inr (bs, r)"
  by (rule readVector_write) (simp_all add: codec)

text \<open>
  What a type must satisfy to be read back: strings and vectors have lengths that fit a
  \<open>size_t\<close>, element types of arrays, opaque pointers and records are as their constructors make them, the
  expressions in it can be read back, and it contains no abstraction over types.
\<close>

fun codable :: "'e beta \<Rightarrow> ('e \<Rightarrow> bytes) \<Rightarrow> (bytes \<Rightarrow> 'e option) \<Rightarrow> 'e mono_type \<Rightarrow> bool" where
  "codable bt encE decE (Prim nm rep) =
     (length nm < 2 ^ 64 \<and> (case rep of None \<Rightarrow> True | Some t \<Rightarrow> codable bt encE decE t))"
| "codable bt encE decE (OpaquePtr nm sz c) = (length nm < 2 ^ 64 \<and> (c \<or> sz = 0))"
| "codable bt encE decE (TGen x) = True"
| "codable bt encE decE (TVar nm) = (length nm < 2 ^ 64)"
| "codable bt encE decE (TAbs ns b) = False"
| "codable bt encE decE (TApp f ts) =
     (codable bt encE decE f \<and> length ts < 2 ^ 64 \<and> (\<forall>t \<in> set ts. codable bt encE decE t))"
| "codable bt encE decE (FixedArray ty len) =
     (arrType ty = ty \<and> codable bt encE decE ty \<and> codable bt encE decE len)"
| "codable bt encE decE (Array ty) = (arrType ty = ty \<and> codable bt encE decE ty)"
| "codable bt encE decE (Variant ms) =
     (length ms < 2 ^ 64 \<and> (\<forall>m \<in> set ms. length (mlabel m) < 2 ^ 64 \<and> codable bt encE decE (mtype m)))"
| "codable bt encE decE (Record ms) =
     (recordMake bt ms = Inr (Record ms) \<and>
      length ms < 2 ^ 64 \<and> (\<forall>m \<in> set ms. length (mlabel m) < 2 ^ 64 \<and> codable bt encE decE (mtype m)))"
| "codable bt encE decE (Func a r) = (codable bt encE decE a \<and> codable bt encE decE r)"
| "codable bt encE decE (Exists n b) = (length n < 2 ^ 64 \<and> codable bt encE decE b)"
| "codable bt encE decE (Recursive n b) = (length n < 2 ^ 64 \<and> codable bt encE decE b)"
| "codable bt encE decE (TString s) = (length s < 2 ^ 64)"
| "codable bt encE decE (TLong x) = True"
| "codable bt encE decE (TExpr e) = (decE (encE e) = Some e \<and> length (encE e) < 2 ^ 64)"

lemma length_encodeMT: "4 \<le> length (encodeMT encE t)"
  by (cases t) (simp_all add: writeInt_def)

lemma length_writeVector_mem: "x \<in> set xs \<Longrightarrow> length (w x) \<le> length (writeVector w xs)"
  by (induction xs) (auto simp: writeVector_def writeSize_def writeLong_def)

lemma thenR_step: "f inp = Inr (x, r) \<Longrightarrow> thenR f g inp = g x r"
  by (simp add: thenR_def)

lemmas decoders = decodePrim_def decodeOpaquePtr_def decodeTGen_def decodeTApp_def decodeTVar_def decodeFixedArr_def
  decodeArr_def decodeVariant_def decodeRecord_def decodeFunc_def decodeExists_def decodeRecursive_def
  decodeTString_def decodeTLong_def decodeTExpr_def decodeMember_def

lemma decodeMember_write:
  assumes "length (mlabel m) < 2 ^ 64" "d (encodeMT encE (mtype m) @ r) = Inr (mtype m, r)"
  shows "decodeMember d ((writeString (mlabel m) @ writeInt (mnum m) @ encodeMT encE (mtype m)) @ r) = Inr (m, r)"
  using assms by (simp add: decodeMember_def thenR_def makeR_def codec Member_eta)

lemma length_write [simp]: "length (writeInt x) = 4" "length (writeLong y) = 8"
  by (simp_all add: writeInt_def writeLong_def)

lemma decodeFrom_encode:
  "codable bt encE decE t \<Longrightarrow> length (encodeMT encE t) \<le> k \<Longrightarrow>
    decodeFrom bt decE k (encodeMT encE t @ r) = Inr (t, r)"
proof (induction k arbitrary: t r)
  case 0
  then show ?case using length_encodeMT [of encE t] by simp
next
  case (Suc k)
  let ?d = "decodeFrom bt decE k" and ?w = "\<lambda>m. writeString (mlabel m) @ writeInt (mnum m) @ encodeMT encE (mtype m)"
  have list: "readVector ?d (writeVector (encodeMT encE) ts @ r) = Inr (ts, r)"
    if "length ts < 2 ^ 64" "\<forall>t \<in> set ts. codable bt encE decE t" "length (writeVector (encodeMT encE) ts) \<le> k" for ts r
    using that length_writeVector_mem [of _ ts "encodeMT encE"]
    by (intro readVector_write Suc.IH) (auto intro: order_trans)
  have members: "readVector (decodeMember ?d) (writeVector ?w ms @ r) = Inr (ms, r)"
    if ms: "length ms < 2 ^ 64" "\<forall>m \<in> set ms. length (mlabel m) < 2 ^ 64 \<and> codable bt encE decE (mtype m)"
      "length (writeVector ?w ms) \<le> k" for ms r
  proof (rule readVector_write [OF ms(1)])
    fix m r assume m: "m \<in> set ms"
    have "length (encodeMT encE (mtype m)) \<le> k" using length_writeVector_mem [OF m, of ?w] ms(3) by simp
    then show "decodeMember ?d (?w m @ r) = Inr (m, r)" using ms(2) m by (intro decodeMember_write Suc.IH) auto
  qed
  note step = decoders thenR_def makeR_def codec Let_def
  show ?case
  proof (cases t)
    case (Prim nm rep)
    then show ?thesis using Suc by (cases rep) (simp_all add: step)
  next
    case (TApp f ts)
    then show ?thesis using Suc list by (simp add: step)
  next
    case (Variant ms)
    then show ?thesis using Suc.prems members by (simp add: step)
  next
    case (Record ms)
    then show ?thesis using Suc.prems members by (simp add: step)
  next
    case (TExpr e)
    then show ?thesis using Suc.prems by (simp add: step readBytes_write)
  qed (use Suc in \<open>simp_all add: step\<close>)
qed

section \<open>Termination\<close>

text \<open>\<open>shrinks\<close>: a reader never gives back more input than it got. \<open>safe k\<close>: it does not run out of fuel on less than \<open>k\<close> bytes.\<close>

definition shrinks :: "'a reader \<Rightarrow> bool" where
  "shrinks f \<longleftrightarrow> (\<forall>inp x r. f inp = Inr (x, r) \<longrightarrow> length r \<le> length inp)"

definition safe :: "nat \<Rightarrow> 'a reader \<Rightarrow> bool" where
  "safe k f \<longleftrightarrow> (\<forall>inp. length inp < k \<longrightarrow> f inp \<noteq> Inl DecodeFuel)"

named_theorems readers

lemma thenR_readers [readers]:
  "shrinks f \<Longrightarrow> (\<And>x. shrinks (g x)) \<Longrightarrow> shrinks (thenR f g)"
  "safe k f \<Longrightarrow> shrinks f \<Longrightarrow> (\<And>x. safe k (g x)) \<Longrightarrow> safe k (thenR f g)"
proof -
  show "shrinks f \<Longrightarrow> (\<And>x. shrinks (g x)) \<Longrightarrow> shrinks (thenR f g)"
    unfolding shrinks_def thenR_def by (fastforce simp: bindE_Inr_iff intro: order_trans)
  assume f: "safe k f" "shrinks f" and g: "\<And>x. safe k (g x)"
  show "safe k (thenR f g)" unfolding safe_def
  proof (intro allI impI)
    fix inp :: bytes assume "length inp < k"
    then have "f inp \<noteq> Inl DecodeFuel" "\<And>x r. f inp = Inr (x, r) \<Longrightarrow> g x r \<noteq> Inl DecodeFuel"
      using f g unfolding safe_def shrinks_def by (blast, meson order.strict_trans1)
    then show "thenR f g inp \<noteq> Inl DecodeFuel" by (cases "f inp") (auto simp: thenR_def)
  qed
qed

lemma makeR_readers [readers]: "shrinks (makeR x)" "safe k (makeR x)"
  by (simp_all add: shrinks_def safe_def makeR_def)

lemma readBytes_readers [readers]: "shrinks (readBytes n)" "safe k (readBytes n)"
  by (auto simp: shrinks_def safe_def readBytes_def)

lemma mapR_readers:
  "shrinks f \<Longrightarrow> shrinks (\<lambda>inp. mapR (\<lambda>(x, r). (h x, r)) (f inp))"
  "safe k f \<Longrightarrow> safe k (\<lambda>inp. mapR (\<lambda>(x, r). (h x, r)) (f inp))"
  unfolding shrinks_def safe_def by (auto simp: mapR_Inr_iff) (metis mapR_simps sum.exhaust Inl_Inr_False sum.inject(1))

lemma number_readers [readers]:
  "shrinks readInt" "safe k readInt" "shrinks readLong" "safe k readLong" "shrinks readByte" "safe k readByte"
  "shrinks readBool" "safe k readBool"
proof -
  note r = mapR_readers(1) [OF readBytes_readers(1)] mapR_readers(2) [OF readBytes_readers(2)]
  show b: "shrinks readByte" "safe k readByte" for k
    by (simp_all add: readByte_def [abs_def] r)
  show "shrinks readInt" "safe k readInt" "shrinks readLong" "safe k readLong"
    by (simp_all add: readInt_def [abs_def] readLong_def [abs_def] r)
  show "shrinks readBool" "safe k readBool"
    by (simp_all add: readBool_def [abs_def] mapR_readers(1) [OF b(1)] mapR_readers(2) [OF b(2)])
qed

lemma readN_readers:
  "shrinks f \<Longrightarrow> shrinks (readN f n)" "shrinks f \<Longrightarrow> safe k f \<Longrightarrow> safe k (readN f n)"
proof -
  have s: "readN f (Suc n) = thenR f (\<lambda>x. thenR (readN f n) (\<lambda>xs. makeR (x # xs)))" for n
    by (rule ext) (simp add: thenR_def makeR_def bindE_def mapR_def split: sum.splits)
  have z: "readN f 0 = makeR []" by (rule ext) (simp add: makeR_def)
  show a: "shrinks f \<Longrightarrow> shrinks (readN f n)" for n
    by (induction n) (auto simp only: s z intro!: readers)
  show "shrinks f \<Longrightarrow> safe k f \<Longrightarrow> safe k (readN f n)"
    by (induction n) (auto simp only: s z intro!: readers a)
qed

lemma compound_readers [readers]:
  "shrinks readString" "safe k readString"
  "shrinks f \<Longrightarrow> shrinks (readVector f)" "shrinks f \<Longrightarrow> safe k f \<Longrightarrow> safe k (readVector f)"
proof -
  have s: "readString = thenR readLong (\<lambda>sz. thenR (readBytes (unat sz)) (\<lambda>bs. makeR (map (\<lambda>b. char_of (unat b)) bs)))"
    by (rule ext) (simp add: readString_def thenR_def makeR_def bindE_def mapR_def split: sum.splits)
  have v: "readVector f = thenR readLong (\<lambda>sz. readN f (unat sz))"
    by (rule ext) (simp add: readVector_def thenR_def)
  show "shrinks readString" "safe k readString" unfolding s by (intro readers)+
  show "shrinks f \<Longrightarrow> shrinks (readVector f)" "shrinks f \<Longrightarrow> safe k f \<Longrightarrow> safe k (readVector f)"
    unfolding v by (intro readers readN_readers; assumption)+
qed

lemma last_readers [readers]:
  "shrinks (\<lambda>inp. case recordMake bt ms of Inl e \<Rightarrow> Inl (MakeError e) | Inr t \<Rightarrow> Inr (t, inp))"
  "safe k (\<lambda>inp. case recordMake bt ms of Inl e \<Rightarrow> Inl (MakeError e) | Inr t \<Rightarrow> Inr (t, inp))"
  "shrinks (\<lambda>inp. case decE ebs of None \<Rightarrow> Inl MalformedExpr | Some e \<Rightarrow> Inr (TExpr e, inp))"
  "safe k (\<lambda>inp. case decE ebs of None \<Rightarrow> Inl MalformedExpr | Some e \<Rightarrow> Inr (TExpr e, inp))"
  "shrinks (\<lambda>inp. Inl MalformedType)" "safe k (\<lambda>inp. Inl MalformedType)"
  by (auto simp: shrinks_def safe_def split: sum.splits option.splits)

lemma if_readers [readers]:
  "shrinks f \<Longrightarrow> shrinks g \<Longrightarrow> shrinks (if c then f else g)"
  "safe k f \<Longrightarrow> safe k g \<Longrightarrow> safe k (if c then f else g)"
  by simp_all

text \<open>Reading the code of a type takes bytes away, so that what is nested has less input.\<close>

lemma thenR_readInt_safe:
  assumes "\<And>x. safe k (g x)"
  shows "safe (Suc k) (thenR readInt g)"
  unfolding safe_def
proof (intro allI impI)
  fix inp :: bytes assume l: "length inp < Suc k"
  show "thenR readInt g inp \<noteq> Inl DecodeFuel"
  proof (cases "length inp < 4")
    case True
    then show ?thesis by (simp add: thenR_def readInt_def readBytes_def)
  next
    case False
    then have "g (fromLE (take 4 inp)) (drop 4 inp) \<noteq> Inl DecodeFuel" using assms l by (simp add: safe_def)
    then show ?thesis using False by (simp add: thenR_def readInt_def readBytes_def)
  qed
qed

lemma decodeFrom_shrinks: "shrinks (decodeFrom bt decE k)"
proof (induction k)
  case (Suc k)
  show ?case unfolding decodeFrom.simps Let_def decoders by (intro readers Suc.IH)
qed (simp add: shrinks_def)

lemma decodeFrom_safe: "safe k (decodeFrom bt decE k)"
proof (induction k)
  case (Suc k)
  show ?case unfolding decodeFrom.simps Let_def decoders
    by (rule thenR_readInt_safe) (intro readers Suc.IH decodeFrom_shrinks)
qed (simp add: safe_def)

lemma decodeStream_encode:
  assumes "codable bt encE decE t" "length (encodeMT encE t) < 2 ^ 64"
  shows "decodeStream bt decE (encodeStream encE t @ r) = Inr (t, r)"
proof -
  have "decode bt decE (encodeMT encE t) = Inr t"
    using decodeFrom_encode [OF assms(1), of "Suc (length (encodeMT encE t))" "[]"]
    by (simp add: decode_def del: decodeFrom.simps)
  moreover have "encodeMT encE t \<noteq> []" using length_encodeMT [of encE t] by auto
  ultimately show ?thesis
    using assms(2) by (simp add: decodeStream_def encodeStream_def thenR_def readBytes_write)
qed

lemma decodeStreamQ_encode:
  assumes "codable bt encE decE t" "length (encodeMT encE t) < 2 ^ 64"
    "encodeStreamQ encE (qualtype [] t) = Inr bs"
  shows "decodeStreamQ bt decE (bs @ r) = Inr (qualtype [] t, r)"
  using assms(3) decodeStream_encode [OF assms(1,2)]
  by (auto simp: encodeStreamQ_def isMonotypeQ_def qualtype_def decodeStreamQ_def thenR_def makeR_def writeSize_def codec)

section \<open>Properties\<close>


definition pair_ty :: "unit mono_type" where
  "pair_ty = Record [Member ''a'' (primty ''byte'') 0, Member ''b'' (Array (primty ''int'')) 8]"


text \<open>
  Decoding ends on every input, however damaged: it gives a type or an error that names
  what is wrong. Every nested type takes at least the four bytes of its code.
\<close>

theorem decode_ends: "decode bt decE inp \<noteq> Inl DecodeFuel"
  using decodeFrom_safe [of "Suc (length inp)" bt decE]
  by (cases "decodeFrom bt decE (Suc (length inp)) inp") (auto simp: decode_def safe_def simp del: decodeFrom.simps)

text \<open>
  Abstractions over types can be written and not read: the code that \<open>encode\<close> gives them is
  unknown to \<open>decodeFrom\<close>.
\<close>

theorem tabs_not_decodable: "decode bt decE (encodeMT encE (TAbs ns b)) = Inl MalformedType"
  unfolding decode_def decodeFrom.simps(2) Let_def thenR_def by (simp add: codec)

end
