(* ===== verification/Prefix_Tree.thy ===== *)
theory Prefix_Tree
  imports Hobbes_Prelude
begin

text \<open>
  The prefix tree of \<^verbatim>\<open>lib/hobbes/util/str.C\<close> that finds the words that are close to a string, to
  suggest names in error messages. A node is known by the prefix that leads to it, so the set of
  nodes that have been reported is a set of prefixes.
\<close>

section \<open>The tree\<close>

datatype ptnode = PtNode (children: "(char \<times> ptnode) list") (terminal: bool)

text \<open>The children are a \<open>std::map\<close> over \<open>char\<close>, which is signed.\<close>

definition scharOf :: "char \<Rightarrow> int" where
  "scharOf c = sint (of_nat (of_char c) :: u8)"

fun setChild :: "char \<Rightarrow> ptnode \<Rightarrow> (char \<times> ptnode) list \<Rightarrow> (char \<times> ptnode) list" where
  "setChild c n [] = [(c, n)]"
| "setChild c n ((d, m) # ch) =
     (if d = c then (c, n) # ch
      else if scharOf c < scharOf d then (c, n) # (d, m) # ch
      else (d, m) # setChild c n ch)"

fun ptInsert :: "string \<Rightarrow> ptnode \<Rightarrow> ptnode" where
  "ptInsert [] n = PtNode (children n) True"
| "ptInsert (c # x) n =
     PtNode (setChild c (ptInsert x (case map_of (children n) c of Some m \<Rightarrow> m | None \<Rightarrow> PtNode [] False)) (children n))
       (terminal n)"

definition prefixTree :: "string list \<Rightarrow> ptnode" where
  "prefixTree xs = foldl (\<lambda>n x. ptInsert x n) (PtNode [] False) xs"

section \<open>Ranked matches\<close>

type_synonym ranked = "(nat \<times> string list) list"

fun pushRank :: "nat \<Rightarrow> string \<Rightarrow> ranked \<Rightarrow> ranked" where
  "pushRank k s [] = [(k, [s])]"
| "pushRank k s ((j, ss) # r) =
     (if k = j then (j, ss @ [s]) # r
      else if k < j then (k, [s]) # (j, ss) # r
      else (j, ss) # pushRank k s r)"

type_synonym matches = "ranked \<times> string set"

text \<open>
  Deleting characters goes on after the end of the input, so that \<open>x.size() - xi\<close> may wrap; the
  sum with the edits, which count those deletions, is taken modulo \<open>2 ^ 64\<close> too.
\<close>

definition tedits :: "string \<Rightarrow> nat \<Rightarrow> nat \<Rightarrow> nat" where
  "tedits x xi edits = unat (of_nat edits + (of_nat (length x) - of_nat xi) :: u64)"

definition reportMatch :: "string \<Rightarrow> string \<Rightarrow> nat \<Rightarrow> nat \<Rightarrow> nat \<Rightarrow> ptnode \<Rightarrow> matches \<Rightarrow> matches" where
  "reportMatch pfx x xi edits maxDist n st =
     (if terminal n \<and> tedits x xi edits < maxDist \<and> pfx \<notin> snd st
      then (pushRank (tedits x xi edits) pfx (fst st), insert pfx (snd st)) else st)"

lemma size_children: "size_list (size_prod (\<lambda>_. 0) size) (children n) < size n"
  by (cases n) simp

function findRankedMatches :: "string \<Rightarrow> string \<Rightarrow> nat \<Rightarrow> nat \<Rightarrow> nat \<Rightarrow> ptnode \<Rightarrow> matches \<Rightarrow> matches"
  and findInChildren :: "string \<Rightarrow> string \<Rightarrow> nat \<Rightarrow> nat \<Rightarrow> nat \<Rightarrow> (char \<times> ptnode) list \<Rightarrow> matches \<Rightarrow> matches" where
  "findRankedMatches pfx x xi edits maxDist n st =
     (if maxDist \<le> edits then st
      else findRankedMatches pfx x (xi + 1) (edits + 1) maxDist n
        (findInChildren pfx x xi edits maxDist (children n) (reportMatch pfx x xi edits maxDist n st)))"
| "findInChildren pfx x xi edits maxDist [] st = st"
| "findInChildren pfx x xi edits maxDist ((c, n) # ch) st =
     findInChildren pfx x xi edits maxDist ch
       (findRankedMatches (pfx @ [c]) x xi (edits + 1) maxDist n
         (if xi < length x
          then findRankedMatches (pfx @ [c]) x (xi + 1) (if x ! xi = c then edits else edits + 1) maxDist n st
          else st))"
  by pat_completeness auto
termination findRankedMatches
proof (relation "measure (\<lambda>a. case a of
    Inl (pfx, x, xi, edits, maxDist, n, st) \<Rightarrow> size n + (maxDist - edits)
  | Inr (pfx, x, xi, edits, maxDist, ch, st) \<Rightarrow> size_list (size_prod (\<lambda>_. 0) size) ch + (maxDist - edits))")
qed (use size_children in \<open>auto simp: less_diff_conv2 intro: diff_less_mono add_less_mono1\<close>)

declare findRankedMatches.simps [simp del]

definition rankedMatches :: "string list \<Rightarrow> string \<Rightarrow> nat \<Rightarrow> ranked" where
  "rankedMatches ss x maxDist = fst (findRankedMatches [] x 0 0 maxDist (prefixTree ss) ([], {}))"

definition closestMatches :: "string \<Rightarrow> string list \<Rightarrow> nat \<Rightarrow> string list" where
  "closestMatches x ss maxDist = concat (map snd (rankedMatches ss x maxDist))"

definition editDistance :: "string \<Rightarrow> string \<Rightarrow> nat" where
  "editDistance x y =
     (let m = max (length x) (length y); r = rankedMatches [y] x m in
      if r \<noteq> [] then fst (hd r) else m)"

section \<open>The words of a tree\<close>

fun hasWord :: "ptnode \<Rightarrow> string \<Rightarrow> bool" where
  "hasWord n [] = terminal n"
| "hasWord n (c # s) = (case map_of (children n) c of None \<Rightarrow> False | Some m \<Rightarrow> hasWord m s)"

lemma scharOf_inject: "scharOf c = scharOf d \<longleftrightarrow> c = d"
proof
  assume "scharOf c = scharOf d"
  then have "(of_nat (of_char c) :: u8) = of_nat (of_char d)" by (simp add: scharOf_def signed_word_eqI)
  then have "unat (of_nat (of_char c) :: u8) = unat (of_nat (of_char d) :: u8)" by (rule arg_cong)
  moreover have "of_char x < (256 :: nat)" for x by simp
  ultimately have "(of_char c :: nat) = of_char d" by (simp add: unat_of_nat take_bit_nat_eq_self)
  then show "c = d" by simp
qed simp

definition sortedChildren :: "(char \<times> ptnode) list \<Rightarrow> bool" where
  "sortedChildren ch \<longleftrightarrow> sorted_wrt (\<lambda>p q. scharOf (fst p) < scharOf (fst q)) ch"

lemma set_setChild: "set (setChild c n ch) \<subseteq> insert (c, n) (set ch)"
  by (induction c n ch rule: setChild.induct) auto

lemma sorted_setChild: "sortedChildren ch \<Longrightarrow> sortedChildren (setChild c n ch)"
proof (induction c n ch rule: setChild.induct)
  case (2 c n d m ch)
  consider "d = c" | "d \<noteq> c" "scharOf c < scharOf d" | "d \<noteq> c" "\<not> scharOf c < scharOf d" "scharOf d < scharOf c"
    using scharOf_inject [of c d] by (metis linorder_less_linear)
  then show ?case
  proof cases
    case 2
    then show ?thesis using "2.prems" by (auto simp: sortedChildren_def intro: order.strict_trans)
  next
    case 3
    then have "sortedChildren (setChild c n ch)" using 2 by (simp add: sortedChildren_def)
    moreover have "scharOf d < scharOf (fst q)" if "q \<in> set (setChild c n ch)" for q
      using that set_setChild [of c n ch] 3 "2.prems" by (auto simp: sortedChildren_def)
    ultimately show ?thesis using 3 by (simp add: sortedChildren_def)
  qed (use 2 in \<open>simp add: sortedChildren_def\<close>)
qed (simp add: sortedChildren_def)

lemma map_of_setChild: "sortedChildren ch \<Longrightarrow> map_of (setChild c n ch) = (map_of ch)(c \<mapsto> n)"
proof (induction c n ch rule: setChild.induct)
  case (2 c n d m ch)
  then show ?case by (auto simp: sortedChildren_def)
qed simp

lemma sortedChildren_distinct: "sortedChildren ch \<Longrightarrow> distinct (map fst ch)"
  by (induction ch) (auto simp: sortedChildren_def)

inductive pt_ok :: "ptnode \<Rightarrow> bool" where
  "sortedChildren (children n) \<Longrightarrow> (\<And>c m. (c, m) \<in> set (children n) \<Longrightarrow> pt_ok m) \<Longrightarrow> pt_ok n"

inductive_simps pt_ok_simps: "pt_ok n"

lemma pt_ok_leaf: "pt_ok (PtNode [] b)"
  by (rule pt_ok.intros) (simp_all add: sortedChildren_def)

lemma ptInsert_ok: "pt_ok n \<Longrightarrow> pt_ok (ptInsert x n)"
proof (induction x n rule: ptInsert.induct)
  case (1 n)
  then show ?case by (auto simp: pt_ok_simps [of n] pt_ok_simps [of "PtNode _ _"])
next
  case (2 c x n)
  let ?m = "case map_of (children n) c of Some m \<Rightarrow> m | None \<Rightarrow> PtNode [] False"
  have "pt_ok ?m" using 2(2) by (auto simp: pt_ok_leaf pt_ok_simps [of n] split: option.split dest: map_of_SomeD)
  then have "pt_ok (ptInsert x ?m)" by (rule 2(1))
  then show ?case
    using 2(2) set_setChild [of c "ptInsert x ?m" "children n"]
    unfolding pt_ok_simps [of n] pt_ok_simps [of "ptInsert (c # x) n"] by (auto simp: sorted_setChild)
qed

lemma hasWord_ptInsert: "pt_ok n \<Longrightarrow> hasWord (ptInsert x n) w \<longleftrightarrow> w = x \<or> hasWord n w"
proof (induction x n arbitrary: w rule: ptInsert.induct)
  case (1 n)
  then show ?case by (cases w) auto
next
  case (2 c x n)
  let ?m = "case map_of (children n) c of Some m \<Rightarrow> m | None \<Rightarrow> PtNode [] False"
  have d: "sortedChildren (children n)" using 2(2) by (simp add: pt_ok_simps [of n])
  have "pt_ok ?m" using 2(2) by (auto simp: pt_ok_leaf pt_ok_simps [of n] split: option.split dest: map_of_SomeD)
  note ih = 2(1) [OF this]
  show ?case
  proof (cases w)
    case (Cons a v)
    have "hasWord (PtNode [] False) v = False" by (cases v) simp_all
    then show ?thesis using Cons ih by (auto simp: map_of_setChild [OF d] split: option.splits)
  qed simp
qed

lemma prefixTree_words: "pt_ok (prefixTree ss) \<and> (\<forall>w. hasWord (prefixTree ss) w \<longleftrightarrow> w \<in> set ss)"
proof -
  have "pt_ok (foldl (\<lambda>n x. ptInsert x n) n ss) \<and>
    (\<forall>w. hasWord (foldl (\<lambda>n x. ptInsert x n) n ss) w \<longleftrightarrow> w \<in> set ss \<or> hasWord n w)" if "pt_ok n" for n
    using that by (induction ss arbitrary: n) (auto simp: ptInsert_ok hasWord_ptInsert)
  moreover have "\<not> hasWord (PtNode [] False) w" for w by (cases w) simp_all
  ultimately show ?thesis using pt_ok_leaf [of False] by (auto simp: prefixTree_def)
qed

section \<open>Edit distance\<close>

text \<open>The least number of changes, insertions and deletions that turn one string into the other.\<close>

fun lev :: "string \<Rightarrow> string \<Rightarrow> nat" where
  "lev [] ys = length ys"
| "lev (x # xs) [] = length (x # xs)"
| "lev (x # xs) (y # ys) =
     min (lev xs ys + (if x = y then 0 else 1)) (1 + min (lev xs (y # ys)) (lev (x # xs) ys))"

lemma lev_Nil [simp]: "lev xs [] = length xs"
  by (cases xs) simp_all

text \<open>The distance that is left at position \<open>xi\<close>, less the deletions past the end of the input.\<close>

definition lev_at :: "string \<Rightarrow> nat \<Rightarrow> string \<Rightarrow> int" where
  "lev_at x xi s = int (lev (drop xi x) s) - int (xi - length x)"

lemma lev_at_match: "xi < length x \<Longrightarrow> x ! xi = c \<Longrightarrow> lev_at x xi (c # s) \<le> lev_at x (xi + 1) s"
  by (simp add: lev_at_def Cons_nth_drop_Suc [symmetric])

lemma lev_at_change: "xi < length x \<Longrightarrow> lev_at x xi (c # s) \<le> 1 + lev_at x (xi + 1) s"
  by (auto simp: lev_at_def Cons_nth_drop_Suc [symmetric])

lemma lev_at_insert: "lev_at x xi (c # s) \<le> 1 + lev_at x xi s"
proof (cases "drop xi x")
  case (Cons a as)
  then show ?thesis by (simp add: lev_at_def)
qed (simp add: lev_at_def)

lemma lev_at_delete: "lev_at x xi s \<le> 1 + lev_at x (xi + 1) s"
proof (cases "xi < length x")
  case True
  then show ?thesis by (cases s) (simp_all add: lev_at_def Cons_nth_drop_Suc [symmetric])
qed (simp add: lev_at_def)

lemma tedits_lev_at:
  assumes "xi \<le> length x + edits" "length x + edits < 2 ^ 64"
  shows "int (tedits x xi edits) = int edits + lev_at x xi []"
proof -
  have "int edits + lev_at x xi [] = int (edits + length x) - int xi" by (auto simp: lev_at_def)
  moreover have "tedits x xi edits = edits + length x - xi"
  proof -
    have "(of_nat edits + (of_nat (length x) - of_nat xi) :: u64) = of_nat (edits + length x - xi)"
      using assms(1) by (simp add: of_nat_diff)
    then show ?thesis using assms(2) by (simp add: tedits_def unat_of_nat take_bit_nat_eq_self)
  qed
  ultimately show ?thesis using assms(1) by simp
qed

section \<open>What the search finds\<close>

text \<open>A reported word comes from the tree, with a rank that its distance does not exceed.\<close>

definition ranks :: "ranked \<Rightarrow> (nat \<times> string) set" where
  "ranks r = {(k, s). \<exists>ss. (k, ss) \<in> set r \<and> s \<in> set ss}"

lemma ranks_push: "ranks (pushRank k s r) = insert (k, s) (ranks r)"
proof (induction k s r rule: pushRank.induct)
  case (2 k s j ss r)
  have c: "ranks ((a, b) # q) = {a} \<times> set b \<union> ranks q" for a b q by (auto simp: ranks_def)
  show ?case using 2 by (auto simp: c)
qed (auto simp: ranks_def)

lemma ranks_words: "snd ` ranks r = set (concat (map snd r))"
  by (force simp: ranks_def)

definition reported :: "string \<Rightarrow> nat \<Rightarrow> matches \<Rightarrow> bool" where
  "reported x maxDist st \<longleftrightarrow> snd st = snd ` ranks (fst st) \<and>
     (\<forall>(k, s) \<in> ranks (fst st). lev x s \<le> k \<and> k < maxDist) \<and> distinct (concat (map snd (fst st)))"

definition within :: "string \<Rightarrow> nat \<Rightarrow> string \<Rightarrow> nat \<Rightarrow> nat \<Rightarrow> bool" where
  "within x maxDist pfx xi edits \<longleftrightarrow> xi \<le> length x + edits \<and> (\<forall>s. int (lev x (pfx @ s)) \<le> int edits + lev_at x xi s)"

lemma within_step:
  assumes "within x maxDist pfx xi edits"
  shows "xi < length x \<Longrightarrow> within x maxDist (pfx @ [c]) (xi + 1) (if x ! xi = c then edits else edits + 1)"
    "within x maxDist (pfx @ [c]) xi (edits + 1)" "within x maxDist pfx (xi + 1) (edits + 1)"
proof -
  have b: "int (lev x (pfx @ s)) \<le> int edits + lev_at x xi s" "xi \<le> length x + edits" for s
    using assms by (simp_all add: within_def)
  have "int (lev x ((pfx @ [c]) @ s)) \<le> int (edits + 1) + lev_at x xi s" for s
    using b(1) [of "c # s"] lev_at_insert [of x xi c s] by simp
  then show "within x maxDist (pfx @ [c]) xi (edits + 1)" using b(2) by (simp add: within_def)
  have "int (lev x (pfx @ s)) \<le> int (edits + 1) + lev_at x (xi + 1) s" for s
    using b(1) [of s] lev_at_delete [of x xi s] by simp
  then show "within x maxDist pfx (xi + 1) (edits + 1)" using b(2) by (simp add: within_def)
  assume i: "xi < length x"
  have "int (lev x ((pfx @ [c]) @ s)) \<le> int (if x ! xi = c then edits else edits + 1) + lev_at x (xi + 1) s" for s
    using b(1) [of "c # s"] lev_at_match [OF i, of c s] lev_at_change [OF i, of c s] by (cases "x ! xi = c") simp_all
  then show "within x maxDist (pfx @ [c]) (xi + 1) (if x ! xi = c then edits else edits + 1)"
    using i by (simp add: within_def)
qed

text \<open>
  \<open>finds\<close> relates the matches before and after a part of the search: words are only added, the
  added ones are in \<open>S\<close>, and the ones in \<open>C\<close> are there afterwards.
\<close>

definition finds :: "string \<Rightarrow> nat \<Rightarrow> string set \<Rightarrow> string set \<Rightarrow> matches \<Rightarrow> matches \<Rightarrow> bool" where
  "finds x maxDist S C st st' \<longleftrightarrow>
     (reported x maxDist st \<longrightarrow> reported x maxDist st') \<and> snd st \<subseteq> snd st' \<and> snd st' \<subseteq> snd st \<union> S \<and> C \<subseteq> snd st'"

lemma finds_refl: "finds x maxDist S {} st st"
  by (simp add: finds_def)

lemma finds_comp:
  "finds x maxDist S C st st' \<Longrightarrow> finds x maxDist S' C' st' st'' \<Longrightarrow> finds x maxDist (S \<union> S') (C \<union> C') st st''"
  by (auto simp: finds_def)

lemma finds_weaken: "finds x maxDist S C st st' \<Longrightarrow> S \<subseteq> S' \<Longrightarrow> C' \<subseteq> C \<Longrightarrow> finds x maxDist S' C' st st'"
  by (auto simp: finds_def)

lemma set_push: "set (concat (map snd (pushRank k s r))) = insert s (set (concat (map snd r)))"
  by (induction k s r rule: pushRank.induct) auto

lemma distinct_push:
  "s \<notin> set (concat (map snd r)) \<Longrightarrow> distinct (concat (map snd r)) \<Longrightarrow> distinct (concat (map snd (pushRank k s r)))"
proof (induction k s r rule: pushRank.induct)
  case (2 k s j ss r)
  show ?case
  proof (cases "k = j \<or> k < j")
    case True
    then show ?thesis using 2(2,3) by auto
  next
    case False
    then have "distinct (concat (map snd (pushRank k s r)))" using 2 by simp
    then show ?thesis using False 2(2,3) set_push [of k s r] by (auto simp del: set_concat)
  qed
qed simp

lemma report_finds:
  assumes w: "within x maxDist pfx xi edits" and e: "edits < maxDist" and b: "length x + maxDist < 2 ^ 64"
  shows "finds x maxDist {w. w = pfx \<and> terminal n} {w. w = pfx \<and> terminal n \<and> int edits + lev_at x xi [] < int maxDist}
    st (reportMatch pfx x xi edits maxDist n st)"
proof -
  have t: "int edits + lev_at x xi [] = int (tedits x xi edits)"
    using w e b by (intro tedits_lev_at [symmetric]) (simp_all add: within_def)
  then have l: "lev x pfx \<le> tedits x xi edits" using w by (simp add: within_def) (metis append_Nil2 of_nat_le_iff)
  have "reported x maxDist (reportMatch pfx x xi edits maxDist n st)" if "reported x maxDist st"
  proof (cases "terminal n \<and> tedits x xi edits < maxDist \<and> pfx \<notin> snd st")
    case True
    moreover have "pfx \<notin> set (concat (map snd (fst st)))" using True that by (simp add: reported_def ranks_words)
    ultimately have "distinct (concat (map snd (pushRank (tedits x xi edits) pfx (fst st))))"
      using that by (intro distinct_push) (auto simp: reported_def)
    then show ?thesis using that l True unfolding reported_def by (simp add: reportMatch_def ranks_push)
  qed (use that in \<open>auto simp: reportMatch_def\<close>)
  then show ?thesis using t by (auto simp: finds_def reportMatch_def)
qed

lemma search_finds:
  "pt_ok n \<Longrightarrow> within x maxDist pfx xi edits \<Longrightarrow> length x + maxDist < 2 ^ 64 \<Longrightarrow>
    finds x maxDist {pfx @ s | s. hasWord n s}
      {pfx @ s | s. hasWord n s \<and> xi \<le> length x \<and> edits + lev (drop xi x) s < maxDist}
      st (findRankedMatches pfx x xi edits maxDist n st)"
  "(\<And>c m. (c, m) \<in> set ch \<Longrightarrow> pt_ok m) \<Longrightarrow> edits < maxDist \<Longrightarrow> within x maxDist pfx xi edits \<Longrightarrow> length x + maxDist < 2 ^ 64 \<Longrightarrow>
    finds x maxDist {pfx @ c # s | c m s. (c, m) \<in> set ch \<and> hasWord m s}
      {pfx @ c # s | c m s. (c, m) \<in> set ch \<and> hasWord m s \<and> xi \<le> length x \<and>
        (xi < length x \<and> edits + (if x ! xi = c then 0 else 1) + lev (drop (xi + 1) x) s < maxDist \<or>
         edits + 1 + lev (drop xi x) s < maxDist)}
      st (findInChildren pfx x xi edits maxDist ch st)"
proof (induction pfx x xi edits maxDist n st and pfx x xi edits maxDist ch st rule: findRankedMatches_findInChildren.induct)
  case (1 pfx x xi edits maxDist n st)
  show ?case
  proof (cases "maxDist \<le> edits")
    case True
    then have "findRankedMatches pfx x xi edits maxDist n st = st" by (subst findRankedMatches.simps) simp
    then show ?thesis using finds_refl [of x maxDist _ st] True by (auto intro: finds_weaken)
  next
    case False
    have ch: "pt_ok m" if "(c, m) \<in> set (children n)" for c m using that 1(3) by (auto simp: pt_ok_simps [of n])
    have d: "sortedChildren (children n)" using 1(3) by (simp add: pt_ok_simps [of n])
    have e: "edits < maxDist" using False by simp
    note f = finds_comp [OF report_finds [OF 1(4) e 1(5)] finds_comp [OF 1(1) [OF False ch e 1(4,5)] 1(2) [OF False 1(3) within_step(3) [OF 1(4)] 1(5)]]]
    have eq: "findRankedMatches pfx x xi edits maxDist n st =
      findRankedMatches pfx x (xi + 1) (edits + 1) maxDist n
        (findInChildren pfx x xi edits maxDist (children n) (reportMatch pfx x xi edits maxDist n st))"
      using False by (subst findRankedMatches.simps) simp
    have sub: "hasWord n (c # s)" if "(c, m) \<in> set (children n)" "hasWord m s" for c m s
      using that map_of_is_SomeI [OF sortedChildren_distinct [OF d] that(1)] by simp
    have found: "w \<in> {w. w = pfx \<and> terminal n \<and> int edits + lev_at x xi [] < int maxDist} \<union>
       ({pfx @ c # s |c m s. (c, m) \<in> set (children n) \<and> hasWord m s \<and> xi \<le> length x \<and>
          (xi < length x \<and> edits + (if x ! xi = c then 0 else 1) + lev (drop (xi + 1) x) s < maxDist \<or>
           edits + 1 + lev (drop xi x) s < maxDist)} \<union>
        {pfx @ s |s. hasWord n s \<and> xi + 1 \<le> length x \<and> edits + 1 + lev (drop (xi + 1) x) s < maxDist})"
      if w: "w = pfx @ s" and h: "hasWord n s" and xl: "xi \<le> length x" and lt: "edits + lev (drop xi x) s < maxDist" for w s
    proof (cases s)
      case Nil
      then show ?thesis using w h xl lt by (auto simp: lev_at_def)
    next
      case (Cons c s')
      then obtain m where m: "(c, m) \<in> set (children n)" "hasWord m s'"
        using h by (auto split: option.splits dest: map_of_SomeD)
      show ?thesis
      proof (cases "xi = length x")
        case True
        then have "edits + 1 + lev (drop xi x) s' < maxDist" using lt Cons by simp
        then show ?thesis using m w xl Cons by blast
      next
        case False
        then have i: "xi < length x" using xl by simp
        have "edits + (if x ! xi = c then 0 else 1) + lev (drop (xi + 1) x) s' < maxDist \<or>
            edits + 1 + lev (drop xi x) s' < maxDist \<or> edits + 1 + lev (drop (xi + 1) x) s < maxDist"
          using lt Cons by (auto simp: Cons_nth_drop_Suc [OF i, symmetric] min_def split: if_splits)
        then show ?thesis using m w h xl i Cons by auto
      qed
    qed
    have "{w. w = pfx \<and> terminal n} \<subseteq> {pfx @ s |s. hasWord n s}"
      using exI [of "\<lambda>s. pfx = pfx @ s \<and> hasWord n s" "[]"] by auto
    moreover have "{pfx @ c # s |c m s. (c, m) \<in> set (children n) \<and> hasWord m s} \<subseteq> {pfx @ s |s. hasWord n s}"
      using sub by blast
    ultimately have s: "{w. w = pfx \<and> terminal n} \<union>
        ({pfx @ c # s |c m s. (c, m) \<in> set (children n) \<and> hasWord m s} \<union> {pfx @ s |s. hasWord n s}) \<subseteq> {pfx @ s |s. hasWord n s}"
      by blast
    show ?thesis unfolding eq by (rule finds_weaken [OF f], assumption, rule s, rule subsetI, elim CollectE exE conjE, rule found)
  qed
next
  case (2 pfx x xi edits maxDist st)
  then show ?case by (simp add: finds_refl)
next
  case (3 pfx x xi edits maxDist c n ch st)
  have ch: "pt_ok m" if "(d, m) \<in> set ch" for d m using 3(4) that by auto
  have n: "pt_ok n" using 3(4) by auto
  let ?e = "if x ! xi = c then edits else edits + 1"
  let ?S = "{(pfx @ [c]) @ s |s. hasWord n s}"
  let ?st1 = "if xi < length x then findRankedMatches (pfx @ [c]) x (xi + 1) ?e maxDist n st else st"
  have f1: "finds x maxDist ?S {(pfx @ [c]) @ s |s. hasWord n s \<and> xi < length x \<and> ?e + lev (drop (xi + 1) x) s < maxDist} st ?st1"
  proof (cases "xi < length x")
    case True
    note f = 3(1) [OF True n within_step(1) [OF 3(6) True] 3(7)]
    show ?thesis using finds_weaken [OF f order.refl] True by (simp add: Collect_mono)
  next
    case False
    then show ?thesis using finds_refl [of x maxDist ?S st] by simp
  qed
  note f = finds_comp [OF f1 finds_comp [OF 3(2) [OF n within_step(2) [OF 3(6)] 3(7)] 3(3) [OF ch 3(5-7)]]]
  show ?case unfolding findInChildren.simps
    by (rule finds_weaken [OF f], assumption) (fastforce, fastforce split: if_splits)
qed

lemma rankedMatches_spec:
  assumes "length x + maxDist < 2 ^ 64"
  shows "(\<forall>(k, s) \<in> ranks (rankedMatches ss x maxDist). lev x s \<le> k \<and> k < maxDist)"
    "distinct (concat (map snd (rankedMatches ss x maxDist)))"
    "set (concat (map snd (rankedMatches ss x maxDist))) = {w \<in> set ss. lev x w < maxDist}"
proof -
  let ?n = "prefixTree ss"
  have w: "within x maxDist [] 0 0" by (simp add: within_def lev_at_def)
  note f = search_finds(1) [OF conjunct1 [OF prefixTree_words [of ss]] w assms, of "([], {})"]
  have "reported x maxDist ([], {})" by (simp add: reported_def ranks_def)
  then have r: "reported x maxDist (findRankedMatches [] x 0 0 maxDist ?n ([], {}))"
    using f by (simp add: finds_def)
  then show "(\<forall>(k, s) \<in> ranks (rankedMatches ss x maxDist). lev x s \<le> k \<and> k < maxDist)"
    "distinct (concat (map snd (rankedMatches ss x maxDist)))" by (simp_all add: reported_def rankedMatches_def)
  have s: "snd (findRankedMatches [] x 0 0 maxDist ?n ([], {})) = set (concat (map snd (rankedMatches ss x maxDist)))"
    using r by (simp add: reported_def rankedMatches_def ranks_words)
  have "set (concat (map snd (rankedMatches ss x maxDist))) \<subseteq> set ss"
    using f prefixTree_words [of ss] unfolding finds_def s by auto
  moreover have "{w \<in> set ss. lev x w < maxDist} \<subseteq> set (concat (map snd (rankedMatches ss x maxDist)))"
    using f prefixTree_words [of ss] unfolding finds_def s by auto
  moreover have "lev x w < maxDist" if "w \<in> set (concat (map snd (rankedMatches ss x maxDist)))" for w
  proof -
    have "w \<in> snd ` ranks (rankedMatches ss x maxDist)" using that by (simp only: ranks_words)
    then obtain k where "(k, w) \<in> ranks (rankedMatches ss x maxDist)" by auto
    then show ?thesis using r by (auto simp: reported_def rankedMatches_def)
  qed
  ultimately show "set (concat (map snd (rankedMatches ss x maxDist))) = {w \<in> set ss. lev x w < maxDist}" by blast
qed



text \<open>
  The distance that \<open>editDistance\<close> computes is not always the least one, because a node of the
  tree keeps the rank with which it is reached first.
\<close>

theorem editDistance_not_least: "editDistance ''abc'' ''bc'' = 2 \<and> lev ''abc'' ''bc'' = 1"
proof -
  have "prefixTree [''bc''] = PtNode [(CHR ''b'', PtNode [(CHR ''c'', PtNode [] True)] False)] False"
    by (simp add: prefixTree_def)
  moreover have "findRankedMatches [] ''abc'' 0 0 3 (PtNode [(CHR ''b'', PtNode [(CHR ''c'', PtNode [] True)] False)] False)
      ([], {}) = ([(2, [''bc''])], {''bc''})"
    by (simp add: findRankedMatches.simps reportMatch_def tedits_def)
  ultimately have "rankedMatches [''bc''] ''abc'' 3 = [(2, [''bc''])]" by (simp only: rankedMatches_def fst_conv)
  moreover have "max (length ''abc'') (length ''bc'') = 3" by simp
  ultimately have "editDistance ''abc'' ''bc'' = 2" by (simp only: editDistance_def Let_def) simp
  then show ?thesis by simp
qed

end
