(* ===== verification/Strings.thy ===== *)
theory Strings
  imports Hobbes_Prelude "HOL-Library.Sublist"
begin

text \<open>
  The string functions of \<^verbatim>\<open>lib/hobbes/util/str.C\<close> and \<^verbatim>\<open>include/hobbes/util/str.H\<close>: searching and
  splitting, escaping, hexadecimal digits, trimming, alignment of tables and the expansion of
  variables in a string. A position in a string is the part of the string that is left; \<open>None\<close>
  stands for reading outside a string, or for a loop that does not end.
\<close>

section \<open>Searching and splitting\<close>

text \<open>\<open>std::string::find\<close> and \<open>std::string::rfind\<close>.\<close>

fun findSub :: "string \<Rightarrow> string \<Rightarrow> nat option" where
  "findSub pat [] = (if pat = [] then Some 0 else None)"
| "findSub pat (c # s) = (if prefix pat (c # s) then Some 0 else map_option Suc (findSub pat s))"

fun rfindSub :: "string \<Rightarrow> string \<Rightarrow> nat option" where
  "rfindSub pat [] = (if pat = [] then Some 0 else None)"
| "rfindSub pat (c # s) =
     (case rfindSub pat s of Some n \<Rightarrow> Some (n + 1) | None \<Rightarrow> if prefix pat (c # s) then Some 0 else None)"

definition splitAt :: "string \<Rightarrow> nat \<Rightarrow> string \<times> string" where
  "splitAt s i = (if length s \<le> i then (s, []) else (take i s, drop i s))"

definition lsplit :: "string \<Rightarrow> string \<Rightarrow> string \<times> string" where
  "lsplit s ss = (case findSub ss s of None \<Rightarrow> (s, []) | Some p \<Rightarrow> (take p s, drop (p + length ss) s))"

definition rsplit :: "string \<Rightarrow> string \<Rightarrow> string \<times> string" where
  "rsplit s ss = (case rfindSub ss s of None \<Rightarrow> ([], s) | Some p \<Rightarrow> (take p s, drop (p + length ss) s))"

partial_function (option) csplit :: "string \<Rightarrow> string \<Rightarrow> string list option" where
  "csplit s pivot =
     (case findSub pivot s of
        None \<Rightarrow> Some [s]
      | Some n \<Rightarrow> Option.bind (csplit (drop (n + length pivot) s) pivot) (\<lambda>r. Some (take n s # r)))"

definition cdelim :: "string list \<Rightarrow> string \<Rightarrow> string" where
  "cdelim ss d = (if ss = [] then [] else hd ss @ concat (map (\<lambda>s. d @ s) (tl ss)))"

partial_function (option) replaceLoop :: "string \<Rightarrow> string \<Rightarrow> string \<Rightarrow> string option" where
  "replaceLoop src old new =
     (case findSub old src of
        None \<Rightarrow> Some src
      | Some n \<Rightarrow> Option.bind (replaceLoop (drop (n + length old) src) old new) (\<lambda>r. Some (take n src @ new @ r)))"

definition strReplace :: "string \<Rightarrow> string \<Rightarrow> string \<Rightarrow> string option" where
  "strReplace src old new = (if old = [] then Some src else replaceLoop src old new)"

definition firstFailIndex :: "(char \<Rightarrow> bool) \<Rightarrow> string \<Rightarrow> nat" where
  "firstFailIndex P s = length (takeWhile P s)"

definition readWhile :: "(char \<Rightarrow> bool) \<Rightarrow> string \<Rightarrow> string \<times> string" where
  "readWhile P s = splitAt s (firstFailIndex P s)"

definition isDigit :: "char \<Rightarrow> bool" where
  "isDigit c \<longleftrightarrow> 48 \<le> (of_char c :: nat) \<and> (of_char c :: nat) \<le> 57"

definition endsWith :: "string \<Rightarrow> string \<Rightarrow> bool" where
  "endsWith s sfx \<longleftrightarrow> length sfx \<le> length s \<and> drop (length s - length sfx) s = sfx"

text \<open>
  \<open>x.size() - sfx.size()\<close> wraps when the suffix is longer than the string, and \<open>substr\<close> throws
  for a position past the end: \<open>None\<close>.
\<close>

definition mustEndWith :: "string \<Rightarrow> string \<Rightarrow> string option" where
  "mustEndWith x sfx =
     (if length sfx \<le> length x then Some (if drop (length x - length sfx) x = sfx then x else x @ sfx)
      else None)"

section \<open>Trimming\<close>

definition isSpaceOrNull :: "char \<Rightarrow> bool" where
  "isSpaceOrNull c \<longleftrightarrow> (of_char c :: nat) \<in> {0, 9, 10, 11, 12, 13, 32}"

definition trim :: "string \<Rightarrow> string" where
  "trim s =
     (if s = [] then s
      else let b = length (takeWhile isSpaceOrNull s);
               begin = (if b < length s then b else 0);
               end = length s - length (takeWhile isSpaceOrNull (rev s)) in
        if begin = end then [] else take (end - begin) (drop begin s))"

definition trimq :: "char \<Rightarrow> string \<Rightarrow> string" where
  "trimq q s =
     (if s = [] then s
      else if length s = 1 then if hd s = q then [] else s
      else let s' = (if last s = q then butlast s else s) in if hd s = q then tl s' else s')"

section \<open>Hexadecimal digits\<close>

definition isNyb :: "char \<Rightarrow> bool" where
  "isNyb c \<longleftrightarrow> (let x = (of_char c :: nat) in (97 \<le> x \<and> x \<le> 102) \<or> (65 \<le> x \<and> x \<le> 70) \<or> (48 \<le> x \<and> x \<le> 57))"

definition denyb :: "char \<Rightarrow> u8" where
  "denyb c =
     (let x = (of_char c :: nat) in
      if 97 \<le> x \<and> x \<le> 102 then of_nat (10 + (x - 97))
      else if 65 \<le> x \<and> x \<le> 70 then of_nat (10 + (x - 65))
      else if 48 \<le> x \<and> x \<le> 57 then of_nat (x - 48)
      else 0)"

definition hexByte :: "char \<Rightarrow> char \<Rightarrow> u8" where
  "hexByte a b = or (push_bit 4 (denyb a)) (denyb b)"

definition dehex :: "string \<Rightarrow> u8" where
  "dehex x =
     (if length x = 4 \<and> x ! 0 = CHR ''0'' \<and> (x ! 1 = CHR ''x'' \<or> x ! 1 = CHR ''X'') then hexByte (x ! 2) (x ! 3)
      else if length x = 2 then hexByte (x ! 0) (x ! 1)
      else 0)"

text \<open>Reading the position after the last character of a \<open>const std::string\<close> gives the null character.\<close>

fun dehexsFrom :: "string \<Rightarrow> u8 list" where
  "dehexsFrom [] = []"
| "dehexsFrom [a] = [hexByte a (CHR 0x00)]"
| "dehexsFrom (a # b # x) = hexByte a b # dehexsFrom x"

definition dehexs :: "string \<Rightarrow> u8 list" where
  "dehexs x =
     (if 2 < length x \<and> x ! 0 = CHR ''0'' \<and> (x ! 1 = CHR ''X'' \<or> x ! 1 = CHR ''x'') then dehexsFrom (drop 2 x)
      else dehexsFrom x)"

definition nyb :: "u8 \<Rightarrow> char" where
  "nyb x = ''0123456789abcdef'' ! (unat x mod 16)"

definition hexOf :: "u8 \<Rightarrow> string" where
  "hexOf x = [nyb (drop_bit 4 x), nyb (and x 0x0F)]"

definition hexs :: "u8 list \<Rightarrow> string" where
  "hexs cs = ''0x'' @ concat (map hexOf cs)"

section \<open>Escaping\<close>

definition escapeChar :: "char \<Rightarrow> string" where
  "escapeChar c =
     (if c = CHR 0x22 then [CHR 0x5C, CHR 0x22]
      else if c = CHR 0x27 then [CHR 0x5C, CHR 0x27]
      else if c = CHR 0x0A then [CHR 0x5C, CHR ''n'']
      else if c = CHR 0x09 then [CHR 0x5C, CHR ''t'']
      else if c = CHR 0x0D then [CHR 0x5C, CHR ''r'']
      else if c = CHR 0x5C then [CHR 0x5C, CHR 0x5C]
      else if c = CHR 0x00 then [CHR 0x5C, CHR ''0'']
      else [c])"

definition escape :: "string \<Rightarrow> string" where
  "escape cs = concat (map escapeChar cs)"

text \<open>
  After \<open>\x\<close> the iterator is advanced twice without a test for the end of the string: with less
  than two characters left it passes the end and the loop goes on outside the string.
\<close>

fun unescapeFrom :: "bool \<Rightarrow> string \<Rightarrow> string option" where
  "unescapeFrom esc [] = Some []"
| "unescapeFrom False (c # cs) =
     (if c = CHR 0x5C then unescapeFrom True cs else map_option (Cons c) (unescapeFrom False cs))"
| "unescapeFrom True (c # cs) =
     (if c = CHR ''n'' then map_option (Cons (CHR 0x0A)) (unescapeFrom False cs)
      else if c = CHR ''t'' then map_option (Cons (CHR 0x09)) (unescapeFrom False cs)
      else if c = CHR ''r'' then map_option (Cons (CHR 0x0D)) (unescapeFrom False cs)
      else if c = CHR ''0'' then map_option (Cons (CHR 0x00)) (unescapeFrom False cs)
      else if c = CHR ''x'' then
        (case cs of
           b1 # b2 # cs' \<Rightarrow>
             map_option (Cons (char_of (unat (push_bit 4 (denyb b1) + denyb b2)))) (unescapeFrom False cs')
         | _ \<Rightarrow> None)
      else map_option (Cons c) (unescapeFrom False cs))"

definition unescape :: "string \<Rightarrow> string option" where
  "unescape cs = unescapeFrom False cs"

definition readCharDef :: "string \<Rightarrow> char" where
  "readCharDef x =
     (if x = [] then CHR 0x00
      else if hd x \<noteq> CHR 0x27 then hd x
      else if 2 < length x \<and> x ! 1 = CHR 0x5C then
        (let c = x ! 2 in
         if c = CHR ''0'' then CHR 0x00 else if c = CHR ''r'' then CHR 0x0D else if c = CHR ''n'' then CHR 0x0A
         else if c = CHR ''t'' then CHR 0x09 else c)
      else if 1 < length x then x ! 1 else CHR 0x00)"

section \<open>Tables\<close>

definition maxStrLen :: "string list \<Rightarrow> nat" where
  "maxStrLen col = foldl (\<lambda>r s. max r (length s)) 0 col"

definition pad :: "nat \<Rightarrow> string" where
  "pad n = replicate n (CHR 0x20)"

definition leftAlign :: "nat \<Rightarrow> string \<Rightarrow> string" where
  "leftAlign w x = (if w \<le> length x then x else x @ pad (w - length x))"

definition rightAlign :: "nat \<Rightarrow> string \<Rightarrow> string" where
  "rightAlign w x = (if w \<le> length x then x else pad (w - length x) @ x)"

definition leftAlignCol :: "string list \<Rightarrow> string list" where
  "leftAlignCol col = map (leftAlign (maxStrLen col)) col"

definition rightAlignCol :: "string list \<Rightarrow> string list" where
  "rightAlignCol col = map (rightAlign (maxStrLen col)) col"

definition leftAlignTbl :: "string list list \<Rightarrow> string list list" where
  "leftAlignTbl tbl = (if tbl = [] then [] else map leftAlignCol (butlast tbl) @ [last tbl])"

definition rightAlignTbl :: "string list list \<Rightarrow> string list list" where
  "rightAlignTbl tbl = map rightAlignCol tbl"

definition validTable :: "string list list \<Rightarrow> bool" where
  "validTable tbl \<longleftrightarrow> tbl \<noteq> [] \<and> list_all (\<lambda>c. length (hd tbl) \<le> length c) (tl tbl)"

definition tableRow :: "string list list \<Rightarrow> nat \<Rightarrow> string" where
  "tableRow tbl r = concat (map (\<lambda>c. c ! r @ '' '') tbl)"

text \<open>The header of a valid table is read even when its first column is empty.\<close>

definition showAlignedTable :: "string list list \<Rightarrow> string option" where
  "showAlignedTable tbl =
     (if \<not> validTable tbl then Some []
      else if list_ex (\<lambda>c. c = []) tbl then None
      else Some (tableRow tbl 0 @ [CHR 0x0A] @
        concat (map (\<lambda>c. replicate (length (c ! 0)) (CHR ''-'') @ '' '') (butlast tbl)) @
        replicate (maxStrLen (last tbl)) (CHR ''-'') @ '' '' @ [CHR 0x0A] @
        concat (map (\<lambda>r. tableRow tbl r @ [CHR 0x0A]) [1..<length (hd tbl)])))"

definition showHeadlessAlignedTable :: "string list list \<Rightarrow> string" where
  "showHeadlessAlignedTable tbl =
     (if \<not> validTable tbl then []
      else concat (map (\<lambda>r. (if 0 < r then [CHR 0x0A] else []) @ tableRow tbl r) [0..<length (hd tbl)]))"

definition showLeftAlignedTable :: "string list list \<Rightarrow> string option" where
  "showLeftAlignedTable tbl = showAlignedTable (leftAlignTbl tbl)"

definition showRightAlignedTable :: "string list list \<Rightarrow> string option" where
  "showRightAlignedTable tbl = showAlignedTable (rightAlignTbl tbl)"

section \<open>Expanding variables\<close>

text \<open>
  \<open>foldWithFormat\<close> is a state machine: 0 plain text, 1 after a backslash, 2 after a dollar sign,
  3 in a short variable name, 4 in a name in braces, with the number of open braces. In state 3 a
  character that ends the name is read again in state 0.
\<close>

datatype fmt_state = Plain | Unesc | Dollar | ShortVar | Braced nat

definition isAlnum :: "char \<Rightarrow> bool" where
  "isAlnum c \<longleftrightarrow> (let x = (of_char c :: nat) in
     (48 \<le> x \<and> x \<le> 57) \<or> (65 \<le> x \<and> x \<le> 90) \<or> (97 \<le> x \<and> x \<le> 122))"

fun foldFormat :: "('s \<Rightarrow> string \<Rightarrow> 's) \<Rightarrow> ('s \<Rightarrow> string \<Rightarrow> 's) \<Rightarrow> fmt_state \<Rightarrow> string \<Rightarrow> 's \<Rightarrow> string \<Rightarrow> 's" where
  "foldFormat cf ef x b r [] =
     (case x of ShortVar \<Rightarrow> ef r b | Braced n \<Rightarrow> r | _ \<Rightarrow> cf r b)"
| "foldFormat cf ef Plain b r (c # cs) =
     (if c = CHR 0x5C then foldFormat cf ef Unesc b r cs
      else if c = CHR ''$'' then foldFormat cf ef Dollar [] (cf r b) cs
      else foldFormat cf ef Plain (b @ [c]) r cs)"
| "foldFormat cf ef Unesc b r (c # cs) = foldFormat cf ef Plain (b @ [c]) r cs"
| "foldFormat cf ef Dollar b r (c # cs) =
     (if c \<noteq> CHR 0x7B then foldFormat cf ef ShortVar (b @ [c]) r cs else foldFormat cf ef (Braced 1) b r cs)"
| "foldFormat cf ef ShortVar b r (c # cs) =
     (if isAlnum c \<or> c = CHR ''_'' then foldFormat cf ef ShortVar (b @ [c]) r cs
      else if c = CHR 0x5C then foldFormat cf ef Unesc [] (ef r b) cs
      else if c = CHR ''$'' then foldFormat cf ef Dollar [] (cf (ef r b) []) cs
      else foldFormat cf ef Plain [c] (ef r b) cs)"
| "foldFormat cf ef (Braced n) b r (c # cs) =
     (if c = CHR 0x7D then
        if n = 1 then foldFormat cf ef Plain [] (ef r b) cs
        else foldFormat cf ef (Braced (n - 1)) (b @ [c]) r cs
      else if c = CHR 0x7B then foldFormat cf ef (Braced (n + 1)) (b @ [c]) r cs
      else foldFormat cf ef (Braced n) (b @ [c]) r cs)"

definition foldWithFormat :: "string \<Rightarrow> 's \<Rightarrow> ('s \<Rightarrow> string \<Rightarrow> 's) \<Rightarrow> ('s \<Rightarrow> string \<Rightarrow> 's) \<Rightarrow> 's" where
  "foldWithFormat str s cf ef = foldFormat cf ef Plain [] s str"

definition expandVars :: "(string \<Rightarrow> string) \<Rightarrow> string \<Rightarrow> string" where
  "expandVars env x = foldWithFormat x [] (\<lambda>l r. l @ r) (\<lambda>l v. l @ env v)"

section \<open>Ranges of characters\<close>

text \<open>The loop variable is a \<open>char\<close>, which is signed: adding one to the largest gives the smallest.\<close>

partial_function (option) charsUp :: "u8 \<Rightarrow> u8 \<Rightarrow> u8 list option" where
  "charsUp c high =
     (if sint c \<le> sint high then Option.bind (charsUp (c + 1) high) (\<lambda>r. Some (c # r)) else Some [])"

partial_function (option) charsDown :: "u8 \<Rightarrow> u8 \<Rightarrow> u8 list option" where
  "charsDown c high =
     (if sint high \<le> sint c then Option.bind (charsDown (c - 1) high) (\<lambda>r. Some (c # r)) else Some [])"

definition charRangeStr :: "u8 \<Rightarrow> u8 \<Rightarrow> u8 list option" where
  "charRangeStr low high = (if sint low < sint high then charsUp low high else charsDown low high)"

section \<open>Splitting and joining\<close>

lemma findSub_prefix: "findSub p s = Some n \<Longrightarrow> prefix p (drop n s) \<and> n \<le> length s"
  by (induction p s arbitrary: n rule: findSub.induct) (auto split: if_splits)

lemma findSub_first: "findSub p s = Some n \<Longrightarrow> m < n \<Longrightarrow> \<not> prefix p (drop m s)"
proof (induction p s arbitrary: n m rule: findSub.induct)
  case (2 p c s)
  then show ?case by (cases m) (auto split: if_splits)
qed (auto split: if_splits)

lemma findSub_None: "findSub p s = None \<Longrightarrow> m \<le> length s \<Longrightarrow> \<not> prefix p (drop m s)"
proof (induction p s arbitrary: m rule: findSub.induct)
  case (2 p c s)
  then show ?case by (cases m) (auto split: if_splits)
qed (auto split: if_splits)

lemma findSub_split: "findSub p s = Some n \<Longrightarrow> s = take n s @ p @ drop (n + length p) s"
  using findSub_prefix [of p s n] by (auto simp: prefix_def) (metis append_take_drop_id drop_drop append_eq_conv_conj add.commute)

lemma findSub_shorter: "findSub p s = Some n \<Longrightarrow> p \<noteq> [] \<Longrightarrow> length (drop (n + length p) s) < length s"
  using findSub_prefix [of p s n] by (cases s; cases p) auto

lemma cdelim_Cons: "ss \<noteq> [] \<Longrightarrow> cdelim (s # ss) d = s @ d @ cdelim ss d"
  by (cases ss) (simp_all add: cdelim_def)

lemma csplit_ends: "p \<noteq> [] \<Longrightarrow> \<exists>ss. csplit s p = Some ss \<and> ss \<noteq> []"
proof (induction "length s" arbitrary: s rule: less_induct)
  case less
  show ?case
  proof (cases "findSub p s")
    case None
    then show ?thesis by (subst csplit.simps) simp
  next
    case (Some n)
    have "length (drop (n + length p) s) < length s" by (rule findSub_shorter [OF Some less.prems])
    then obtain ss where "csplit (drop (n + length p) s) p = Some ss" using less by blast
    then show ?thesis using Some by (subst csplit.simps) simp
  qed
qed

lemma not_sublist_take:
  assumes "findSub p s = Some n" "p \<noteq> []"
  shows "\<not> sublist p (take n s)"
proof
  assume "sublist p (take n s)"
  then obtain u v where uv: "take n s = u @ p @ v" by (auto simp: sublist_def)
  then have "s = u @ p @ v @ drop n s" by (metis append.assoc append_take_drop_id)
  then have "prefix p (drop (length u) s)" by (metis append_eq_conv_conj prefixI)
  moreover have "length u < n"
  proof -
    have "length (u @ p @ v) \<le> n" unfolding uv [symmetric] by simp
    then show ?thesis using assms(2) by (cases p) simp_all
  qed
  ultimately show False using findSub_first [OF assms(1)] by blast
qed

lemma not_sublist_None: "findSub p s = None \<Longrightarrow> \<not> sublist p s"
proof
  assume "findSub p s = None" "sublist p s"
  then obtain u v where uv: "s = u @ p @ v" by (auto simp: sublist_def)
  then have "prefix p (drop (length u) s)" by simp
  then show False using findSub_None [OF \<open>findSub p s = None\<close>, of "length u"] uv by simp
qed

lemma csplit_pieces:
  "csplit s p = Some ss \<Longrightarrow> p \<noteq> [] \<and> ss \<noteq> [] \<and> cdelim ss p = s \<and> (\<forall>x \<in> set ss. \<not> sublist p x)"
proof (induction rule: csplit.raw_induct [rotated, consumes 1])
  case (1 rec s p ss)
  show ?case
  proof (cases "findSub p s")
    case None
    then have "p \<noteq> []" by (cases s) auto
    then show ?thesis using 1(2) None not_sublist_None [OF None] by (auto simp: cdelim_def)
  next
    case (Some n)
    then obtain r where r: "rec (drop (n + length p) s) p = Some r" "ss = take n s # r"
      using 1(2) by (auto split: Option.bind_splits)
    note ih = 1(1) [OF r(1)]
    then have "cdelim ss p = take n s @ p @ drop (n + length p) s" by (simp add: r cdelim_Cons)
    then show ?thesis using ih r findSub_split [OF Some] not_sublist_take [OF Some] by auto
  qed
qed

lemma csplit_empty_pivot: "csplit s [] = None"
  using csplit_pieces [of s "[]"] by (cases "csplit s []") auto

lemma replaceLoop_split:
  assumes "old \<noteq> []"
  shows "replaceLoop s old new = map_option (\<lambda>ss. cdelim ss new) (csplit s old)"
proof (induction "length s" arbitrary: s rule: less_induct)
  case less
  show ?case
  proof (cases "findSub old s")
    case None
    then show ?thesis by (subst csplit.simps, subst replaceLoop.simps) (simp add: cdelim_def)
  next
    case (Some n)
    let ?r = "drop (n + length old) s"
    have "length ?r < length s" by (rule findSub_shorter [OF Some assms])
    then have "replaceLoop ?r old new = map_option (\<lambda>ss. cdelim ss new) (csplit ?r old)" by (rule less)
    moreover obtain ss where "csplit ?r old = Some ss" "ss \<noteq> []" using csplit_ends [OF assms] by blast
    ultimately show ?thesis using Some by (subst csplit.simps, subst replaceLoop.simps) (simp add: cdelim_Cons)
  qed
qed

text \<open>
  C33. Splitting at a separator returns pieces without the separator that joined with it give the
  string back, and replacing a part of a string is splitting at it and joining with the
  replacement. Splitting at the empty string does not end.
\<close>

theorem csplit_cdelim:
  "(case csplit s p of
      None \<Rightarrow> p = []
    | Some ss \<Rightarrow> p \<noteq> [] \<and> cdelim ss p = s \<and> list_all (\<lambda>x. \<not> sublist p x) ss \<and> strReplace s p new = Some (cdelim ss new))"
proof (cases "csplit s p")
  case None
  then show ?thesis using csplit_ends [of p s] by auto
next
  case (Some ss)
  then show ?thesis using csplit_pieces [OF Some] by (simp add: list_all_iff strReplace_def replaceLoop_split)
qed

section \<open>Escaping\<close>

lemma unescape_escapeChar: "unescapeFrom False (escapeChar c @ s) = map_option (Cons c) (unescapeFrom False s)"
  by (auto simp: escapeChar_def)

text \<open>C34. Unescaping an escaped string gives the string back.\<close>

theorem unescape_escape: "unescape (escape s) = Some s"
  unfolding unescape_def escape_def by (induction s) (simp_all add: unescape_escapeChar)

text \<open>Two hexadecimal digits that are cut off make \<open>unescape\<close> read past the end of the string.\<close>

theorem unescape_cut_off: "unescape (escape s @ [CHR 0x5C, CHR ''x''] @ take 1 t) = None"
proof -
  have "unescapeFrom False (escape s @ r) = map_option (\<lambda>u. s @ u) (unescapeFrom False r)" for r
    unfolding escape_def
    by (induction s) (simp_all add: unescape_escapeChar option.map_comp comp_def option.map_ident)
  moreover have "unescapeFrom False ([CHR 0x5C, CHR ''x''] @ take 1 t) = None" by (cases t) simp_all
  ultimately show ?thesis by (simp add: unescape_def)
qed

section \<open>Hexadecimal digits\<close>

lemma denyb_nyb: "denyb (nyb x) = of_nat (unat x mod 16)"
proof -
  have "\<forall>n < 16. denyb (''0123456789abcdef'' ! n) = of_nat n" by code_simp
  then show ?thesis by (simp add: nyb_def)
qed

lemma hexByte_hexOf: "dehexsFrom (hexOf x @ s) = x # dehexsFrom s"
proof -
  have "hexByte (nyb (drop_bit 4 x)) (nyb (and x 0x0F)) = x"
  proof -
    have "unat (drop_bit 4 x) < 16" using unsigned_less [of x, where ?'a = nat] by (simp add: drop_bit_eq_div unat_div)
    moreover have "and x 15 = take_bit 4 x" by (simp add: take_bit_eq_mask mask_eq_exp_minus_1)
    moreover have "unat (take_bit 4 x) < 16" by (simp add: take_bit_eq_mod unat_mod)
    moreover have "or (push_bit 4 (drop_bit 4 x)) (take_bit 4 x) = x"
      by (rule bit_word_eqI) (auto simp: bit_or_iff bit_push_bit_iff bit_drop_bit_eq bit_take_bit_iff)
    ultimately show ?thesis by (simp add: hexByte_def denyb_nyb)
  qed
  then show ?thesis by (simp add: hexOf_def)
qed

text \<open>
  Reading back the hexadecimal form of bytes gives the bytes, except for no bytes at all: the
  prefix is taken for a digit then.
\<close>

theorem dehexs_hexs: "dehexs (hexs bs) = (if bs = [] then [0] else bs)"
proof (cases bs)
  case Nil
  then show ?thesis by (simp add: hexs_def dehexs_def hexByte_def denyb_def)
next
  case (Cons b bs')
  have "dehexsFrom (concat (map hexOf bs)) = bs" by (induction bs) (simp_all add: hexByte_hexOf)
  then show ?thesis using Cons by (simp add: hexs_def dehexs_def hexOf_def)
qed

end
