(* ===== verification/Type_Show.thy ===== *)
theory Type_Show
  imports Type_Vars Strings
begin

text \<open>
  Printing of types: \<open>MonoType::show\<close> and its variants for constraints, qualified types and
  polytypes in \<^verbatim>\<open>lib/hobbes/lang/type.C\<close>. The printed form is more than a message: type
  abstractions are compared by it, and expressions in types are told apart by it. The printer of
  expressions is a parameter.
\<close>

definition showInt :: "int \<Rightarrow> string" where
  "showInt i = (if i < 0 then ''-'' @ strFrom (nat (- i)) else strFrom (nat i))"

text \<open>Replacing a text that is not empty ends, so \<open>OutOfFuel\<close> does not occur here.\<close>

definition showOpaque :: "string \<Rightarrow> type_error + string" where
  "showOpaque nm =
     (case strReplace nm ''::'' ''.'' of None \<Rightarrow> Inl OutOfFuel | Some s \<Rightarrow> Inr (''<'' @ s @ ''>''))"

fun tupleText :: "bool \<Rightarrow> (string \<times> string) list \<Rightarrow> string" where
  "tupleText once [] = []"
| "tupleText once ((f, s) # r) =
     (if once then '' * '' else []) @
     (if 2 < length f \<and> f ! 1 \<noteq> CHR ''p'' then s @ tupleText True r else tupleText once r)"

definition showAsTuple :: "(string \<times> string) list \<Rightarrow> string" where
  "showAsTuple fs = ''('' @ tupleText False fs @ '')''"

definition showAsRecord :: "(string \<times> string) list \<Rightarrow> string" where
  "showAsRecord fs =
     (if fs = [] then ''{}'' else ''{ '' @ cdelim (map (\<lambda>(f, s). f @ '':'' @ s) fs) '', '' @ '' }'')"

definition isUnitPrim :: "'e mono_type \<Rightarrow> bool" where
  "isUnitPrim t = (case t of Prim nm rep \<Rightarrow> nm = ''unit'' | _ \<Rightarrow> False)"

definition showFullVarPayloadSuffix :: "'e mono_type \<Rightarrow> string \<Rightarrow> string" where
  "showFullVarPayloadSuffix t s = (if isUnitPrim t then [] else '':'' @ s)"

definition showSum :: "string list \<Rightarrow> string" where
  "showSum ss = ''('' @ cdelim ss '' + '' @ '')''"

definition showFull :: "'e members \<Rightarrow> string list \<Rightarrow> string" where
  "showFull ms ss =
     ''|'' @ cdelim (map2 (\<lambda>m s. mlabel m @ showFullVarPayloadSuffix (mtype m) s) ms ss) '', '' @ ''|''"

lemma drop_member_size [termination_simp]: "m \<in> set (drop n ms) \<Longrightarrow> size (mtype m) < Suc (size_list (size_member size) ms)"
  by (rule member_size) (rule in_set_dropD)

lemma take_size [termination_simp]: "x \<in> set (take n xs) \<Longrightarrow> f x < Suc (size_list f xs + a)"
  using size_list_estimation' [of x xs "f x" f] by (auto dest: in_set_takeD intro: le_imp_less_Suc trans_le_add1)

text \<open>
  \<open>showF se sh t\<close> is \<open>t->show(out)\<close>. The body of a type abstraction goes through \<open>hobbes::show\<close>,
  which renames variables first: \<open>sh\<close>. A file reference without arguments is read outside its
  bounds.
\<close>

fun showF :: "('e \<Rightarrow> string) \<Rightarrow> ('e mono_type \<Rightarrow> type_error + string) \<Rightarrow> 'e mono_type \<Rightarrow> type_error + string" where
  "showF se sh (Prim nm rep) = Inr (if nm = ''unit'' then ''()'' else nm)"
| "showF se sh (OpaquePtr nm sz c) = showOpaque nm"
| "showF se sh (TVar n) = Inr n"
| "showF se sh (TGen x) = Inr (''#'' @ showInt (sint x))"
| "showF se sh (TAbs ns b) =
     mapR (\<lambda>s. [CHR 0x5C] @ (if ns = [] then ''()'' else cdelim ns '' '') @ ''.'' @ s) (sh b)"
| "showF se sh (TApp f args) =
     (if (case f of Prim nm rep \<Rightarrow> nm = ''fileref'' | _ \<Rightarrow> False) then
        (if args = [] then Inl TGenOutOfRange
         else bindE (mapE (showF se sh) (take 2 args)) (\<lambda>ss.
           Inr (hd ss @ ''@'' @ (if length args = 1 then ''?'' else if length args = 2 then ss ! 1 else []))))
      else bindE (showF se sh f) (\<lambda>s.
        mapR (\<lambda>ss. ''('' @ s @ concat (map (\<lambda>a. '' '' @ a) ss) @ '')'') (mapE (showF se sh) args)))"
| "showF se sh (FixedArray ty len) =
     bindE (showF se sh (arrType ty)) (\<lambda>s. mapR (\<lambda>l. ''[:'' @ s @ ''|'' @ l @ '':]'') (showF se sh len))"
| "showF se sh (Array ty) = mapR (\<lambda>s. ''['' @ s @ '']'') (showF se sh (arrType ty))"
| "showF se sh (Variant ms) =
     mapR (if looksLikeSum ms then showSum else showFull (drop (nextVisibleCtor ms) ms))
       (mapE (\<lambda>m. showF se sh (mtype m)) (drop (nextVisibleCtor ms) ms))"
| "showF se sh (Record ms) =
     mapR (\<lambda>ss. if isTupleDesc ms then showAsTuple (zip (map mlabel ms) ss) else showAsRecord (zip (map mlabel ms) ss))
       (mapE (\<lambda>m. showF se sh (mtype m)) ms)"
| "showF se sh (Func a r) =
     bindE (showF se sh a) (\<lambda>s. mapR (\<lambda>s'. s @ '' -> '' @ s') (showF se sh r))"
| "showF se sh (Exists n b) = mapR (\<lambda>s. ''exists '' @ n @ ''.'' @ s) (showF se sh b)"
| "showF se sh (Recursive n b) = mapR (\<lambda>s. ''^'' @ n @ ''.'' @ s) (showF se sh b)"
| "showF se sh (TString x) = Inr ([CHR 0x27] @ x @ [CHR 0x27])"
| "showF se sh (TLong x) = Inr (showInt (sint x) @ ''L'')"
| "showF se sh (TExpr e) = Inr (se e)"

text \<open>
  \<open>hobbes::show\<close>: \<open>bt\<close> and \<open>k\<close> are those of the substitution that renames the variables, \<open>d\<close> bounds the
  nesting of type abstractions.
\<close>

fun showTy :: "'e beta \<Rightarrow> nat \<Rightarrow> ('e \<Rightarrow> string) \<Rightarrow> nat \<Rightarrow> 'e mono_type \<Rightarrow> type_error + string" where
  "showTy bt k se 0 t = Inl OutOfFuel"
| "showTy bt k se (Suc d) t = bindE (simplifyVarNames bt k t) (showF se (showTy bt k se d))"

text \<open>The constraints of constructors and fields have a syntax of their own.\<close>

definition showCF :: "('e mono_type \<Rightarrow> type_error + string) \<Rightarrow> 'e constraint \<Rightarrow> type_error + string" where
  "showCF sh c =
     (let mts = cargs c in
      if cat c = ''HasCtor'' \<and> 3 \<le> length mts then
        bindE (case mts ! 1 of TString lbl \<Rightarrow> Inr lbl | t \<Rightarrow> sh t) (\<lambda>l.
        bindE (sh (mts ! 2)) (\<lambda>p. mapR (\<lambda>v. ''|'' @ l @ '':'' @ p @ ''|::'' @ v) (sh (mts ! 0))))
      else if cat c = ''HasField'' \<and> 4 \<le> length mts then
        bindE (sh (mts ! 1)) (\<lambda>r.
        bindE (case mts ! 2 of TString lbl \<Rightarrow> Inr (''.'' @ lbl) | t \<Rightarrow> mapR (\<lambda>s. ''/'' @ s) (sh t)) (\<lambda>f.
        mapR (\<lambda>t. r @ f @ ''::'' @ t) (sh (mts ! 3))))
      else mapR (\<lambda>ss. cat c @ concat (map (\<lambda>s. '' '' @ s) ss)) (mapE sh mts))"

definition showQF :: "('e mono_type \<Rightarrow> type_error + string) \<Rightarrow> 'e qual_type \<Rightarrow> type_error + string" where
  "showQF sh qt =
     bindE (mapE (showCF sh) (qconstraints qt)) (\<lambda>cs. mapR (\<lambda>t.
       if cs = [] then t
       else if length cs = 1 then hd cs @ '' => '' @ t
       else ''('' @ cdelim cs '', '' @ '') => '' @ t) (sh (qmono qt)))"

definition showC :: "'e beta \<Rightarrow> nat \<Rightarrow> ('e \<Rightarrow> string) \<Rightarrow> nat \<Rightarrow> 'e constraint \<Rightarrow> type_error + string" where
  "showC bt k se d c = bindE (simplifyVarNamesC bt k c) (showCF (showF se (showTy bt k se d)))"

definition showQ :: "'e beta \<Rightarrow> nat \<Rightarrow> ('e \<Rightarrow> string) \<Rightarrow> nat \<Rightarrow> 'e qual_type \<Rightarrow> type_error + string" where
  "showQ bt k se d qt = bindE (simplifyVarNamesQ bt k qt) (showQF (showF se (showTy bt k se d)))"

definition showP :: "'e beta \<Rightarrow> nat \<Rightarrow> ('e \<Rightarrow> string) \<Rightarrow> nat \<Rightarrow> 'e poly_type \<Rightarrow> nat \<Rightarrow> (type_error + string) \<times> nat" where
  "showP bt k se d pt uid =
     (let (q, uid') = instantiateP bt pt uid in (bindE q (showQ bt k se d), uid'))"

end
