(* ===== verification/Type_Env.thy ===== *)
theory Type_Env
  imports Type_Vars "HOL-Library.AList"
begin

text \<open>
  Type environments and type predicates: \<open>TEnv\<close> of \<^verbatim>\<open>lib/hobbes/lang/type.C\<close>, the set of unqualifiers
  of \<^verbatim>\<open>lib/hobbes/lang/typepreds.C\<close> that its root holds, and the parts of a type class
  (\<^verbatim>\<open>lib/hobbes/lang/preds/class.C\<close>) that do not depend on its instances.

  A type environment points to its parent; the model is the chain of frames from the innermost
  one to the root, so that an operation that the code passes on to the root changes the last
  frame. An unqualifier is an object with virtual operations; here it is an element of a type
  \<open>'u\<close>, with a record of what can be asked of it, and the operations that test a constraint in an
  environment are function arguments. They may add definitions, which is the state \<open>'s\<close>.
\<close>

section \<open>Unqualifiers\<close>

type_synonym fun_dep = "int list \<times> int"

record ('u, 'e) uq_ops =
  uqLookup :: "'u \<Rightarrow> string \<Rightarrow> 'e poly_type option"
  uqBindings :: "'u \<Rightarrow> string set"
  uqDeps :: "'u \<Rightarrow> 'e constraint \<Rightarrow> fun_dep list"

datatype env_error = AlreadyDefined string | UndefinedVariable string | PredicateRedefined string
  | UndefinedPredicate string | AliasConflict string | NotAlias string | UndefinedMember string
  | ArgOutOfRange | NoRoot

type_synonym 'u unqualifiers = "(string \<times> 'u) list"

text \<open>A \<open>std::map\<close> keeps its entries in the order of their names.\<close>

fun insertNamed :: "string \<Rightarrow> 'u \<Rightarrow> 'u unqualifiers \<Rightarrow> 'u unqualifiers" where
  "insertNamed n u [] = [(n, u)]"
| "insertNamed n u ((m, v) # us) = (if n < m then (n, u) # (m, v) # us else (m, v) # insertNamed n u us)"

definition usAdd :: "string \<Rightarrow> 'u \<Rightarrow> 'u unqualifiers \<Rightarrow> env_error + 'u unqualifiers" where
  "usAdd name uq us = (if map_of us name \<noteq> None then Inl (PredicateRedefined name) else Inr (insertNamed name uq us))"

definition findUnqualifier :: "string \<Rightarrow> 'u unqualifiers \<Rightarrow> env_error + 'u" where
  "findUnqualifier name us = (case map_of us name of None \<Rightarrow> Inl (UndefinedPredicate name) | Some u \<Rightarrow> Inr u)"

definition usSatisfied :: "('u \<Rightarrow> 'c \<Rightarrow> 's \<Rightarrow> bool \<times> 's) \<Rightarrow> string \<Rightarrow> 'u unqualifiers \<Rightarrow> 'c \<Rightarrow> 's \<Rightarrow> bool \<times> 's" where
  "usSatisfied sat name us c ds = (case map_of us name of None \<Rightarrow> (False, ds) | Some u \<Rightarrow> sat u c ds)"

definition usDependencies :: "('u, 'e) uq_ops \<Rightarrow> 'u unqualifiers \<Rightarrow> 'e constraint \<Rightarrow> fun_dep list" where
  "usDependencies ops us c = (case map_of us (cat c) of None \<Rightarrow> [] | Some u \<Rightarrow> uqDeps ops u c)"

fun usLookup :: "('u, 'e) uq_ops \<Rightarrow> 'u unqualifiers \<Rightarrow> string \<Rightarrow> 'e poly_type option" where
  "usLookup ops [] vn = None"
| "usLookup ops ((n, u) # us) vn = (case uqLookup ops u vn of Some pt \<Rightarrow> Some pt | None \<Rightarrow> usLookup ops us vn)"

definition usBindings :: "('u, 'e) uq_ops \<Rightarrow> 'u unqualifiers \<Rightarrow> string set" where
  "usBindings ops us = (\<Union>(n, u) \<in> set us. uqBindings ops u)"

definition hasConstraint :: "'e constraint \<Rightarrow> 'e constraint list \<Rightarrow> bool" where
  "hasConstraint c cs = list_ex (constraintEq c) cs"

definition removeConstraint :: "'e constraint \<Rightarrow> 'e constraint list \<Rightarrow> 'e constraint list" where
  "removeConstraint c cs = filter (\<lambda>d. \<not> constraintEq c d) cs"

definition removeConstraintQ :: "'e constraint \<Rightarrow> 'e qual_type \<Rightarrow> 'e qual_type" where
  "removeConstraintQ c qt = qualtype (removeConstraint c (qconstraints qt)) (qmono qt)"

section \<open>Environments\<close>

record ('u, 'e) frame =
  ptenv :: "(string \<times> 'e poly_type) list"
  unquals :: "'u unqualifiers option"
  typeAliases :: "(string \<times> 'e mono_type) list"

type_synonym ('u, 'e) tenv = "('u, 'e) frame list"

definition tenvRoot :: "('u, 'e) tenv" where
  "tenvRoot = [\<lparr>ptenv = [], unquals = Some [], typeAliases = []\<rparr>]"

definition tenvNew :: "('u, 'e) tenv \<Rightarrow> ('u, 'e) tenv" where
  "tenvNew p = \<lparr>ptenv = [], unquals = None, typeAliases = []\<rparr> # p"

definition hasImmediateBinding :: "('u, 'e) uq_ops \<Rightarrow> string \<Rightarrow> ('u, 'e) frame \<Rightarrow> bool" where
  "hasImmediateBinding ops vn f \<longleftrightarrow> map_of (ptenv f) vn \<noteq> None \<or>
     (case unquals f of None \<Rightarrow> False | Some us \<Rightarrow> usLookup ops us vn \<noteq> None)"

definition hasBinding :: "('u, 'e) uq_ops \<Rightarrow> string \<Rightarrow> ('u, 'e) tenv \<Rightarrow> bool" where
  "hasBinding ops vn E = list_ex (hasImmediateBinding ops vn) E"

fun bindVar :: "('u, 'e) uq_ops \<Rightarrow> string \<Rightarrow> 'e poly_type \<Rightarrow> ('u, 'e) tenv \<Rightarrow> env_error + ('u, 'e) tenv" where
  "bindVar ops vn pt [] = Inl NoRoot"
| "bindVar ops vn pt (f # E) =
     (if hasImmediateBinding ops vn f then Inl (AlreadyDefined vn)
      else Inr (f\<lparr>ptenv := AList.update vn pt (ptenv f)\<rparr> # E))"

definition bindQ :: "('u, 'e) uq_ops \<Rightarrow> string \<Rightarrow> 'e qual_type \<Rightarrow> ('u, 'e) tenv \<Rightarrow> env_error + ('u, 'e) tenv" where
  "bindQ ops vn t = bindVar ops vn (polytype 0 t)"

definition bindM :: "('u, 'e) uq_ops \<Rightarrow> string \<Rightarrow> 'e mono_type \<Rightarrow> ('u, 'e) tenv \<Rightarrow> env_error + ('u, 'e) tenv" where
  "bindM ops vn t = bindVar ops vn (polytype 0 (qualtype [] t))"

fun unbind :: "string \<Rightarrow> ('u, 'e) tenv \<Rightarrow> ('u, 'e) tenv" where
  "unbind vn [] = []"
| "unbind vn (f # E) = f\<lparr>ptenv := AList.delete vn (ptenv f)\<rparr> # E"

text \<open>The error of a failed lookup also suggests names that are close; the model leaves that out.\<close>

fun lookupVar :: "('u, 'e) uq_ops \<Rightarrow> string \<Rightarrow> ('u, 'e) tenv \<Rightarrow> env_error + 'e poly_type" where
  "lookupVar ops vn [] = Inl NoRoot"
| "lookupVar ops vn (f # E) =
     (case map_of (ptenv f) vn of
        Some pt \<Rightarrow> Inr pt
      | None \<Rightarrow>
          if E \<noteq> [] then lookupVar ops vn E
          else (case unquals f of
                  None \<Rightarrow> Inl NoRoot
                | Some us \<Rightarrow> (case usLookup ops us vn of Some pt \<Rightarrow> Inr pt | None \<Rightarrow> Inl (UndefinedVariable vn))))"

fun bindPred :: "('u, 'e) uq_ops \<Rightarrow> string \<Rightarrow> 'u \<Rightarrow> ('u, 'e) tenv \<Rightarrow> env_error + ('u, 'e) tenv" where
  "bindPred ops pn uq [] = Inl NoRoot"
| "bindPred ops pn uq (f # E) =
     (if E \<noteq> [] then mapR (Cons f) (bindPred ops pn uq E)
      else (case List.find (\<lambda>vn. hasBinding ops vn [f]) (sorted_list_of_set (uqBindings ops uq)) of
              Some vn \<Rightarrow> Inl (AlreadyDefined vn)
            | None \<Rightarrow>
                (case unquals f of
                   None \<Rightarrow> Inl NoRoot
                 | Some us \<Rightarrow> mapR (\<lambda>us'. [f\<lparr>unquals := Some us'\<rparr>]) (usAdd pn uq us))))"

fun lookupUnqualifier :: "string \<Rightarrow> ('u, 'e) tenv \<Rightarrow> env_error + 'u" where
  "lookupUnqualifier pn [] = Inl NoRoot"
| "lookupUnqualifier pn (f # E) =
     (if E \<noteq> [] then lookupUnqualifier pn E
      else (case unquals f of None \<Rightarrow> Inl NoRoot | Some us \<Rightarrow> findUnqualifier pn us))"

definition lookupUnqualifierC :: "'e constraint \<Rightarrow> ('u, 'e) tenv \<Rightarrow> env_error + 'u" where
  "lookupUnqualifierC c = lookupUnqualifier (cat c)"

definition boundVariables :: "('u, 'e) uq_ops \<Rightarrow> ('u, 'e) tenv \<Rightarrow> string set" where
  "boundVariables ops E =
     (\<Union>f \<in> set E. (case unquals f of None \<Rightarrow> {} | Some us \<Rightarrow> usBindings ops us) \<union> fst ` set (ptenv f))"

definition tenvTop :: "('u, 'e) tenv \<Rightarrow> ('u, 'e) frame" where
  "tenvTop E = last E"

text \<open>The overloaded symbols are entered into the table of the root over its own variables.\<close>

definition typeEnvTable :: "('u, 'e) uq_ops \<Rightarrow> ('u, 'e) tenv \<Rightarrow> string \<rightharpoonup> 'e poly_type option" where
  "typeEnvTable ops E =
     (let f = tenvTop E; us = (case unquals f of None \<Rightarrow> [] | Some us \<Rightarrow> us) in
      (\<lambda>vn. if vn \<in> usBindings ops us then Some (usLookup ops us vn)
            else map_option Some (map_of (ptenv f) vn)))"

definition tenvUnqualifiers :: "('u, 'e) tenv \<Rightarrow> 'u unqualifiers option" where
  "tenvUnqualifiers E = unquals (tenvTop E)"

section \<open>Type aliases\<close>

fun bindAlias :: "string \<Rightarrow> 'e mono_type \<Rightarrow> ('u, 'e) tenv \<Rightarrow> env_error + ('u, 'e) tenv" where
  "bindAlias tn t [] = Inl NoRoot"
| "bindAlias tn t (f # E) =
     (if E \<noteq> [] then mapR (Cons f) (bindAlias tn t E)
      else (case map_of (typeAliases f) tn of
              Some t' \<Rightarrow> if t' = t then Inr [f] else Inl (AliasConflict tn)
            | None \<Rightarrow> Inr [f\<lparr>typeAliases := AList.update tn t (typeAliases f)\<rparr>]))"

fun unaliasName :: "string \<Rightarrow> ('u, 'e) tenv \<Rightarrow> env_error + 'e mono_type" where
  "unaliasName tn [] = Inl (NotAlias tn)"
| "unaliasName tn (f # E) =
     (case map_of (typeAliases f) tn of Some t \<Rightarrow> Inr t | None \<Rightarrow> unaliasName tn E)"

definition isOpaqueTypeAlias :: "string \<Rightarrow> ('u, 'e) tenv \<Rightarrow> bool" where
  "isOpaqueTypeAlias tn E = list_ex (\<lambda>f. map_of (typeAliases f) tn \<noteq> None) E"

section \<open>Frames for functions and bindings\<close>

definition fnFrame :: "('u, 'e) uq_ops \<Rightarrow> ('u, 'e) tenv \<Rightarrow> string list \<Rightarrow> 'e mono_type list \<Rightarrow> env_error + ('u, 'e) tenv" where
  "fnFrame ops p vs atys = foldE (\<lambda>(v, t). bindM ops v t) (zip vs atys) (tenvNew p)"

definition bindFrame :: "('u, 'e) uq_ops \<Rightarrow> ('u, 'e) tenv \<Rightarrow> string \<Rightarrow> 'e mono_type \<Rightarrow> env_error + ('u, 'e) tenv" where
  "bindFrame ops p vn vty = bindM ops vn vty (tenvNew p)"

definition bindFrameQ :: "('u, 'e) uq_ops \<Rightarrow> ('u, 'e) tenv \<Rightarrow> string \<Rightarrow> 'e qual_type \<Rightarrow> env_error + ('u, 'e) tenv" where
  "bindFrameQ ops p vn qty = bindQ ops vn qty (tenvNew p)"

section \<open>Testing constraints\<close>

text \<open>
  A constraint remembers that it is satisfied, or that it is not satisfiable; \<open>sat\<close> is asked only
  while that is open. The result holds the constraint with what it remembers.
\<close>

definition satisfiedBy ::
  "('u \<Rightarrow> ('u, 'e) tenv \<Rightarrow> 'e constraint \<Rightarrow> 's \<Rightarrow> bool \<times> 's) \<Rightarrow> 'u \<Rightarrow> ('u, 'e) tenv \<Rightarrow> 'e constraint \<Rightarrow> 's \<Rightarrow> bool \<times> 'e constraint \<times> 's" where
  "satisfiedBy sat uq E c ds =
     (case cstate c of
        Satisfied \<Rightarrow> (True, c, ds)
      | Unsatisfiable \<Rightarrow> (False, c, ds)
      | Unresolved \<Rightarrow> (let (b, ds') = sat uq E c ds in if b then (True, c\<lparr>cstate := Satisfied\<rparr>, ds') else (False, c, ds')))"

definition satisfiableBy ::
  "('u \<Rightarrow> ('u, 'e) tenv \<Rightarrow> 'e constraint \<Rightarrow> 's \<Rightarrow> bool \<times> 's) \<Rightarrow> 'u \<Rightarrow> ('u, 'e) tenv \<Rightarrow> 'e constraint \<Rightarrow> 's \<Rightarrow> bool \<times> 'e constraint \<times> 's" where
  "satisfiableBy sat uq E c ds =
     (case cstate c of
        Satisfied \<Rightarrow> (True, c, ds)
      | Unsatisfiable \<Rightarrow> (False, c, ds)
      | Unresolved \<Rightarrow> (let (b, ds') = sat uq E c ds in if b then (True, c, ds') else (False, c\<lparr>cstate := Unsatisfiable\<rparr>, ds')))"

definition satisfied ::
  "('u \<Rightarrow> ('u, 'e) tenv \<Rightarrow> 'e constraint \<Rightarrow> 's \<Rightarrow> bool \<times> 's) \<Rightarrow> ('u, 'e) tenv \<Rightarrow> 'e constraint \<Rightarrow> 's \<Rightarrow> env_error + bool \<times> 'e constraint \<times> 's" where
  "satisfied sat E c ds = mapR (\<lambda>uq. satisfiedBy sat uq E c ds) (lookupUnqualifierC c E)"

definition satisfiable ::
  "('u \<Rightarrow> ('u, 'e) tenv \<Rightarrow> 'e constraint \<Rightarrow> 's \<Rightarrow> bool \<times> 's) \<Rightarrow> ('u, 'e) tenv \<Rightarrow> 'e constraint \<Rightarrow> 's \<Rightarrow> env_error + bool \<times> 'e constraint \<times> 's" where
  "satisfiable sat E c ds = mapR (\<lambda>uq. satisfiableBy sat uq E c ds) (lookupUnqualifierC c E)"

text \<open>On a vector the test stops at the first constraint that fails; \<open>test\<close> is \<open>satisfied\<close> or \<open>satisfiable\<close>.\<close>

fun allConstraints ::
  "('e constraint \<Rightarrow> 's \<Rightarrow> env_error + bool \<times> 'e constraint \<times> 's) \<Rightarrow> 'e constraint list \<Rightarrow> 's \<Rightarrow> env_error + bool \<times> 'e constraint list \<times> 's" where
  "allConstraints test [] ds = Inr (True, [], ds)"
| "allConstraints test (c # cs) ds =
     bindE (test c ds) (\<lambda>(b, c', ds').
       if b then mapR (\<lambda>(b', cs', ds''). (b', c' # cs', ds'')) (allConstraints test cs ds')
       else Inr (False, c' # cs, ds'))"

definition satisfiedCs ::
  "('u \<Rightarrow> ('u, 'e) tenv \<Rightarrow> 'e constraint \<Rightarrow> 's \<Rightarrow> bool \<times> 's) \<Rightarrow> ('u, 'e) tenv \<Rightarrow> 'e constraint list \<Rightarrow> 's \<Rightarrow> env_error + bool \<times> 'e constraint list \<times> 's" where
  "satisfiedCs sat E = allConstraints (satisfied sat E)"

definition satisfiableCs ::
  "('u \<Rightarrow> ('u, 'e) tenv \<Rightarrow> 'e constraint \<Rightarrow> 's \<Rightarrow> bool \<times> 's) \<Rightarrow> ('u, 'e) tenv \<Rightarrow> 'e constraint list \<Rightarrow> 's \<Rightarrow> env_error + bool \<times> 'e constraint list \<times> 's" where
  "satisfiableCs sat E = allConstraints (satisfiable sat E)"

section \<open>Type classes\<close>

text \<open>
  The part of a class that its declaration fixes; the instances of \<open>TClass\<close> are not modelled.
  Indexing the arguments of a constraint outside their bounds is undefined; the model gives
  \<open>ArgOutOfRange\<close>.
\<close>

record 'e tclass =
  tcname :: string
  tcvars :: nat
  tcreqs :: "'e constraint list"
  tcmembers :: "(string \<times> 'e mono_type) list"
  tcfundeps :: "fun_dep list"

definition tclassLookup :: "'e tclass \<Rightarrow> string \<Rightarrow> 'e poly_type option" where
  "tclassLookup c vn =
     map_option (\<lambda>t. polytype (tcvars c) (qualtype [constraintMake (tcname c) (tgens (tcvars c))] t))
       (map_of (tcmembers c) vn)"

definition memberType :: "'e tclass \<Rightarrow> string \<Rightarrow> env_error + 'e mono_type" where
  "memberType c vn = (case map_of (tcmembers c) vn of Some t \<Rightarrow> Inr t | None \<Rightarrow> Inl (UndefinedMember vn))"

definition tclassBindings :: "'e tclass \<Rightarrow> string set" where
  "tclassBindings c = fst ` set (tcmembers c)"

definition tclassDependencies :: "'e tclass \<Rightarrow> 'e constraint \<Rightarrow> fun_dep list" where
  "tclassDependencies c cst = tcfundeps c"

definition isHiddenTCName :: "string \<Rightarrow> bool" where
  "isHiddenTCName n \<longleftrightarrow> n = [] \<or> hd n = CHR ''.''"

definition mergeFundeps :: "fun_dep list \<Rightarrow> fun_dep list \<Rightarrow> fun_dep list" where
  "mergeFundeps lhs rhs = foldl (\<lambda>r fd. if fd \<in> set r then r else r @ [fd]) lhs rhs"

definition argAt :: "'e constraint \<Rightarrow> int \<Rightarrow> env_error + 'e mono_type" where
  "argAt c i = (if 0 \<le> i \<and> nat i < length (cargs c) then Inr (cargs c ! nat i) else Inl ArgOutOfRange)"

definition includeFundep :: "'e constraint \<Rightarrow> fun_dep \<Rightarrow> fun_dep list \<Rightarrow> env_error + fun_dep list" where
  "includeFundep c fd out =
     bindE (foldE (\<lambda>i input. mapR (\<lambda>t. input \<union> tgenVars t) (argAt c i)) (fst fd) {}) (\<lambda>input.
     mapR (\<lambda>t.
       foldl (\<lambda>r x. if x \<in> input \<or> (sorted_list_of_set input, x) \<in> set r then r
                    else r @ [(sorted_list_of_set input, x)])
         out (sorted_list_of_set (tgenVars t)))
       (argAt c (snd fd)))"

definition inferFundeps :: "('u, 'e) uq_ops \<Rightarrow> ('u, 'e) tenv \<Rightarrow> 'e constraint list \<Rightarrow> env_error + fun_dep list" where
  "inferFundeps ops E cs =
     foldE (\<lambda>c r. bindE (lookupUnqualifierC c E) (\<lambda>uq. foldE (includeFundep c) (uqDeps ops uq c) r)) cs []"

text \<open>
  The unqualifiers of the program are its type classes and the built in predicates. A built in
  predicate has a fixed table of overloaded symbols, and its dependencies may look at the
  constraint.
\<close>

datatype 'e unqual =
    ClassUq "'e tclass"
  | PredUq "(string \<times> 'e poly_type) list" "'e constraint \<Rightarrow> fun_dep list"

fun unqualLookup :: "'e unqual \<Rightarrow> string \<Rightarrow> 'e poly_type option" where
  "unqualLookup (ClassUq c) = tclassLookup c"
| "unqualLookup (PredUq tbl deps) = map_of tbl"

fun unqualBindings :: "'e unqual \<Rightarrow> string set" where
  "unqualBindings (ClassUq c) = tclassBindings c"
| "unqualBindings (PredUq tbl deps) = fst ` set tbl"

fun unqualDeps :: "'e unqual \<Rightarrow> 'e constraint \<Rightarrow> fun_dep list" where
  "unqualDeps (ClassUq c) = tclassDependencies c"
| "unqualDeps (PredUq tbl deps) = deps"

definition unqualOps :: "('e unqual, 'e) uq_ops" where
  "unqualOps = \<lparr>uqLookup = unqualLookup, uqBindings = unqualBindings, uqDeps = unqualDeps\<rparr>"

section \<open>The contract of an unqualifier\<close>

text \<open>The overloaded symbols that an unqualifier lists are the ones it finds.\<close>

locale unqualifier =
  fixes find :: "'u \<Rightarrow> string \<Rightarrow> 'p option" and names :: "'u \<Rightarrow> string set"
  assumes names_found: "vn \<in> names u \<longleftrightarrow> find u vn \<noteq> None"
    and names_finite: "finite (names u)"
begin

lemma not_found: "find u vn = None \<longleftrightarrow> vn \<notin> names u"
  using names_found by blast

lemma found: "find u vn = Some p \<Longrightarrow> vn \<in> names u"
  using names_found by simp

lemma names_list [simp]: "set (sorted_list_of_set (names u)) = names u"
  by (simp add: names_finite)

end

text \<open>The set of unqualifiers is an unqualifier itself.\<close>

locale unqualifier_ops = unqualifier "uqLookup ops" "uqBindings ops"
  for ops :: "('u, 'e) uq_ops"

lemma usLookup_None: "usLookup ops us vn = None \<longleftrightarrow> (\<forall>p \<in> set us. uqLookup ops (snd p) vn = None)"
  by (induction ops us vn rule: usLookup.induct) (auto split: option.splits)

lemma usLookup_unique:
  "(\<And>n u. (n, u) \<in> set us \<Longrightarrow> uqLookup ops u vn \<noteq> None \<Longrightarrow> uqLookup ops u vn = y) \<Longrightarrow>
    p \<in> set us \<Longrightarrow> uqLookup ops (snd p) vn = y \<Longrightarrow> y \<noteq> None \<Longrightarrow> usLookup ops us vn = y"
proof (induction ops us vn rule: usLookup.induct)
  case (2 ops n u us vn)
  show ?case
  proof (cases "uqLookup ops u vn")
    case None
    then have "p \<in> set us" using 2(3-5) by auto
    moreover have "uqLookup ops v vn = y" if "(m, v) \<in> set us" "uqLookup ops v vn \<noteq> None" for m v
      using 2(2) [of m v] that by simp
    ultimately show ?thesis using 2(1) [OF None] 2(4,5) None by simp
  next
    case (Some pt)
    then have "y = Some pt" using 2(2) [of n u] by simp
    then show ?thesis using Some by simp
  qed
qed simp

sublocale unqualifier_ops \<subseteq> uset: unqualifier "usLookup ops" "usBindings ops"
proof
  fix vn us
  show "vn \<in> usBindings ops us \<longleftrightarrow> usLookup ops us vn \<noteq> None"
    by (auto simp: usLookup_None usBindings_def names_found split_beta)
  show "finite (usBindings ops us)"
    by (auto simp: usBindings_def names_finite)
qed

interpretation class_uq: unqualifier tclassLookup tclassBindings
proof
  fix vn and c :: "'e tclass"
  show "vn \<in> tclassBindings c \<longleftrightarrow> tclassLookup c vn \<noteq> None"
    by (auto simp: tclassBindings_def tclassLookup_def map_of_eq_None_iff)
  show "finite (tclassBindings c)" by (simp add: tclassBindings_def)
qed

interpretation unqual: unqualifier unqualLookup unqualBindings
proof
  fix vn and u :: "'e unqual"
  show "vn \<in> unqualBindings u \<longleftrightarrow> unqualLookup u vn \<noteq> None"
    by (cases u) (simp_all add: class_uq.names_found map_of_eq_None_iff)
  show "finite (unqualBindings u)" by (cases u) (simp_all add: class_uq.names_finite)
qed

interpretation env: unqualifier_ops unqualOps
  by unfold_locales (simp_all add: unqualOps_def unqual.names_found unqual.names_finite)

section \<open>What holds in every environment\<close>

text \<open>
  The root holds the unqualifiers. No two of them introduce the same symbol, and none of them
  introduces a name that is bound in the root.
\<close>

definition uset_ok :: "('u, 'e) uq_ops \<Rightarrow> 'u unqualifiers \<Rightarrow> bool" where
  "uset_ok ops us \<longleftrightarrow> sorted_wrt (<) (map fst us) \<and>
     (\<forall>p \<in> set us. \<forall>q \<in> set us. p \<noteq> q \<longrightarrow> uqBindings ops (snd p) \<inter> uqBindings ops (snd q) = {})"

definition root_ok :: "('u, 'e) uq_ops \<Rightarrow> ('u, 'e) frame \<Rightarrow> bool" where
  "root_ok ops f \<longleftrightarrow> (\<exists>us. unquals f = Some us \<and> uset_ok ops us \<and>
     (\<forall>vn. map_of (ptenv f) vn \<noteq> None \<longrightarrow> usLookup ops us vn = None))"

fun env_ok :: "('u, 'e) uq_ops \<Rightarrow> ('u, 'e) tenv \<Rightarrow> bool" where
  "env_ok ops [] \<longleftrightarrow> False"
| "env_ok ops (f # E) \<longleftrightarrow> (if E = [] then root_ok ops f else unquals f = None \<and> env_ok ops E)"

inductive env_reach :: "('u, 'e) uq_ops \<Rightarrow> ('u, 'e) tenv \<Rightarrow> bool" for ops where
  base: "env_reach ops tenvRoot"
| enter: "env_reach ops E \<Longrightarrow> env_reach ops (tenvNew E)"
| leave: "env_reach ops (f # E) \<Longrightarrow> E \<noteq> [] \<Longrightarrow> env_reach ops E"
| bind_var: "env_reach ops E \<Longrightarrow> bindVar ops vn pt E = Inr E' \<Longrightarrow> env_reach ops E'"
| unbind_var: "env_reach ops E \<Longrightarrow> env_reach ops (unbind vn E)"
| bind_pred: "env_reach ops E \<Longrightarrow> bindPred ops pn uq E = Inr E' \<Longrightarrow> env_reach ops E'"
| bind_alias: "env_reach ops E \<Longrightarrow> bindAlias tn t E = Inr E' \<Longrightarrow> env_reach ops E'"

lemma set_insertNamed: "set (insertNamed n u us) = insert (n, u) (set us)"
  by (induction n u us rule: insertNamed.induct) auto

lemma sorted_insertNamed:
  "sorted_wrt (<) (map fst us) \<Longrightarrow> n \<notin> fst ` set us \<Longrightarrow> sorted_wrt (<) (map fst (insertNamed n u us))"
proof (induction n u us rule: insertNamed.induct)
  case (2 n u m v us)
  show ?case
  proof (cases "n < m")
    case True
    then show ?thesis using 2(2) by (auto dest: order.strict_trans)
  next
    case False
    then have "m < n" using 2(3) by auto
    then show ?thesis using False 2 by (auto simp: set_insertNamed)
  qed
qed simp

lemma bindVar_ok: "env_ok ops E \<Longrightarrow> bindVar ops vn pt E = Inr E' \<Longrightarrow> env_ok ops E'"
  by (cases E)
    (auto simp: root_ok_def hasImmediateBinding_def update_conv' split: if_splits option.splits)

lemma unbind_ok: "env_ok ops E \<Longrightarrow> env_ok ops (unbind vn E)"
  by (cases E) (auto simp: root_ok_def delete_conv' split: if_splits)

lemma bindAlias_ok: "env_ok ops E \<Longrightarrow> bindAlias tn t E = Inr E' \<Longrightarrow> env_ok ops E' \<and> E' \<noteq> []"
  by (induction tn t E arbitrary: E' rule: bindAlias.induct)
    (auto simp: root_ok_def mapR_Inr_iff split: if_splits option.splits)

lemma find_None_names: "List.find P xs = None \<longleftrightarrow> (\<forall>x \<in> set xs. \<not> P x)"
  by (auto simp: find_None_iff)

context unqualifier_ops
begin

lemma add_unqualifier_ok:
  assumes r: "root_ok ops f" and us: "unquals f = Some us"
    and fresh: "\<And>vn. vn \<in> uqBindings ops uq \<Longrightarrow> \<not> hasImmediateBinding ops vn f"
    and add: "usAdd pn uq us = Inr us'"
  shows "root_ok ops (f\<lparr>unquals := Some us'\<rparr>)"
proof -
  have us': "us' = insertNamed pn uq us" and pn: "map_of us pn = None"
    using add by (auto simp: usAdd_def split: if_splits)
  have s: "set us' = insert (pn, uq) (set us)" by (simp add: us' set_insertNamed)
  have f: "map_of (ptenv f) vn = None" "usLookup ops us vn = None" if "vn \<in> uqBindings ops uq" for vn
    using fresh [OF that] us by (simp_all add: hasImmediateBinding_def)
  have d: "uqBindings ops uq \<inter> uqBindings ops (snd p) = {}" if "p \<in> set us" for p
    using f(2) that by (fastforce simp: usLookup_None not_found)
  have "sorted_wrt (<) (map fst us')"
    using r us pn by (auto simp: root_ok_def uset_ok_def us' map_of_eq_None_iff intro: sorted_insertNamed)
  moreover have "uqBindings ops (snd p) \<inter> uqBindings ops (snd q) = {}"
    if "p \<in> set us'" "q \<in> set us'" "p \<noteq> q" for p q
    using that d [of p] d [of q] r us unfolding s root_ok_def uset_ok_def
    by (metis Int_commute insertE option.inject snd_conv)
  moreover have "usLookup ops us' vn = None" if "map_of (ptenv f) vn \<noteq> None" for vn
    using that f(1) [of vn] r us unfolding usLookup_None s by (auto simp: root_ok_def usLookup_None not_found)
  ultimately show ?thesis by (auto simp: root_ok_def uset_ok_def)
qed

lemma bindPred_ok: "env_ok ops E \<Longrightarrow> bindPred ops pn uq E = Inr E' \<Longrightarrow> env_ok ops E' \<and> E' \<noteq> []"
proof (induction E arbitrary: E')
  case (Cons f E)
  show ?case
  proof (cases "E = []")
    case True
    then have r: "root_ok ops f" using Cons.prems(1) by simp
    then obtain us where us: "unquals f = Some us" by (auto simp: root_ok_def)
    from Cons.prems(2) obtain us' where u: "usAdd pn uq us = Inr us'" "E' = [f\<lparr>unquals := Some us'\<rparr>]"
      and n: "\<forall>vn \<in> uqBindings ops uq. \<not> hasBinding ops vn [f]"
      using True us by (auto simp: mapR_Inr_iff find_None_names split: option.splits)
    have "root_ok ops (f\<lparr>unquals := Some us'\<rparr>)"
      using add_unqualifier_ok [OF r us _ u(1)] n by (simp add: hasBinding_def)
    then show ?thesis using u by simp
  next
    case False
    then show ?thesis using Cons by (auto simp: mapR_Inr_iff)
  qed
qed simp

lemma env_reach_ok: "env_reach ops E \<Longrightarrow> env_ok ops E"
proof (induction rule: env_reach.induct)
  case base
  show ?case by (simp add: tenvRoot_def root_ok_def uset_ok_def)
next
  case (enter E)
  then show ?case by (cases E) (simp_all add: tenvNew_def)
qed (auto simp: bindVar_ok unbind_ok dest: bindPred_ok bindAlias_ok)

lemma bound_iff_found:
  "env_ok ops E \<Longrightarrow> vn \<in> boundVariables ops E \<longleftrightarrow> (\<exists>pt. lookupVar ops vn E = Inr pt)"
proof (induction E)
  case (Cons f E)
  have b: "boundVariables ops (f # E) =
    (case unquals f of None \<Rightarrow> {} | Some us \<Rightarrow> usBindings ops us) \<union> fst ` set (ptenv f) \<union> boundVariables ops E"
    by (auto simp: boundVariables_def)
  have k: "vn \<in> fst ` set (ptenv f) \<longleftrightarrow> map_of (ptenv f) vn \<noteq> None" by (simp add: map_of_eq_None_iff)
  show ?case
  proof (cases "E = []")
    case True
    then obtain us where "unquals f = Some us" using Cons.prems by (auto simp: root_ok_def)
    then show ?thesis unfolding b Un_iff k uset.names_found
      using True by (auto simp: boundVariables_def uset.names_found split: option.splits)
  next
    case False
    then show ?thesis unfolding b Un_iff k using Cons by (auto split: option.splits)
  qed
qed (simp add: boundVariables_def)

lemma one_meaning:
  assumes "env_ok ops E" "tenvUnqualifiers E = Some us" "p \<in> set us" "vn \<in> uqBindings ops (snd p)"
  shows "map_of (ptenv (tenvTop E)) vn = None" "usLookup ops us vn = uqLookup ops (snd p) vn"
    "q \<in> set us \<Longrightarrow> vn \<in> uqBindings ops (snd q) \<Longrightarrow> q = p"
proof -
  have r: "root_ok ops (last E)" using assms(1) by (induction E) (auto split: if_splits)
  have us: "unquals (last E) = Some us" using assms(2) by (simp add: tenvUnqualifiers_def tenvTop_def)
  have d: "q = p" if "q \<in> set us" "vn \<in> uqBindings ops (snd q)" for q
    using r us assms(3,4) that by (auto simp: root_ok_def uset_ok_def)
  then show "q \<in> set us \<Longrightarrow> vn \<in> uqBindings ops (snd q) \<Longrightarrow> q = p" .
  show "map_of (ptenv (tenvTop E)) vn = None"
    using r us assms(3,4) by (fastforce simp: root_ok_def tenvTop_def usLookup_None not_found)
  have "uqLookup ops u vn = uqLookup ops (snd p) vn" if "(n, u) \<in> set us" "uqLookup ops u vn \<noteq> None" for n u
    using d [of "(n, u)"] that names_found by auto
  then show "usLookup ops us vn = uqLookup ops (snd p) vn"
    using assms(3,4) names_found by (intro usLookup_unique [of us _ _ _ p]) auto
qed

end

text \<open>
  C13. In every environment that can be built, the bound variables are the ones whose lookup
  succeeds. An overloaded symbol belongs to one unqualifier, the table of the root gives it that
  meaning, and it is not also bound as a variable of the root.
\<close>

theorem env_one_meaning:
  assumes "env_reach unqualOps E"
  shows "boundVariables unqualOps E = {vn. \<exists>pt. lookupVar unqualOps vn E = Inr pt} \<and>
    (\<exists>us. tenvUnqualifiers E = Some us \<and> (\<forall>p \<in> set us. \<forall>vn \<in> unqualBindings (snd p).
       map_of (ptenv (tenvTop E)) vn = None \<and> typeEnvTable unqualOps E vn = Some (unqualLookup (snd p) vn) \<and>
       (\<forall>q \<in> set us. vn \<in> unqualBindings (snd q) \<longrightarrow> q = p)))"
proof -
  have ok: "env_ok unqualOps E" using assms by (rule env.env_reach_ok)
  have "root_ok unqualOps (last E)" using ok by (induction E) (auto split: if_splits)
  then obtain us where us: "tenvUnqualifiers E = Some us"
    by (auto simp: root_ok_def tenvUnqualifiers_def tenvTop_def)
  have b: "uqBindings unqualOps = unqualBindings" "uqLookup unqualOps = unqualLookup" by (simp_all add: unqualOps_def)
  have t: "typeEnvTable unqualOps E vn = Some (unqualLookup (snd p) vn)"
    if "p \<in> set us" "vn \<in> unqualBindings (snd p)" for p vn
  proof -
    have "vn \<in> usBindings unqualOps us" unfolding usBindings_def b using that by (intro UN_I [of p]) (auto simp: split_beta)
    then show ?thesis
      using env.one_meaning(2) [OF ok us, unfolded b, OF that] us by (simp add: typeEnvTable_def tenvUnqualifiers_def)
  qed
  show ?thesis using env.bound_iff_found [OF ok] us t env.one_meaning(1,3) [OF ok us, unfolded b] by blast
qed

theorem env_one_meaning_witness:
  "\<exists>E us. env_reach unqualOps (E :: (unit unqual, unit) tenv) \<and> tenvUnqualifiers E = Some us \<and> us \<noteq> [] \<and>
     ''x'' \<in> boundVariables unqualOps E \<and> lookupVar unqualOps ''x'' E = Inr (polytype 0 (qualtype [] (TVar ''a'')))"
proof -
  define c :: "unit unqual" where
    "c = ClassUq \<lparr>tcname = ''Eq'', tcvars = 1, tcreqs = [], tcmembers = [(''eq'', TGen 0)], tcfundeps = []\<rparr>"
  define E :: "(unit unqual, unit) tenv" where
    "E = [\<lparr>ptenv = [(''x'', polytype 0 (qualtype [] (TVar ''a'')))], unquals = None, typeAliases = []\<rparr>,
          \<lparr>ptenv = [], unquals = Some [(''Eq'', c)], typeAliases = []\<rparr>]"
  have s: "sorted_list_of_set {''eq''} = [''eq'']" by simp
  have p: "bindPred unqualOps ''Eq'' c tenvRoot = Inr [\<lparr>ptenv = [], unquals = Some [(''Eq'', c)], typeAliases = []\<rparr>]"
    by (simp add: tenvRoot_def c_def unqualOps_def tclassBindings_def hasBinding_def hasImmediateBinding_def usAdd_def mapR_def)
  have "bindM unqualOps ''x'' (TVar ''a'') (tenvNew [\<lparr>ptenv = [], unquals = Some [(''Eq'', c)], typeAliases = []\<rparr>]) = Inr E"
    by (simp add: bindM_def tenvNew_def hasImmediateBinding_def E_def)
  then have r: "env_reach unqualOps E"
    unfolding bindM_def by (rule bind_var [OF enter [OF bind_pred [OF base p]]])
  have l: "lookupVar unqualOps ''x'' E = Inr (polytype 0 (qualtype [] (TVar ''a'')))" by (simp add: E_def)
  have "tenvUnqualifiers E = Some [(''Eq'', c)]" by (simp add: E_def tenvUnqualifiers_def tenvTop_def)
  then show ?thesis using r l env_one_meaning [OF r] by blast
qed

section \<open>Frames\<close>

text \<open>What a run of bindings in the innermost frame leaves.\<close>

definition monoPoly :: "'e mono_type \<Rightarrow> 'e poly_type" where
  "monoPoly t = polytype 0 (qualtype [] t)"

lemma bindM_frame:
  "unquals f = None \<Longrightarrow>
    bindM ops v t (f # E) = (if map_of (ptenv f) v \<noteq> None then Inl (AlreadyDefined v)
      else Inr (f\<lparr>ptenv := AList.update v (monoPoly t) (ptenv f)\<rparr> # E))"
  by (simp add: bindM_def hasImmediateBinding_def monoPoly_def)

lemma bind_run:
  assumes "unquals f = None"
  shows "(if distinct (map fst vts) \<and> (\<forall>v \<in> fst ` set vts. map_of (ptenv f) v = None)
     then \<exists>f'. foldE (\<lambda>(v, t). bindM ops v t) vts (f # E) = Inr (f' # E) \<and> unquals f' = None \<and>
       map_of (ptenv f') = map_of (ptenv f) ++ (map_option monoPoly \<circ> map_of vts)
     else \<exists>v. foldE (\<lambda>(v, t). bindM ops v t) vts (f # E) = Inl (AlreadyDefined v))"
  using assms
proof (induction vts arbitrary: f)
  case Nil
  then show ?case by (auto simp: map_add_def)
next
  case (Cons vt vts)
  obtain v t where vt: "vt = (v, t)" by (cases vt)
  show ?case
  proof (cases "map_of (ptenv f) v")
    case None
    let ?f = "f\<lparr>ptenv := AList.update v (monoPoly t) (ptenv f)\<rparr>"
    have s: "foldE (\<lambda>(v, t). bindM ops v t) (vt # vts) (f # E) = foldE (\<lambda>(v, t). bindM ops v t) vts (?f # E)"
      using None by (simp add: vt bindM_frame [OF Cons.prems])
    have c: "(distinct (map fst (vt # vts)) \<and> (\<forall>w \<in> fst ` set (vt # vts). map_of (ptenv f) w = None)) =
      (distinct (map fst vts) \<and> (\<forall>w \<in> fst ` set vts. map_of (ptenv ?f) w = None))"
      using None by (auto simp: vt update_conv' image_iff)
    have "v \<notin> fst ` set vts" if "\<forall>w \<in> fst ` set vts. map_of (ptenv ?f) w = None"
      using that by (auto simp: update_conv')
    then have m: "map_of (ptenv ?f) ++ (map_option monoPoly \<circ> map_of vts) =
      map_of (ptenv f) ++ (map_option monoPoly \<circ> map_of (vt # vts))"
      if "\<forall>w \<in> fst ` set vts. map_of (ptenv ?f) w = None"
      using that by (intro ext) (auto simp: vt update_conv' map_add_def fun_upd_def map_of_eq_None_iff [symmetric] split: option.split)
    show ?thesis unfolding s c using Cons.IH [of ?f] Cons.prems m by (auto simp del: map_of.simps simp: comp_def split: if_splits)
  next
    case (Some p)
    then show ?thesis by (auto simp: vt bindM_frame [OF Cons.prems])
  qed
qed

text \<open>
  A frame for a function binds the parameters and leaves every other name as it is outside;
  a parameter that occurs twice is an error.
\<close>

theorem fnFrame_lookup:
  assumes "E \<noteq> []"
  shows "if distinct (take (length atys) vs)
    then \<exists>F. fnFrame ops E vs atys = Inr F \<and> (\<forall>vn. lookupVar ops vn F =
      (case map_of (zip vs atys) vn of Some t \<Rightarrow> Inr (polytype 0 (qualtype [] t)) | None \<Rightarrow> lookupVar ops vn E))
    else \<exists>v. fnFrame ops E vs atys = Inl (AlreadyDefined v)"
proof -
  let ?f = "\<lparr>ptenv = [], unquals = None, typeAliases = []\<rparr> :: ('a, 'b) frame"
  have d: "map fst (zip vs atys) = take (length atys) vs"
    by (simp add: map_fst_zip_take min_def)
  have "unquals ?f = None" by simp
  from bind_run [OF this, of "zip vs atys" ops E] show ?thesis
    unfolding fnFrame_def tenvNew_def d using assms by (auto simp: monoPoly_def split: option.splits if_splits)
qed

theorem fnFrame_lookup_witness:
  "(\<exists>F. fnFrame unqualOps (tenvRoot :: (unit unqual, unit) tenv) [''x''] [TVar ''a''] = Inr F) \<and>
   (\<exists>v. fnFrame unqualOps (tenvRoot :: (unit unqual, unit) tenv) [''x'', ''x''] [TVar ''a'', TVar ''b''] = Inl (AlreadyDefined v))"
proof -
  have r: "(tenvRoot :: (unit unqual, unit) tenv) \<noteq> []" by (simp add: tenvRoot_def)
  show ?thesis
    using fnFrame_lookup [OF r, of "[TVar ''a'']" "[''x'']" unqualOps]
      fnFrame_lookup [OF r, of "[TVar ''a'', TVar ''b'']" "[''x'', ''x'']" unqualOps]
    by (auto simp: if_split)
qed

end
