(* ===== verification/Union_Find.thy ===== *)
theory Union_Find
  imports Hobbes_Prelude "HOL-Library.AList"
begin

text \<open>
  The equivalence mapping of \<^verbatim>\<open>include/hobbes/util/unionfind.H\<close>: disjoint sets of keys with a value
  for each set, kept as trees with ranks and path compression. The type checker keeps the types
  it has found equal in one.

  A node points to its representative; the model names a node by its key. The table of nodes is an
  association list with new nodes at the end (the order in which the code's hash table is walked
  is not specified). Following representatives needs at most as many steps as there are nodes
  when the table is well formed, and that is the fuel; \<open>None\<close> means the code would not return.
\<close>

section \<open>Nodes and operations\<close>

record ('k, 'v) eqsetmem =
  nvalue :: 'v
  nrank :: nat
  nrep :: 'k

type_synonym ('k, 'v) nodes = "('k \<times> ('k, 'v) eqsetmem) list"

record ('k, 'v) equivalence_mapping =
  eqnodes :: "('k, 'v) nodes"
  eqsz :: nat

definition eqmap_empty :: "('k, 'v) equivalence_mapping" where
  "eqmap_empty = \<lparr>eqnodes = [], eqsz = 0\<rparr>"

definition eqmap_size :: "('k, 'v) equivalence_mapping \<Rightarrow> nat" where
  "eqmap_size m = eqsz m"

definition newNode :: "('k \<Rightarrow> 'v) \<Rightarrow> 'k \<Rightarrow> ('k, 'v) eqsetmem" where
  "newNode lift k = \<lparr>nvalue = lift k, nrank = 0, nrep = k\<rparr>"

fun findRepresentative :: "nat \<Rightarrow> 'k \<Rightarrow> ('k, 'v) nodes \<Rightarrow> ('k \<times> ('k, 'v) nodes) option" where
  "findRepresentative 0 k ns = None"
| "findRepresentative (Suc fuel) k ns =
     (case map_of ns k of
        None \<Rightarrow> None
      | Some n \<Rightarrow>
          if nrep n = k then Some (k, ns)
          else (case findRepresentative fuel (nrep n) ns of
                  None \<Rightarrow> None
                | Some (r, ns') \<Rightarrow> Some (r, AList.update k (n\<lparr>nrep := r\<rparr>) ns')))"

definition findNode :: "('k \<Rightarrow> 'v) \<Rightarrow> 'k \<Rightarrow> ('k, 'v) nodes \<Rightarrow> ('k \<times> ('k, 'v) nodes) option" where
  "findNode lift k ns =
     (case map_of ns k of
        Some n \<Rightarrow> findRepresentative (length ns) k ns
      | None \<Rightarrow> Some (k, AList.update k (newNode lift k) ns))"

text \<open>\<open>find\<close> returns a reference to the value of the set; the model returns its key and the value.\<close>

definition eqmap_find ::
  "('k \<Rightarrow> 'v) \<Rightarrow> 'k \<Rightarrow> ('k, 'v) equivalence_mapping \<Rightarrow> (('k \<times> 'v) \<times> ('k, 'v) equivalence_mapping) option" where
  "eqmap_find lift k m =
     (case findNode lift k (eqnodes m) of
        None \<Rightarrow> None
      | Some (r, ns) \<Rightarrow>
          (case map_of ns r of None \<Rightarrow> None | Some n \<Rightarrow> Some ((r, nvalue n), m\<lparr>eqnodes := ns\<rparr>)))"

definition setNodeValue :: "'k \<Rightarrow> 'v \<Rightarrow> ('k, 'v) equivalence_mapping \<Rightarrow> ('k, 'v) equivalence_mapping" where
  "setNodeValue r v m =
     (case map_of (eqnodes m) r of
        None \<Rightarrow> m | Some n \<Rightarrow> m\<lparr>eqnodes := AList.update r (n\<lparr>nvalue := v\<rparr>) (eqnodes m)\<rparr>)"

definition linkNodes :: "('v \<Rightarrow> 'v \<Rightarrow> 'v) \<Rightarrow> 'k \<Rightarrow> 'k \<Rightarrow> ('k, 'v) nodes \<Rightarrow> ('k, 'v) nodes option" where
  "linkNodes vplus l r ns =
     (case (map_of ns l, map_of ns r) of
        (Some lhs, Some rhs) \<Rightarrow>
          if nrank lhs < nrank rhs
          then Some (AList.update r (rhs\<lparr>nvalue := vplus (nvalue rhs) (nvalue lhs)\<rparr>)
                 (AList.update l (lhs\<lparr>nrep := r\<rparr>) ns))
          else if nrank rhs < nrank lhs
          then Some (AList.update l (lhs\<lparr>nvalue := vplus (nvalue lhs) (nvalue rhs)\<rparr>)
                 (AList.update r (rhs\<lparr>nrep := l\<rparr>) ns))
          else if l = r then None
          else Some (AList.update l (lhs\<lparr>nrank := nrank lhs + 1, nvalue := vplus (nvalue lhs) (nvalue rhs)\<rparr>)
                 (AList.update r (rhs\<lparr>nrep := l\<rparr>) ns))
      | _ \<Rightarrow> None)"

text \<open>\<open>linkNodes\<close> gives \<open>None\<close> when the two are the same set already, and \<open>join\<close> then adds nothing.\<close>

definition eqmap_join ::
  "('k \<Rightarrow> 'v) \<Rightarrow> ('v \<Rightarrow> 'v \<Rightarrow> 'v) \<Rightarrow> 'k \<Rightarrow> 'k \<Rightarrow> ('k, 'v) equivalence_mapping \<Rightarrow> ('k, 'v) equivalence_mapping option" where
  "eqmap_join lift vplus k0 k1 m =
     (case findNode lift k0 (eqnodes m) of
        None \<Rightarrow> None
      | Some (l, ns) \<Rightarrow>
          (case findNode lift k1 ns of
             None \<Rightarrow> None
           | Some (r, ns') \<Rightarrow>
               (case linkNodes vplus l r ns' of
                  None \<Rightarrow> Some (m\<lparr>eqnodes := ns'\<rparr>)
                | Some ns'' \<Rightarrow> Some \<lparr>eqnodes = ns'', eqsz = eqsz m + 1\<rparr>)))"

definition eqmap_values :: "('k, 'v) equivalence_mapping \<Rightarrow> 'k list" where
  "eqmap_values m = map fst (eqnodes m)"

text \<open>
  \<open>merge\<close>: the nodes of the other mapping are added, then its equivalences. Looking for the
  representatives of the other mapping compresses its paths too, which is not visible here.
\<close>

definition addNodes :: "('k \<Rightarrow> 'v) \<Rightarrow> 'k list \<Rightarrow> ('k, 'v) nodes \<Rightarrow> ('k, 'v) nodes" where
  "addNodes lift ks ns =
     fold (\<lambda>k ns. if map_of ns k = None then AList.update k (newNode lift k) ns else ns) ks ns"

fun mergeJoins ::
  "('k \<Rightarrow> 'v) \<Rightarrow> ('v \<Rightarrow> 'v \<Rightarrow> 'v) \<Rightarrow> 'k list \<Rightarrow> ('k, 'v) nodes \<Rightarrow> ('k, 'v) equivalence_mapping \<Rightarrow> ('k, 'v) equivalence_mapping option" where
  "mergeJoins lift vplus [] rhs m = Some m"
| "mergeJoins lift vplus (k # ks) rhs m =
     (case findRepresentative (length rhs) k rhs of
        None \<Rightarrow> None
      | Some (r, rhs') \<Rightarrow>
          (case (if k \<noteq> r then eqmap_join lift vplus k r m else Some m) of
             None \<Rightarrow> None
           | Some m' \<Rightarrow> mergeJoins lift vplus ks rhs' m'))"

definition eqmap_merge ::
  "('k \<Rightarrow> 'v) \<Rightarrow> ('v \<Rightarrow> 'v \<Rightarrow> 'v) \<Rightarrow> ('k, 'v) equivalence_mapping \<Rightarrow> ('k, 'v) equivalence_mapping \<Rightarrow> (nat \<times> ('k, 'v) equivalence_mapping) option" where
  "eqmap_merge lift vplus rhs m =
     (let ks = map fst (eqnodes rhs) in
      case mergeJoins lift vplus ks (eqnodes rhs) (m\<lparr>eqnodes := addNodes lift ks (eqnodes m)\<rparr>) of
        None \<Rightarrow> None
      | Some m' \<Rightarrow> Some (eqsz m' - eqsz m, m'))"

section \<open>Well-formed tables\<close>

text \<open>Keys are unique; a representative is a node of the table, of higher rank unless it is the node itself.\<close>

definition uf_ok :: "('k \<rightharpoonup> ('k, 'v) eqsetmem) \<Rightarrow> bool" where
  "uf_ok M \<longleftrightarrow> finite (dom M) \<and>
     (\<forall>k n. M k = Some n \<longrightarrow> (\<exists>p. M (nrep n) = Some p \<and> (nrep n \<noteq> k \<longrightarrow> nrank n < nrank p)))"

inductive root :: "('k \<rightharpoonup> ('k, 'v) eqsetmem) \<Rightarrow> 'k \<Rightarrow> 'k \<Rightarrow> bool" for M where
  self: "M k = Some n \<Longrightarrow> nrep n = k \<Longrightarrow> root M k k"
| up: "M k = Some n \<Longrightarrow> nrep n \<noteq> k \<Longrightarrow> root M (nrep n) r \<Longrightarrow> root M k r"

lemma root_unique: "root M k r \<Longrightarrow> root M k r' \<Longrightarrow> r' = r"
  by (induction rule: root.induct) (auto elim: root.cases)

lemma root_is_root: "root M k r \<Longrightarrow> \<exists>n. M r = Some n \<and> nrep n = r"
  by (induction rule: root.induct) auto

lemma root_dom: "root M k r \<Longrightarrow> \<exists>n. M k = Some n"
  by (auto elim: root.cases)

lemma root_of_root: "root M k r \<Longrightarrow> root M r r"
  by (auto dest!: root_is_root intro: root.self)

lemma root_rank: "root M k r \<Longrightarrow> uf_ok M \<Longrightarrow> M k = Some n \<Longrightarrow> M r = Some p \<Longrightarrow> k \<noteq> r \<Longrightarrow> nrank n < nrank p"
proof (induction arbitrary: n rule: root.induct)
  case (up k m r)
  obtain q where q: "M (nrep m) = Some q" "nrank m < nrank q" using up.prems(1) up.hyps(1,2) by (auto simp: uf_ok_def)
  have "n = m" using up.hyps(1) up.prems(2) by simp
  then show ?case using q up.IH [OF up.prems(1) q(1) up.prems(3)] up.prems(3) by (cases "nrep m = r") auto
qed simp

text \<open>The nodes of higher rank bound the steps to the root.\<close>

definition higher :: "('k \<rightharpoonup> ('k, 'v) eqsetmem) \<Rightarrow> 'k \<Rightarrow> nat" where
  "higher M k = card {j \<in> dom M. \<exists>n p. M k = Some n \<and> M j = Some p \<and> nrank n < nrank p}"

lemma higher_up:
  assumes "uf_ok M" "M k = Some n" "nrep n \<noteq> k"
  shows "higher M (nrep n) < higher M k"
proof -
  obtain p where p: "M (nrep n) = Some p" "nrank n < nrank p" using assms by (auto simp: uf_ok_def)
  have "finite (dom M)" using assms(1) by (simp add: uf_ok_def)
  moreover have "{j \<in> dom M. \<exists>q q'. M (nrep n) = Some q \<and> M j = Some q' \<and> nrank q < nrank q'} \<subseteq>
      {j \<in> dom M. \<exists>q q'. M k = Some q \<and> M j = Some q' \<and> nrank q < nrank q'}" (is "?A \<subseteq> ?B")
    using p assms(2) by (auto intro: less_trans)
  moreover have "nrep n \<in> ?B" using p assms(2) by auto
  moreover have "nrep n \<notin> ?A" by auto
  ultimately have "?A \<subset> ?B" "finite ?B" by (blast, simp)
  then show ?thesis unfolding higher_def by (intro psubset_card_mono)
qed

lemma higher_bound: "uf_ok M \<Longrightarrow> M k = Some n \<Longrightarrow> higher M k < card (dom M)"
proof -
  assume "uf_ok M" "M k = Some n"
  moreover have "k \<notin> {j \<in> dom M. \<exists>n p. M k = Some n \<and> M j = Some p \<and> nrank n < nrank p}" (is "k \<notin> ?A") by auto
  moreover have "?A \<subseteq> dom M" by auto
  ultimately show ?thesis unfolding higher_def uf_ok_def
    by (intro psubset_card_mono) (auto simp del: mem_Collect_eq)
qed

lemma root_total:
  assumes "uf_ok M"
  shows "M k = Some n \<Longrightarrow> \<exists>r. root M k r"
proof (induction "higher M k" arbitrary: k n rule: less_induct)
  case less
  show ?case
  proof (cases "nrep n = k")
    case True
    then show ?thesis using less.prems by (blast intro: root.self)
  next
    case False
    obtain p where "M (nrep n) = Some p" using assms less.prems by (auto simp: uf_ok_def)
    then show ?thesis using less higher_up [OF assms less.prems False] False by (blast intro: root.up)
  qed
qed

section \<open>Path compression\<close>

lemma root_cases_simp:
  "M k = Some n \<Longrightarrow> root M k r \<longleftrightarrow> (if nrep n = k then r = k else root M (nrep n) r)"
  by (auto intro: root.intros elim: root.cases)

text \<open>Pointing a node at its root keeps the table well formed and all roots.\<close>

lemma compress_ok:
  assumes "uf_ok M" "M k = Some n" "root M k r"
  shows "uf_ok (M(k \<mapsto> n\<lparr>nrep := r\<rparr>))"
proof -
  obtain p where p: "M r = Some p" "nrep p = r" using root_is_root [OF assms(3)] by blast
  have rank: "k \<noteq> r \<Longrightarrow> nrank n < nrank p" using root_rank [OF assms(3,1,2) p(1)] .
  have step: "\<exists>q. M (nrep m) = Some q \<and> (nrep m \<noteq> j \<longrightarrow> nrank m < nrank q)" if "M j = Some m" for j m
    using assms(1) that unfolding uf_ok_def by blast
  show ?thesis unfolding uf_ok_def
  proof (intro conjI allI impI)
    fix j m assume m: "(M(k \<mapsto> n\<lparr>nrep := r\<rparr>)) j = Some m"
    show "\<exists>q. (M(k \<mapsto> n\<lparr>nrep := r\<rparr>)) (nrep m) = Some q \<and> (nrep m \<noteq> j \<longrightarrow> nrank m < nrank q)"
    proof (cases "j = k")
      case True
      then show ?thesis using m p rank assms(2) by (cases "r = k") auto
    next
      case False
      then show ?thesis using m step [of j m] assms(2) by (cases "nrep m = k") auto
    qed
  qed (use assms(1) in \<open>simp add: uf_ok_def\<close>)
qed

lemma compress_root:
  assumes "uf_ok M" "M k = Some n" "root M k r"
  shows "root (M(k \<mapsto> n\<lparr>nrep := r\<rparr>)) = root M"
proof -
  let ?M = "M(k \<mapsto> n\<lparr>nrep := r\<rparr>)"
  have rr: "\<exists>p. M r = Some p \<and> nrep p = r" using root_is_root [OF assms(3)] .
  have keep: "root ?M j q" if "root M j q" for j q
    using that
  proof (induction rule: root.induct)
    case (self j m)
    show ?case
    proof (cases "j = k")
      case True
      have "root M k k" using self True by (auto intro: root.self)
      then have "k = r" using root_unique [OF assms(3)] by blast
      then show ?thesis using True by (auto intro: root.self)
    next
      case False
      then show ?thesis using self by (auto intro: root.self)
    qed
  next
    case (up j m q)
    show ?case
    proof (cases "j = k")
      case True
      have "q = r" using root_unique [OF assms(3)] root.up [OF up.hyps] True by simp
      moreover have "root ?M r r"
        using rr assms(2) by (cases "r = k") (auto intro!: root.self)
      moreover have "k \<noteq> r" using rr up.hyps(1,2) True by auto
      ultimately have "root ?M k q" by (intro root.up [of ?M k "n\<lparr>nrep := r\<rparr>"]) simp_all
      then show ?thesis unfolding True .
    next
      case False
      then have "?M j = Some m" using up.hyps(1) by simp
      then show ?thesis using up.hyps(2) up.IH by (rule root.up)
    qed
  qed
  have "root M j q" if jq: "root ?M j q" for j q
  proof -
    obtain m where m: "?M j = Some m" using root_dom [OF jq] by blast
    then obtain m' where "M j = Some m'" using assms(2) by (cases "j = k") auto
    then obtain q' where q': "root M j q'" using root_total [OF assms(1)] by blast
    then show ?thesis using keep [OF q'] root_unique [OF jq] by blast
  qed
  then show ?thesis using keep by blast
qed

text \<open>What a search leaves as it was: the keys, the roots, and the values and ranks of the nodes.\<close>

definition compressed :: "('k \<rightharpoonup> ('k, 'v) eqsetmem) \<Rightarrow> ('k \<rightharpoonup> ('k, 'v) eqsetmem) \<Rightarrow> bool" where
  "compressed M M' \<longleftrightarrow> uf_ok M' \<and> root M' = root M \<and>
     (\<forall>k. map_option (\<lambda>n. (nvalue n, nrank n)) (M' k) = map_option (\<lambda>n. (nvalue n, nrank n)) (M k))"

lemma compressed_dom: "compressed M M' \<Longrightarrow> dom M' = dom M"
  unfolding compressed_def by (metis (no_types, lifting) domIff option.map_disc_iff subsetI subset_antisym)

lemma findRepresentative_spec:
  assumes "uf_ok (map_of ns)" "map_of ns k = Some n" "higher (map_of ns) k < fuel"
  shows "\<exists>r ns'. findRepresentative fuel k ns = Some (r, ns') \<and> root (map_of ns) k r \<and>
    compressed (map_of ns) (map_of ns') \<and> (distinct (map fst ns) \<longrightarrow> distinct (map fst ns')) \<and>
    (map_of ns' k = Some (n\<lparr>nrep := r\<rparr>))"
  using assms
proof (induction fuel arbitrary: k n)
  case (Suc fuel)
  show ?case
  proof (cases "nrep n = k")
    case True
    then show ?thesis using Suc.prems by (auto simp: compressed_def intro: root.self)
  next
    case False
    obtain p where p: "map_of ns (nrep n) = Some p" using Suc.prems by (auto simp: uf_ok_def)
    have "higher (map_of ns) (nrep n) < fuel" using higher_up [OF Suc.prems(1,2) False] Suc.prems(3) by simp
    from Suc.IH [OF Suc.prems(1) p this] obtain r ns' where
      f: "findRepresentative fuel (nrep n) ns = Some (r, ns')" and r: "root (map_of ns) (nrep n) r"
      and c: "compressed (map_of ns) (map_of ns')" and d: "distinct (map fst ns) \<longrightarrow> distinct (map fst ns')" by blast
    have k: "root (map_of ns) k r" using Suc.prems(2) False r by (rule root.up)
    obtain n' where n': "map_of ns' k = Some n'" "nvalue n' = nvalue n" "nrank n' = nrank n"
    proof -
      have "map_option (\<lambda>n. (nvalue n, nrank n)) (map_of ns' k) = Some (nvalue n, nrank n)"
        using c Suc.prems(2) unfolding compressed_def by simp
      then show thesis using that by auto
    qed
    have e: "n'\<lparr>nrep := r\<rparr> = n\<lparr>nrep := r\<rparr>" using n' by simp
    have k': "root (map_of ns') k r" using c k by (simp add: compressed_def)
    have ok: "uf_ok (map_of ns')" using c by (simp add: compressed_def)
    have "compressed (map_of ns) ((map_of ns')(k \<mapsto> n\<lparr>nrep := r\<rparr>))"
      unfolding compressed_def
    proof (intro conjI allI)
      show "uf_ok ((map_of ns')(k \<mapsto> n\<lparr>nrep := r\<rparr>))" using compress_ok [OF ok n'(1) k'] unfolding e .
      show "root ((map_of ns')(k \<mapsto> n\<lparr>nrep := r\<rparr>)) = root (map_of ns)"
        using compress_root [OF ok n'(1) k'] c unfolding e compressed_def by metis
      fix j
      show "map_option (\<lambda>n. (nvalue n, nrank n)) (((map_of ns')(k \<mapsto> n\<lparr>nrep := r\<rparr>)) j) =
          map_option (\<lambda>n. (nvalue n, nrank n)) (map_of ns j)"
      proof (cases "j = k")
        case True
        then show ?thesis using Suc.prems(2) by simp
      next
        case False
        then have "((map_of ns')(k \<mapsto> n\<lparr>nrep := r\<rparr>)) j = map_of ns' j" by simp
        then show ?thesis using c unfolding compressed_def by metis
      qed
    qed
    moreover have "findRepresentative (Suc fuel) k ns = Some (r, AList.update k (n\<lparr>nrep := r\<rparr>) ns')"
      using f Suc.prems(2) False by simp
    moreover have "distinct (map fst ns) \<longrightarrow> distinct (map fst (AList.update k (n\<lparr>nrep := r\<rparr>) ns'))"
      using d by (simp add: distinct_update)
    moreover have "map_of (AList.update k (n\<lparr>nrep := r\<rparr>) ns') = (map_of ns')(k \<mapsto> n\<lparr>nrep := r\<rparr>)"
      by (rule update_conv')
    ultimately show ?thesis using k by (intro exI [of _ r] exI) auto
  qed
qed simp

section \<open>Searching and joining\<close>

text \<open>Two keys are equal when they are the same or have the same root.\<close>

definition eqv_in :: "('k \<rightharpoonup> ('k, 'v) eqsetmem) \<Rightarrow> 'k \<Rightarrow> 'k \<Rightarrow> bool" where
  "eqv_in M a b \<longleftrightarrow> a = b \<or> (\<exists>r. root M a r \<and> root M b r)"

lemma eqv_in_equiv:
  "eqv_in M a a" "eqv_in M a b \<Longrightarrow> eqv_in M b a" "eqv_in M a b \<Longrightarrow> eqv_in M b c \<Longrightarrow> eqv_in M a c"
proof -
  assume "eqv_in M a b" "eqv_in M b c"
  then show "eqv_in M a c" unfolding eqv_in_def using root_unique [of M b] by metis
qed (auto simp: eqv_in_def)

lemma newNode_ok:
  assumes "uf_ok M" "M k = None"
  shows "uf_ok (M(k \<mapsto> newNode lift k))" "root (M(k \<mapsto> newNode lift k)) j r \<longleftrightarrow> (if j = k then r = k else root M j r)"
proof -
  let ?M = "M(k \<mapsto> newNode lift k)"
  have "nrep n \<noteq> k" if n: "M j = Some n" for j n
  proof -
    obtain p where "M (nrep n) = Some p" using assms(1) n unfolding uf_ok_def by blast
    then show ?thesis using assms(2) by auto
  qed
  then show "uf_ok ?M" using assms by (auto simp: uf_ok_def newNode_def)
  have self: "root ?M k k" by (rule root.self [of _ _ "newNode lift k"]) (simp_all add: newNode_def)
  have old: "root ?M j r" if "root M j r" for j r
    using that
  proof (induction rule: root.induct)
    case (self j n)
    then have "j \<noteq> k" using assms(2) by auto
    then show ?case using self by (intro root.self [of _ _ n]) simp_all
  next
    case (up j n r)
    then have "j \<noteq> k" using assms(2) by auto
    then have "?M j = Some n" using up.hyps(1) by simp
    then show ?case using up.hyps(2) up.IH by (rule root.up)
  qed
  show "root ?M j r \<longleftrightarrow> (if j = k then r = k else root M j r)"
  proof (cases "j = k")
    case True
    then show ?thesis using self root_unique [OF self] by auto
  next
    case False
    have "root M j r" if jr: "root ?M j r"
    proof -
      obtain n where "M j = Some n" using root_dom [OF jr] False by auto
      then obtain q where q: "root M j q" using root_total [OF assms(1)] by blast
      then show ?thesis using old [OF q] root_unique [OF jr] by blast
    qed
    then show ?thesis using False old by auto
  qed
qed

text \<open>\<open>nodes_ok\<close> is the invariant of a mapping, \<open>eqv\<close> what it says of two keys.\<close>

definition nodes_ok :: "('k, 'v) nodes \<Rightarrow> bool" where
  "nodes_ok ns \<longleftrightarrow> distinct (map fst ns) \<and> uf_ok (map_of ns)"

lemma findNode_spec:
  assumes "nodes_ok ns"
  shows "\<exists>r ns'. findNode lift k ns = Some (r, ns') \<and> nodes_ok ns' \<and> root (map_of ns') k r \<and>
    eqv_in (map_of ns') = eqv_in (map_of ns) \<and> dom (map_of ns') = insert k (dom (map_of ns)) \<and>
    (\<forall>j q. root (map_of ns) j q \<longrightarrow> root (map_of ns') j q)"
proof (cases "map_of ns k")
  case None
  let ?ns = "AList.update k (newNode lift k) ns"
  have ok: "uf_ok (map_of ns)" using assms by (simp add: nodes_ok_def)
  note n = newNode_ok [OF ok None, of lift]
  have r: "\<not> root (map_of ns) k r" for r using None by (auto dest: root_dom)
  have "eqv_in (map_of ?ns) a b = eqv_in (map_of ns) a b" for a b
  proof -
    have "\<not> root (map_of ns) j k" for j using None root_is_root by fastforce
    then show ?thesis unfolding eqv_in_def update_conv' n(2) using r by auto
  qed
  moreover have "nodes_ok ?ns" using n(1) assms by (simp add: nodes_ok_def distinct_update update_conv')
  moreover have "findNode lift k ns = Some (k, ?ns)" using None by (simp add: findNode_def)
  moreover have "root (map_of ?ns) k k" unfolding update_conv' n(2) by simp
  moreover have "root (map_of ?ns) j q" if "root (map_of ns) j q" for j q
    unfolding update_conv' n(2) using that r by auto
  moreover have "dom (map_of ?ns) = insert k (dom (map_of ns))" by (simp add: update_conv')
  ultimately show ?thesis by blast
next
  case (Some n)
  have ok: "uf_ok (map_of ns)" "distinct (map fst ns)" using assms by (simp_all add: nodes_ok_def)
  have "card (dom (map_of ns)) = length ns" using ok(2) using distinct_card [of "map fst ns"] by (simp add: dom_map_of_conv_image_fst)
  then have "higher (map_of ns) k < length ns" using higher_bound [OF ok(1) Some] by simp
  from findRepresentative_spec [OF ok(1) Some this] obtain r ns' where
    f: "findRepresentative (length ns) k ns = Some (r, ns')" "root (map_of ns) k r"
    and c: "compressed (map_of ns) (map_of ns')" and d: "distinct (map fst ns')" using ok(2) by blast
  have "root (map_of ns') = root (map_of ns)" "uf_ok (map_of ns')" using c by (simp_all add: compressed_def)
  moreover have "dom (map_of ns') = insert k (dom (map_of ns))" using compressed_dom [OF c] Some by blast
  moreover have "findNode lift k ns = Some (r, ns')" using f(1) Some by (simp add: findNode_def)
  ultimately show ?thesis using f(2) d unfolding nodes_ok_def eqv_in_def by auto
qed

text \<open>Linking the root \<open>x\<close> below the root \<open>w\<close>, which gets a new value and a rank above that of \<open>x\<close>.\<close>

lemma linkNodes_ok:
  fixes v :: 'v and M :: "'k \<rightharpoonup> ('k, 'v) eqsetmem"
  assumes ok: "uf_ok M" and x: "M x = Some xn" "nrep xn = x" and w: "M w = Some wn" "nrep wn = w"
    and ne: "x \<noteq> w" and rk: "nrank xn < rk" "nrank wn \<le> rk"
  defines "M' \<equiv> M(x \<mapsto> xn\<lparr>nrep := w\<rparr>, w \<mapsto> wn\<lparr>nrank := rk, nvalue := v\<rparr>)"
  shows "uf_ok M'" "root M j q \<Longrightarrow> root M' j (if q = x then w else q)" "dom M' = dom M"
proof -
  have step: "\<exists>p. M (nrep m) = Some p \<and> (nrep m \<noteq> j \<longrightarrow> nrank m < nrank p)" if "M j = Some m" for j m
    using ok that unfolding uf_ok_def by blast
  have "\<exists>p. M' (nrep m) = Some p \<and> (nrep m \<noteq> j \<longrightarrow> nrank m < nrank p)" if m: "M' j = Some m" for j m
  proof -
    consider "j = w" | "j = x" | "j \<noteq> w" "j \<noteq> x" by blast
    then show ?thesis
    proof cases
      case 1
      then have "m = wn\<lparr>nrank := rk, nvalue := v\<rparr>" using m by (simp add: M'_def)
      then show ?thesis using 1 w(2) by (simp add: M'_def)
    next
      case 2
      then have "m = xn\<lparr>nrep := w\<rparr>" using m ne by (simp add: M'_def)
      then show ?thesis using 2 rk by (simp add: M'_def)
    next
      case 3
      then have "M j = Some m" using m by (simp add: M'_def)
      then obtain p where "M (nrep m) = Some p" "nrep m \<noteq> j \<longrightarrow> nrank m < nrank p" using step by blast
      then show ?thesis using x w rk by (cases "nrep m = w"; cases "nrep m = x") (auto simp: M'_def)
    qed
  qed
  then show "uf_ok M'" using ok by (simp add: uf_ok_def M'_def)
  show "dom M' = dom M" using x w by (auto simp: M'_def)
  have ww: "root M' w w" using w by (intro root.self [of _ _ "wn\<lparr>nrank := rk, nvalue := v\<rparr>"]) (simp_all add: M'_def)
  have "M' x = Some (xn\<lparr>nrep := w\<rparr>)" using ne by (simp add: M'_def)
  then have xw: "root M' x w" by (rule root.up) (use ne ww in simp_all)
  show "root M j q \<Longrightarrow> root M' j (if q = x then w else q)"
  proof (induction rule: root.induct)
    case (self j m)
    consider "j = w" | "j = x" | "j \<noteq> w" "j \<noteq> x" by blast
    then show ?case
    proof cases
      case 1
      then show ?thesis using ww ne by simp
    next
      case 2
      then show ?thesis using xw by simp
    next
      case 3
      then have "M' j = Some m" using self(1) by (simp add: M'_def)
      then show ?thesis using self(2) 3 by (auto intro: root.self)
    qed
  next
    case (up j m q)
    then have "j \<noteq> x" "j \<noteq> w" using x w by auto
    then have "M' j = Some m" using up.hyps(1) by (simp add: M'_def)
    then show ?case using up.hyps(2) up.IH by (rule root.up)
  qed
qed

definition linked :: "('k, 'v) nodes \<Rightarrow> 'k \<Rightarrow> 'k \<Rightarrow> ('k, 'v) nodes \<Rightarrow> 'k \<Rightarrow> bool" where
  "linked ns l r ns' w \<longleftrightarrow> nodes_ok ns' \<and> w \<in> {l, r} \<and> dom (map_of ns') = dom (map_of ns) \<and>
     (\<forall>j q. root (map_of ns) j q \<longrightarrow> root (map_of ns') j (if q \<in> {l, r} then w else q))"

lemma linked_comm: "linked ns r l ns' w = linked ns l r ns' w"
  by (simp add: linked_def insert_commute)

lemma linkNodes_spec:
  fixes ns :: "('k, 'v) nodes"
  assumes "nodes_ok ns" "root (map_of ns) l l" "root (map_of ns) r r"
  shows "l = r \<Longrightarrow> linkNodes vplus l r ns = None"
    "l \<noteq> r \<Longrightarrow> \<exists>ns' w. linkNodes vplus l r ns = Some ns' \<and> linked ns l r ns' w"
proof -
  obtain lhs where l: "map_of ns l = Some lhs" "nrep lhs = l" using root_is_root [OF assms(2)] by blast
  obtain rhs where r: "map_of ns r = Some rhs" "nrep rhs = r" using root_is_root [OF assms(3)] by blast
  have ok: "uf_ok (map_of ns)" "distinct (map fst ns)" using assms(1) by (simp_all add: nodes_ok_def)
  show "l = r \<Longrightarrow> linkNodes vplus l r ns = None" using l r by (simp add: linkNodes_def)
  assume False: "l \<noteq> r"
  let ?res = "\<lambda>x xn w wn rk v. AList.update w (wn\<lparr>nrank := rk, nvalue := v\<rparr>) (AList.update x (xn\<lparr>nrep := w\<rparr>) ns)"
  have gen: "linked ns x w (?res x xn w wn rk v) w"
    if "map_of ns x = Some xn" "nrep xn = x" "map_of ns w = Some wn" "nrep wn = w" "x \<noteq> w" "nrank xn < rk" "nrank wn \<le> rk"
    for x xn w wn rk and v :: 'v
    unfolding linked_def
  proof (intro conjI allI impI)
    note lk = linkNodes_ok [OF ok(1) that, where v = v]
    show "nodes_ok (?res x xn w wn rk v)" using lk(1) ok(2) by (simp add: nodes_ok_def distinct_update update_conv')
    show "dom (map_of (?res x xn w wn rk v)) = dom (map_of ns)" using lk(3) by (simp only: update_conv')
    fix j q assume "root (map_of ns) j q"
    then have "root (map_of (?res x xn w wn rk v)) j (if q = x then w else q)" using lk(2) by (simp only: update_conv')
    then show "root (map_of (?res x xn w wn rk v)) j (if q \<in> {x, w} then w else q)" by (cases "q = w") auto
  qed simp
  consider "nrank lhs < nrank rhs" | "nrank rhs < nrank lhs" | "nrank lhs = nrank rhs" by linarith
  then show "\<exists>ns' w. linkNodes vplus l r ns = Some ns' \<and> linked ns l r ns' w"
  proof cases
    case 1
    have "linkNodes vplus l r ns = Some (?res l lhs r rhs (nrank rhs) (vplus (nvalue rhs) (nvalue lhs)))"
      using l r 1 by (simp add: linkNodes_def)
    then show ?thesis using gen [OF l r False 1 order_refl] by blast
  next
    case 2
    have "linkNodes vplus l r ns = Some (?res r rhs l lhs (nrank lhs) (vplus (nvalue lhs) (nvalue rhs)))"
      using l r 2 by (simp add: linkNodes_def)
    moreover have "linked ns l r (?res r rhs l lhs (nrank lhs) (vplus (nvalue lhs) (nvalue rhs))) l"
      unfolding linked_comm [of ns r l, symmetric] by (rule gen [OF r l not_sym [OF False] 2 order_refl])
    ultimately show ?thesis by blast
  next
    case 3
    have "linkNodes vplus l r ns = Some (?res r rhs l lhs (nrank lhs + 1) (vplus (nvalue lhs) (nvalue rhs)))"
      using l r 3 False by (simp add: linkNodes_def)
    moreover have "linked ns l r (?res r rhs l lhs (nrank lhs + 1) (vplus (nvalue lhs) (nvalue rhs))) l"
      unfolding linked_comm [of ns r l, symmetric] using 3 by (intro gen [OF r l not_sym [OF False]]) simp_all
    ultimately show ?thesis by blast
  qed
qed

lemma linked_eqv:
  assumes "nodes_ok ns" "linked ns l r ns' w" "root (map_of ns) k0 l" "root (map_of ns) k1 r"
  shows "eqv_in (map_of ns') a b \<longleftrightarrow> eqv_in (map_of ns) a b \<or>
    (eqv_in (map_of ns) a k0 \<and> eqv_in (map_of ns) b k1) \<or> (eqv_in (map_of ns) a k1 \<and> eqv_in (map_of ns) b k0)"
proof -
  let ?M = "map_of ns" and ?M' = "map_of ns'"
  have ok: "uf_ok ?M" using assms(1) by (simp add: nodes_ok_def)
  have up: "root ?M' j (if q \<in> {l, r} then w else q)" if "root ?M j q" for j q
    using assms(2) that by (simp add: linked_def)
  have w: "w \<in> {l, r}" using assms(2) by (simp add: linked_def)
  have at: "eqv_in ?M j k0 \<longleftrightarrow> q = l" "eqv_in ?M j k1 \<longleftrightarrow> q = r" if "root ?M j q" for j q
    unfolding eqv_in_def using that assms(3,4) root_unique by metis+
  have out: "\<not> root ?M j q" "\<not> root ?M' j q" if "?M j = None" for j q
    using that assms(2) root_dom [of ?M j q] root_dom [of ?M' j q] unfolding linked_def by (auto simp: set_eq_iff domIff)
  show ?thesis
  proof (cases "?M a = None \<or> ?M b = None")
    case True
    have k: "?M k0 \<noteq> None" "?M k1 \<noteq> None" using assms(3,4) root_dom by fastforce+
    show ?thesis using True out k unfolding eqv_in_def by metis
  next
    case False
    then obtain qa qb where q: "root ?M a qa" "root ?M b qb" using root_total [OF ok] by (meson not_None_eq)
    have "eqv_in ?M' a b \<longleftrightarrow> (if qa \<in> {l, r} then w else qa) = (if qb \<in> {l, r} then w else qb)"
      unfolding eqv_in_def using up [OF q(1)] up [OF q(2)] root_unique [OF up [OF q(1)]] root_unique [OF up [OF q(2)]] by metis
    moreover have "eqv_in ?M a b \<longleftrightarrow> qa = qb" unfolding eqv_in_def using q root_unique by metis
    ultimately show ?thesis using at [OF q(1)] at [OF q(2)] w by auto
  qed
qed

section \<open>The interface\<close>

text \<open>
  What the type checker relies on: two keys can be declared the same, and then exactly the keys
  become the same that must. \<open>unites\<close> declares a list of pairs.
\<close>

fun unites :: "('k \<Rightarrow> 'k \<Rightarrow> 's \<Rightarrow> 's option) \<Rightarrow> ('k \<times> 'k) list \<Rightarrow> 's \<Rightarrow> 's option" where
  "unites unite [] s = Some s"
| "unites unite ((a, b) # ps) s = (case unite a b s of None \<Rightarrow> None | Some s' \<Rightarrow> unites unite ps s')"

definition pairs_of :: "('k \<Rightarrow> 'k \<Rightarrow> bool) \<Rightarrow> ('k \<times> 'k) set" where
  "pairs_of R = {(x, y). R x y}"

locale equality_store =
  fixes store_ok :: "'s \<Rightarrow> bool"
    and same :: "'s \<Rightarrow> 'k \<Rightarrow> 'k \<Rightarrow> bool"
    and unite :: "'k \<Rightarrow> 'k \<Rightarrow> 's \<Rightarrow> 's option"
  assumes same_refl: "store_ok s \<Longrightarrow> same s x x"
    and same_sym: "store_ok s \<Longrightarrow> same s x y \<Longrightarrow> same s y x"
    and same_trans: "store_ok s \<Longrightarrow> same s x y \<Longrightarrow> same s y z \<Longrightarrow> same s x z"
    and unite_ok: "store_ok s \<Longrightarrow> \<exists>s'. unite a b s = Some s' \<and> store_ok s' \<and>
      (\<forall>x y. same s' x y \<longleftrightarrow> same s x y \<or> same s x a \<and> same s y b \<or> same s x b \<and> same s y a)"
begin

lemma sames_closed:
  assumes "store_ok s"
  shows "(pairs_of (same s))\<^sup>* = pairs_of (same s)"
proof -
  have "same s x y" if "(x, y) \<in> (pairs_of (same s))\<^sup>*" for x y
    using that
  proof (induction rule: rtrancl_induct)
    case base
    show ?case by (rule same_refl [OF assms])
  next
    case (step y z)
    then show ?case using same_trans [OF assms, of x y z] by (simp add: pairs_of_def)
  qed
  then show ?thesis by (auto simp: pairs_of_def)
qed

lemma unites_closure:
  "store_ok s \<Longrightarrow> \<exists>s'. unites unite ps s = Some s' \<and> store_ok s' \<and>
    pairs_of (same s') = (pairs_of (same s) \<union> set ps \<union> (set ps)\<inverse>)\<^sup>*"
proof (induction ps arbitrary: s)
  case Nil
  then show ?case by (simp add: sames_closed)
next
  case (Cons p ps)
  obtain a b where p: "p = (a, b)" by (cases p)
  obtain s1 where s1: "unite a b s = Some s1" "store_ok s1"
    and e: "\<And>x y. same s1 x y \<longleftrightarrow> same s x y \<or> same s x a \<and> same s y b \<or> same s x b \<and> same s y a"
    using unite_ok [OF Cons.prems] by metis
  obtain s' where s': "unites unite ps s1 = Some s'" "store_ok s'"
    "pairs_of (same s') = (pairs_of (same s1) \<union> set ps \<union> (set ps)\<inverse>)\<^sup>*" using Cons.IH [OF s1(2)] by blast
  let ?R = "pairs_of (same s) \<union> set (p # ps) \<union> (set (p # ps))\<inverse>"
  have ab: "(a, b) \<in> ?R" "(b, a) \<in> ?R" by (auto simp: p)
  have "pairs_of (same s1) \<subseteq> ?R\<^sup>*"
  proof (rule subrelI)
    fix x y assume xy: "(x, y) \<in> pairs_of (same s1)"
    have R: "same s u v \<Longrightarrow> (u, v) \<in> ?R\<^sup>*" for u v by (auto simp: pairs_of_def)
    have "same s1 x y" using xy by (simp add: pairs_of_def)
    then consider "same s x y" | "same s x a" "same s y b" | "same s x b" "same s y a" using e by metis
    then show "(x, y) \<in> ?R\<^sup>*"
    proof cases
      case 2
      show ?thesis
        by (rule rtrancl_trans [OF R [OF 2(1)] rtrancl_trans [OF r_into_rtrancl [OF ab(1)]
              R [OF same_sym [OF Cons.prems 2(2)]]]])
    next
      case 3
      show ?thesis
        by (rule rtrancl_trans [OF R [OF 3(1)] rtrancl_trans [OF r_into_rtrancl [OF ab(2)]
              R [OF same_sym [OF Cons.prems 3(2)]]]])
    qed (rule R)
  qed
  moreover have "set ps \<union> (set ps)\<inverse> \<subseteq> ?R\<^sup>*" by (rule subrelI) (rule r_into_rtrancl, auto)
  ultimately have "pairs_of (same s1) \<union> set ps \<union> (set ps)\<inverse> \<subseteq> ?R\<^sup>*" by (simp only: Un_assoc Un_least)
  then have "(pairs_of (same s1) \<union> set ps \<union> (set ps)\<inverse>)\<^sup>* \<subseteq> ?R\<^sup>*" by (rule rtrancl_subset_rtrancl)
  moreover have "?R \<subseteq> pairs_of (same s1) \<union> set ps \<union> (set ps)\<inverse>"
  proof (rule subrelI)
    fix x y assume xy: "(x, y) \<in> ?R"
    have "same s1 a b" "same s1 b a" using e same_refl [OF Cons.prems] by blast+
    moreover have "same s x y \<Longrightarrow> same s1 x y" using e by blast
    ultimately show "(x, y) \<in> pairs_of (same s1) \<union> set ps \<union> (set ps)\<inverse>" using xy by (auto simp: pairs_of_def p)
  qed
  ultimately have "pairs_of (same s') = ?R\<^sup>*" unfolding s'(3) using rtrancl_mono by blast
  then show ?case using s1(1) s'(1,2) by (simp add: p)
qed

end

section \<open>The mapping as such a store\<close>

definition eqmap_ok :: "('k, 'v) equivalence_mapping \<Rightarrow> bool" where
  "eqmap_ok m \<longleftrightarrow> nodes_ok (eqnodes m)"

definition eqv :: "('k, 'v) equivalence_mapping \<Rightarrow> 'k \<Rightarrow> 'k \<Rightarrow> bool" where
  "eqv m = eqv_in (map_of (eqnodes m))"

lemma eqmap_join_spec:
  assumes "eqmap_ok m"
  shows "\<exists>m'. eqmap_join lift vplus k0 k1 m = Some m' \<and> eqmap_ok m' \<and>
    (\<forall>a b. eqv m' a b \<longleftrightarrow> eqv m a b \<or> eqv m a k0 \<and> eqv m b k1 \<or> eqv m a k1 \<and> eqv m b k0) \<and>
    eqsz m' = eqsz m + (if eqv m k0 k1 then 0 else 1)"
proof -
  obtain l ns where l: "findNode lift k0 (eqnodes m) = Some (l, ns)" "nodes_ok ns" "root (map_of ns) k0 l"
    "eqv_in (map_of ns) = eqv m"
    using findNode_spec [of "eqnodes m" lift k0] assms unfolding eqmap_ok_def eqv_def by blast
  obtain r ns' where r: "findNode lift k1 ns = Some (r, ns')" "nodes_ok ns'" "root (map_of ns') k1 r"
    "eqv_in (map_of ns') = eqv_in (map_of ns)" "root (map_of ns') k0 l"
    using findNode_spec [OF l(2), of lift k1] l(3) by blast
  have e: "eqv_in (map_of ns') = eqv m" using l(4) r(4) by simp
  note roots = root_of_root [OF r(5)] root_of_root [OF r(3)]
  have lr: "eqv m k0 k1 \<longleftrightarrow> l = r"
    unfolding e [symmetric] eqv_in_def using r(3,5) root_unique by metis
  show ?thesis
  proof (cases "l = r")
    case True
    then have "eqv m k0 k1" using lr by simp
    then have "eqv m a b" if "eqv m a k0 \<and> eqv m b k1 \<or> eqv m a k1 \<and> eqv m b k0" for a b
      using that eqv_in_equiv unfolding eqv_def by metis
    then have "eqv m a b \<longleftrightarrow> eqv m a b \<or> eqv m a k0 \<and> eqv m b k1 \<or> eqv m a k1 \<and> eqv m b k0" for a b by blast
    then show ?thesis
      using l(1) r(1,2) e linkNodes_spec(1) [OF r(2) roots True, of vplus] lr True
      by (simp add: eqmap_join_def eqmap_ok_def eqv_def)
  next
    case False
    obtain ns'' w where w: "linkNodes vplus l r ns' = Some ns''" "linked ns' l r ns'' w"
      using linkNodes_spec(2) [OF r(2) roots False] by blast
    have "nodes_ok ns''" using w(2) by (simp add: linked_def)
    moreover have "eqv_in (map_of ns'') a b \<longleftrightarrow> eqv m a b \<or> eqv m a k0 \<and> eqv m b k1 \<or> eqv m a k1 \<and> eqv m b k0" for a b
      using linked_eqv [OF r(2) w(2) r(5) r(3)] unfolding e .
    ultimately show ?thesis
      using l(1) r(1) w(1) lr False by (simp add: eqmap_join_def eqmap_ok_def eqv_def)
  qed
qed

interpretation eqmap: equality_store eqmap_ok eqv "eqmap_join lift vplus" for lift vplus
proof
  fix s :: "('a, 'b) equivalence_mapping" and a b
  show "eqmap_ok s \<Longrightarrow> \<exists>s'. eqmap_join lift vplus a b s = Some s' \<and> eqmap_ok s' \<and>
      (\<forall>x y. eqv s' x y \<longleftrightarrow> eqv s x y \<or> eqv s x a \<and> eqv s y b \<or> eqv s x b \<and> eqv s y a)"
    using eqmap_join_spec [of s lift vplus a b] by blast
  show "eqv s x x" for x unfolding eqv_def by (rule eqv_in_equiv)
  show "eqv s x y \<Longrightarrow> eqv s y x" for x y unfolding eqv_def by (rule eqv_in_equiv)
  show "eqv s x y \<Longrightarrow> eqv s y z \<Longrightarrow> eqv s x z" for x y z unfolding eqv_def by (rule eqv_in_equiv)
qed

definition keyOf :: "('k \<Rightarrow> 'v) \<Rightarrow> 'k \<Rightarrow> ('k, 'v) equivalence_mapping \<Rightarrow> 'k option" where
  "keyOf lift k m = map_option (fst \<circ> fst) (eqmap_find lift k m)"

lemma eqmap_find_spec:
  assumes "eqmap_ok m"
  shows "\<exists>r v m'. eqmap_find lift k m = Some ((r, v), m') \<and> eqmap_ok m' \<and> eqv m' = eqv m \<and> eqv m k r \<and>
    eqsz m' = eqsz m \<and> root (map_of (eqnodes m')) k r \<and>
    (\<forall>j q. root (map_of (eqnodes m)) j q \<longrightarrow> root (map_of (eqnodes m')) j q)"
proof -
  obtain r ns where r: "findNode lift k (eqnodes m) = Some (r, ns)" "nodes_ok ns" "root (map_of ns) k r"
    "eqv_in (map_of ns) = eqv m" "\<forall>j q. root (map_of (eqnodes m)) j q \<longrightarrow> root (map_of ns) j q"
    using findNode_spec [of "eqnodes m" lift k] assms unfolding eqmap_ok_def eqv_def by blast
  obtain n where n: "map_of ns r = Some n" using root_is_root [OF r(3)] by blast
  define m' where "m' = m\<lparr>eqnodes := ns\<rparr>"
  have "eqmap_find lift k m = Some ((r, nvalue n), m')" using r(1) n by (simp add: eqmap_find_def m'_def)
  moreover have "eqmap_ok m'" "eqv m' = eqv m" using r(2,4) by (simp_all add: eqmap_ok_def eqv_def m'_def)
  moreover have "eqv m k r" unfolding r(4) [symmetric] eqv_in_def using r(3) root_of_root [OF r(3)] by blast
  moreover have "eqsz m' = eqsz m" "root (map_of (eqnodes m')) k r"
    "\<forall>j q. root (map_of (eqnodes m)) j q \<longrightarrow> root (map_of (eqnodes m')) j q"
    using r(3,5) by (simp_all add: m'_def)
  ultimately show ?thesis by blast
qed

lemma keyOf_eqv:
  assumes "eqmap_ok m"
  shows "keyOf lift a m = keyOf lift b m \<longleftrightarrow> eqv m a b"
proof -
  obtain ra va ma where a: "eqmap_find lift a m = Some ((ra, va), ma)" "eqv m a ra"
    "root (map_of (eqnodes ma)) a ra" "\<forall>j q. root (map_of (eqnodes m)) j q \<longrightarrow> root (map_of (eqnodes ma)) j q"
    using eqmap_find_spec [OF assms, of lift a] by blast
  obtain rb vb mb where b: "eqmap_find lift b m = Some ((rb, vb), mb)" "eqv m b rb"
    "root (map_of (eqnodes mb)) b rb" "\<forall>j q. root (map_of (eqnodes m)) j q \<longrightarrow> root (map_of (eqnodes mb)) j q"
    using eqmap_find_spec [OF assms, of lift b] by blast
  note eq = eqv_in_equiv [of "map_of (eqnodes m)", folded eqv_def]
  have "ra = rb" if ab: "eqv m a b"
  proof (cases "a = b")
    case True
    then show ?thesis using a(1) b(1) by simp
  next
    case False
    then obtain r where "root (map_of (eqnodes m)) a r" "root (map_of (eqnodes m)) b r"
      using ab unfolding eqv_def eqv_in_def by blast
    then have "root (map_of (eqnodes ma)) a r" "root (map_of (eqnodes mb)) b r" using a(4) b(4) by blast+
    then show ?thesis using root_unique [OF a(3)] root_unique [OF b(3)] by blast
  qed
  moreover have "eqv m a b" if "ra = rb" using a(2) eq(2) [OF b(2)] eq(3) that by blast
  ultimately show ?thesis using a(1) b(1) by (auto simp: keyOf_def)
qed

lemma addNodes_ok:
  assumes "nodes_ok ns"
  shows "nodes_ok (addNodes lift ks ns) \<and> eqv_in (map_of (addNodes lift ks ns)) = eqv_in (map_of ns)"
  using assms
proof (induction ks arbitrary: ns)
  case (Cons k ks)
  show ?case
  proof (cases "map_of ns k")
    case None
    then have f: "findNode lift k ns = Some (k, AList.update k (newNode lift k) ns)" by (simp add: findNode_def)
    have "nodes_ok (AList.update k (newNode lift k) ns)"
      "eqv_in (map_of (AList.update k (newNode lift k) ns)) = eqv_in (map_of ns)"
      using findNode_spec [OF Cons.prems, of lift k] f by auto
    then show ?thesis using Cons.IH None by (simp add: addNodes_def)
  next
    case (Some n)
    then show ?thesis using Cons by (simp add: addNodes_def)
  qed
qed (simp add: addNodes_def)

text \<open>The pairs that \<open>merge\<close> joins: every node of the other mapping with its root.\<close>

definition rootPairs :: "'k list \<Rightarrow> ('k \<rightharpoonup> ('k, 'v) eqsetmem) \<Rightarrow> ('k \<times> 'k) list" where
  "rootPairs ks M = filter (\<lambda>(k, r). k \<noteq> r) (map (\<lambda>k. (k, THE r. root M k r)) ks)"

lemma the_root: "root M j q \<Longrightarrow> (THE r. root M j r) = q"
  by (rule the_equality) (auto dest: root_unique)

lemma mergeJoins_unites:
  "nodes_ok rhs \<Longrightarrow> set ks \<subseteq> dom (map_of rhs) \<Longrightarrow>
    mergeJoins lift vplus ks rhs m = unites (eqmap_join lift vplus) (rootPairs ks (map_of rhs)) m"
proof (induction ks arbitrary: rhs m)
  case (Cons k ks)
  obtain n where n: "map_of rhs k = Some n" using Cons.prems(2) by auto
  then have "findNode lift k rhs = findRepresentative (length rhs) k rhs" by (simp add: findNode_def)
  then obtain r rhs' where r: "findRepresentative (length rhs) k rhs = Some (r, rhs')" "nodes_ok rhs'"
    "root (map_of rhs') k r" "dom (map_of rhs') = insert k (dom (map_of rhs))"
    "\<forall>j q. root (map_of rhs) j q \<longrightarrow> root (map_of rhs') j q"
    using findNode_spec [OF Cons.prems(1), of lift k] by metis
  have the: "(THE q. root (map_of rhs') j q) = (THE q. root (map_of rhs) j q)" if jd: "j \<in> dom (map_of rhs)" for j
  proof -
    have ok: "uf_ok (map_of rhs)" using Cons.prems(1) by (simp add: nodes_ok_def)
    obtain p where "map_of rhs j = Some p" using jd by blast
    from root_total [OF ok this] obtain q where q: "root (map_of rhs) j q" by blast
    then show ?thesis using the_root [OF q] the_root [of "map_of rhs'" j q] r(5) by simp
  qed
  have kr: "(THE q. root (map_of rhs) k q) = r"
    using the [of k] n the_root [OF r(3)] by (simp add: domI)
  have "rootPairs ks (map_of rhs') = rootPairs ks (map_of rhs)"
    unfolding rootPairs_def using the Cons.prems(2) by (intro arg_cong [where f = "filter _"] map_cong) auto
  moreover have "mergeJoins lift vplus ks rhs' m' = unites (eqmap_join lift vplus) (rootPairs ks (map_of rhs')) m'" for m'
    using Cons.prems(2) r(4) by (intro Cons.IH [OF r(2)]) auto
  ultimately show ?case using r(1) kr by (simp add: rootPairs_def split: option.split)
qed (simp add: rootPairs_def)

lemma rootPairs_eqv:
  assumes "nodes_ok ns"
  shows "set (rootPairs (map fst ns) (map_of ns)) = {(k, r). root (map_of ns) k r \<and> k \<noteq> r}"
proof -
  have ok: "uf_ok (map_of ns)" using assms by (simp add: nodes_ok_def)
  have "(\<exists>k' \<in> set (map fst ns). (k, r) = (k', THE r. root (map_of ns) k' r)) \<longleftrightarrow> root (map_of ns) k r" for k r
  proof
    assume "\<exists>k' \<in> set (map fst ns). (k, r) = (k', THE r. root (map_of ns) k' r)"
    then have kr: "k \<in> fst ` set ns" "r = (THE r. root (map_of ns) k r)" by auto
    then obtain n where "map_of ns k = Some n" by (metis domD dom_map_of_conv_image_fst)
    from root_total [OF ok this] obtain q where "root (map_of ns) k q" by blast
    then show "root (map_of ns) k r" using kr(2) the_root by metis
  next
    assume kr: "root (map_of ns) k r"
    then have "k \<in> fst ` set ns" using root_dom [OF kr] by (metis domI dom_map_of_conv_image_fst)
    then show "\<exists>k' \<in> set (map fst ns). (k, r) = (k', THE r. root (map_of ns) k' r)" using the_root [OF kr] by simp
  qed
  then show ?thesis unfolding rootPairs_def set_filter set_map image_image by blast
qed

text \<open>Merging unites the equalities of the two mappings.\<close>

lemma eqmap_merge_spec:
  assumes "eqmap_ok m" "eqmap_ok rhs"
  shows "\<exists>m' c. eqmap_merge lift vplus rhs m = Some (c, m') \<and> eqmap_ok m' \<and>
    pairs_of (eqv m') = (pairs_of (eqv m) \<union> pairs_of (eqv rhs))\<^sup>*"
proof -
  let ?ks = "map fst (eqnodes rhs)" and ?M = "map_of (eqnodes rhs)"
  let ?P = "set (rootPairs ?ks ?M)" and ?m = "m\<lparr>eqnodes := addNodes lift (map fst (eqnodes rhs)) (eqnodes m)\<rparr>"
  have ok: "nodes_ok (eqnodes rhs)" using assms(2) by (simp add: eqmap_ok_def)
  have m: "eqmap_ok ?m" "eqv ?m = eqv m"
    using addNodes_ok [of "eqnodes m" lift ?ks] assms(1) by (simp_all add: eqmap_ok_def eqv_def)
  obtain m' where m': "unites (eqmap_join lift vplus) (rootPairs ?ks ?M) ?m = Some m'" "eqmap_ok m'"
    "pairs_of (eqv m') = (pairs_of (eqv m) \<union> ?P \<union> ?P\<inverse>)\<^sup>*"
    using eqmap.unites_closure [OF m(1), of lift vplus "rootPairs ?ks ?M"] unfolding m(2) by blast
  have "mergeJoins lift vplus ?ks (eqnodes rhs) ?m = Some m'"
    using mergeJoins_unites [OF ok, of ?ks lift vplus ?m] m'(1) by (simp add: dom_map_of_conv_image_fst)
  then have "eqmap_merge lift vplus rhs m = Some (eqsz m' - eqsz m, m')" by (simp add: eqmap_merge_def Let_def)
  moreover have "(pairs_of (eqv m) \<union> ?P \<union> ?P\<inverse>)\<^sup>* = (pairs_of (eqv m) \<union> pairs_of (eqv rhs))\<^sup>*"
  proof (rule equalityI)
    have "?P \<union> ?P\<inverse> \<subseteq> pairs_of (eqv rhs)"
      unfolding rootPairs_eqv [OF ok] pairs_of_def eqv_def eqv_in_def using root_of_root by fast
    then show "(pairs_of (eqv m) \<union> ?P \<union> ?P\<inverse>)\<^sup>* \<subseteq> (pairs_of (eqv m) \<union> pairs_of (eqv rhs))\<^sup>*"
      by (intro rtrancl_mono) blast
    let ?C = "(pairs_of (eqv m) \<union> ?P \<union> ?P\<inverse>)\<^sup>*"
    have "(a, b) \<in> ?C" if ab: "eqv rhs a b" for a b
    proof (cases "a = b")
      case False
      then obtain r where r: "root ?M a r" "root ?M b r" using ab unfolding eqv_def eqv_in_def by blast
      have "(a, r) \<in> ?C" using r(1) by (cases "a = r") (auto simp: rootPairs_eqv [OF ok])
      moreover have "(r, b) \<in> ?C" using r(2) by (cases "b = r") (auto simp: rootPairs_eqv [OF ok])
      ultimately show ?thesis by (rule rtrancl_trans)
    qed simp
    then have "pairs_of (eqv rhs) \<subseteq> ?C" by (auto simp: pairs_of_def)
    moreover have "pairs_of (eqv m) \<subseteq> ?C" by blast
    ultimately show "(pairs_of (eqv m) \<union> pairs_of (eqv rhs))\<^sup>* \<subseteq> ?C" by (intro rtrancl_subset_rtrancl Un_least)
  qed
  ultimately show ?thesis using m'(2,3) by auto
qed

lemma eqmap_empty_ok: "eqmap_ok eqmap_empty" "pairs_of (eqv (eqmap_empty :: ('k, 'v) equivalence_mapping)) = Id"
proof -
  have "\<not> root (\<lambda>k. None :: ('k, 'v) eqsetmem option) a r" for a r by (auto elim: root.cases)
  then show "pairs_of (eqv (eqmap_empty :: ('k, 'v) equivalence_mapping)) = Id"
    by (auto simp: pairs_of_def eqv_def eqv_in_def eqmap_empty_def)
qed (simp add: eqmap_ok_def nodes_ok_def uf_ok_def eqmap_empty_def)

section \<open>Properties\<close>


end
