(* ===== verification/Unifier.thy ===== *)
theory Unifier
  imports Type_Show Type_Env Union_Find
begin

text \<open>
  Unification of types: \<open>MonoTypeUnifier\<close> of \<^verbatim>\<open>lib/hobbes/lang/typeinf.C\<close>. Types that have to be equal
  are joined in an equivalence mapping; the value of a set is its most defined member.

  The operations change the unifier even when they throw, so a result is an error or a value
  together with the unifier that is left. Neither \<open>unify\<close> nor \<open>substitute\<close> is known to end, so
  both have fuel; \<open>NoReturn\<close> says that it was not enough.
\<close>

section \<open>Results with a state\<close>

type_synonym ('s, 'x, 'a) state_res = "('x + 'a) \<times> 's"

definition bindS :: "('s, 'x, 'a) state_res \<Rightarrow> ('a \<Rightarrow> 's \<Rightarrow> ('s, 'x, 'b) state_res) \<Rightarrow> ('s, 'x, 'b) state_res" where
  "bindS r f = (case r of (Inl e, s) \<Rightarrow> (Inl e, s) | (Inr a, s) \<Rightarrow> f a s)"

fun mapS :: "('a \<Rightarrow> 's \<Rightarrow> ('s, 'x, 'b) state_res) \<Rightarrow> 'a list \<Rightarrow> 's \<Rightarrow> ('s, 'x, 'b list) state_res" where
  "mapS f [] s = (Inr [], s)"
| "mapS f (x # xs) s = bindS (f x s) (\<lambda>y s. bindS (mapS f xs s) (\<lambda>ys s. (Inr (y # ys), s)))"

fun eachS :: "('a \<Rightarrow> 's \<Rightarrow> ('s, 'x, unit) state_res) \<Rightarrow> 'a list \<Rightarrow> 's \<Rightarrow> ('s, 'x, unit) state_res" where
  "eachS f [] s = (Inr (), s)"
| "eachS f (x # xs) s = bindS (f x s) (\<lambda>_ s. eachS f xs s)"

lemma bindS_simps [simp]: "bindS (Inl e, s) f = (Inl e, s)" "bindS (Inr a, s) f = f a s"
  by (simp_all add: bindS_def)

lemma bindS_cong [fundef_cong]:
  "r = r' \<Longrightarrow> (\<And>a s. r' = (Inr a, s) \<Longrightarrow> f a s = g a s) \<Longrightarrow> bindS r f = bindS r' g"
  by (auto simp: bindS_def split: prod.splits sum.splits)

lemma mapS_cong [fundef_cong]:
  "xs = ys \<Longrightarrow> s = s' \<Longrightarrow> (\<And>x t. x \<in> set ys \<Longrightarrow> f x t = g x t) \<Longrightarrow> mapS f xs s = mapS g ys s'"
  by (induction ys arbitrary: xs s s') (auto intro!: bindS_cong)

lemma eachS_cong [fundef_cong]:
  "xs = ys \<Longrightarrow> s = s' \<Longrightarrow> (\<And>x t. x \<in> set ys \<Longrightarrow> f x t = g x t) \<Longrightarrow> eachS f xs s = eachS g ys s'"
  by (induction ys arbitrary: xs s s') (auto intro!: bindS_cong)

section \<open>Unifiers\<close>

record 'e utype =
  uty :: "'e mono_type"
  uvisited :: bool
  udonebc :: nat

definition liftUType :: "'e mono_type \<Rightarrow> 'e utype" where
  "liftUType t = \<lparr>uty = t, uvisited = False, udonebc = 0\<rparr>"

definition moreDefined :: "'e utype \<Rightarrow> 'e utype \<Rightarrow> 'e utype" where
  "moreDefined lhs rhs =
     (case uty lhs of
        TVar lv \<Rightarrow> (case uty rhs of TVar rv \<Rightarrow> if lv < rv then lhs else rhs | _ \<Rightarrow> rhs)
      | _ \<Rightarrow>
          (case uty rhs of
             TVar rv \<Rightarrow> lhs
           | _ \<Rightarrow> if card (freeTVars (uty lhs)) < card (freeTVars (uty rhs)) then lhs else rhs))"

record 'e unifier =
  um :: "('e mono_type, 'e utype) equivalence_mapping"
  ubcount :: nat
  usuppress :: "(string \<times> nat) list"

datatype 'e unify_error =
    CannotUnify "'e mono_type" "'e mono_type" | InfiniteType | ParamListMismatch | TypeError type_error | NoReturn

type_synonym ('e, 'a) ures = "('e unifier, 'e unify_error, 'a) state_res"

text \<open>
  What the unifier needs of the other parts: the size of applied type functions and the fuel of
  substitution for records and for printing, the printer of expressions, and the substitution in
  expressions within types.
\<close>

record 'e uenv =
  ueBeta :: "'e beta"
  ueFuel :: nat
  ueShow :: "'e \<Rightarrow> string"
  ueSubst :: "'e \<Rightarrow> 'e unifier \<Rightarrow> ('e, 'e) ures"

definition newUnifier :: "'e unifier" where
  "newUnifier = \<lparr>um = eqmap_empty, ubcount = 0, usuppress = []\<rparr>"

definition suppress :: "string \<Rightarrow> 'e unifier \<Rightarrow> 'e unifier" where
  "suppress vn u =
     u\<lparr>usuppress := AList.update vn ((case map_of (usuppress u) vn of Some n \<Rightarrow> n | None \<Rightarrow> 0) + 1) (usuppress u)\<rparr>"

definition suppressAll :: "string list \<Rightarrow> 'e unifier \<Rightarrow> 'e unifier" where
  "suppressAll vns u = fold suppress vns u"

definition unsuppress :: "string \<Rightarrow> 'e unifier \<Rightarrow> 'e unifier" where
  "unsuppress vn u =
     (case map_of (usuppress u) vn of
        None \<Rightarrow> u
      | Some n \<Rightarrow>
          if n - 1 = 0 then u\<lparr>usuppress := AList.delete vn (usuppress u)\<rparr>
          else u\<lparr>usuppress := AList.update vn (n - 1) (usuppress u)\<rparr>)"

definition unsuppressAll :: "string list \<Rightarrow> 'e unifier \<Rightarrow> 'e unifier" where
  "unsuppressAll vns u = fold unsuppress vns u"

definition suppressed :: "string \<Rightarrow> 'e unifier \<Rightarrow> bool" where
  "suppressed vn u = (case map_of (usuppress u) vn of None \<Rightarrow> False | Some n \<Rightarrow> 0 < n)"

definition suppressedTy :: "'e mono_type \<Rightarrow> 'e unifier \<Rightarrow> bool" where
  "suppressedTy t u = (case t of TVar n \<Rightarrow> suppressed n u | _ \<Rightarrow> False)"

text \<open>\<open>find\<close> gives a reference to the value of a set; the model gives the node and reads it there.\<close>

definition unifyFind :: "'e mono_type \<Rightarrow> 'e unifier \<Rightarrow> ('e, 'e mono_type) ures" where
  "unifyFind t u =
     (case eqmap_find liftUType t (um u) of
        None \<Rightarrow> (Inl NoReturn, u)
      | Some ((r, v), m) \<Rightarrow> (Inr r, u\<lparr>um := m\<rparr>))"

definition valueOf :: "'e mono_type \<Rightarrow> 'e unifier \<Rightarrow> 'e utype" where
  "valueOf r u = (case map_of (eqnodes (um u)) r of None \<Rightarrow> liftUType r | Some n \<Rightarrow> nvalue n)"

definition setValue :: "'e mono_type \<Rightarrow> 'e utype \<Rightarrow> 'e unifier \<Rightarrow> 'e unifier" where
  "setValue r v u = u\<lparr>um := setNodeValue r v (um u)\<rparr>"

definition joinU :: "'e mono_type \<Rightarrow> 'e mono_type \<Rightarrow> 'e unifier \<Rightarrow> ('e, unit) ures" where
  "joinU a b u =
     (case eqmap_join liftUType moreDefined a b (um u) of
        None \<Rightarrow> (Inl NoReturn, u)
      | Some m \<Rightarrow> (Inr (), u\<lparr>um := m\<rparr>))"

definition binding :: "string \<Rightarrow> 'e unifier \<Rightarrow> ('e, 'e mono_type) ures" where
  "binding vn u = bindS (unifyFind (TVar vn) u) (\<lambda>r u. (Inr (uty (valueOf r u)), u))"

section \<open>Constructor form\<close>

text \<open>A type as the name of its constructor, its parts, and the variables it binds.\<close>

fun ctorForm :: "'e uenv \<Rightarrow> 'e mono_type \<Rightarrow> type_error + string \<times> 'e mono_type list \<times> string list" where
  "ctorForm E (Prim nm rep) = Inr (''prim:'' @ nm, [], [])"
| "ctorForm E (OpaquePtr nm sz c) = Inr (''ptr'' @ (if c then ''c'' else []) @ '':'' @ nm, [], [])"
| "ctorForm E (TVar n) = Inr (''var:'' @ n, [], [])"
| "ctorForm E (TGen x) = Inr (''tgen:'' @ showInt (sint x), [], [])"
| "ctorForm E (TAbs ns b) =
     mapR (\<lambda>s. (''tabs:'' @ s, [], [])) (showTy (ueBeta E) (ueFuel E) (ueShow E) (ueFuel E) (TAbs ns b))"
| "ctorForm E (TApp f args) = Inr (''tapp'', f # args, [])"
| "ctorForm E (FixedArray ty len) = Inr (''farray'', [arrType ty, len], [])"
| "ctorForm E (Array ty) = Inr (''array'', [arrType ty], [])"
| "ctorForm E (Variant ms) = Inr (''variant:'' @ concat (map (\<lambda>m. mlabel m @ ''=;'') ms), map mtype ms, [])"
| "ctorForm E (Record ms) = Inr (''record:'' @ concat (map (\<lambda>m. mlabel m @ ''=;'') ms), map mtype ms, [])"
| "ctorForm E (Func a r) = Inr (''->'', [a, r], [])"
| "ctorForm E (Exists n b) = Inr (''exists'', [b], [n])"
| "ctorForm E (Recursive n b) = Inr (''recur'', [b], [n])"
| "ctorForm E (TString x) = Inr (''string:'' @ x, [], [])"
| "ctorForm E (TLong x) = Inr (''long:'' @ showInt (sint x), [], [])"
| "ctorForm E (TExpr e) = Inr (''expr:'' @ ueShow E e, [], [])"

section \<open>Substitution\<close>

text \<open>A node is marked while its parts are resolved; an exception leaves the mark.\<close>

definition visiting ::
  "'e mono_type \<Rightarrow> ('e unifier \<Rightarrow> ('e, 'a) ures) \<Rightarrow> 'e unifier \<Rightarrow> ('e, 'a) ures" where
  "visiting r f u =
     bindS (f (setValue r ((valueOf r u)\<lparr>uvisited := True\<rparr>) u))
       (\<lambda>a u. (Inr a, setValue r ((valueOf r u)\<lparr>uvisited := False\<rparr>) u))"

definition liftR :: "type_error + 'a \<Rightarrow> 'e unifier \<Rightarrow> ('e, 'a) ures" where
  "liftR r u = (case r of Inl e \<Rightarrow> (Inl (TypeError e), u) | Inr a \<Rightarrow> (Inr a, u))"

lemma visiting_cong [fundef_cong]:
  "r = r' \<Longrightarrow> u = u' \<Longrightarrow> (\<And>v. f v = g v) \<Longrightarrow> visiting r f u = visiting r' g u'"
  by (simp add: visiting_def)

function substU :: "'e uenv \<Rightarrow> nat \<Rightarrow> 'e mono_type \<Rightarrow> 'e unifier \<Rightarrow> ('e, 'e mono_type) ures"
  and substInto :: "'e uenv \<Rightarrow> nat \<Rightarrow> 'e mono_type \<Rightarrow> 'e mono_type \<Rightarrow> 'e unifier \<Rightarrow> ('e, 'e mono_type) ures" where
  "substU E 0 t u = (Inl NoReturn, u)"
| "substU E (Suc n) t u =
     (if isMonoSingular t then (Inr t, u)
      else bindS (unifyFind t u) (\<lambda>r u.
        let v = valueOf r u in
        if 0 < udonebc v \<and> udonebc v = ubcount u then (Inr (uty v), u)
        else if uvisited v then (Inl InfiniteType, u)
        else bindS (substInto E n r (uty v) u) (\<lambda>t' u.
          (Inr t', setValue r ((valueOf r u)\<lparr>uty := t', udonebc := ubcount u\<rparr>) u))))"
| "substInto E n r (Prim nm rep) u = (Inr (Prim nm rep), u)"
| "substInto E n r (OpaquePtr nm sz c) u = (Inr (opaqueMake nm sz c), u)"
| "substInto E n r (TVar vn) u = binding vn u"
| "substInto E n r (TGen x) u = (Inr (TGen x), u)"
| "substInto E n r (TAbs ns b) u = bindS (substInto E n r b u) (\<lambda>b' u. (Inr (TAbs ns b'), u))"
| "substInto E n r (TApp f args) u =
     visiting r (\<lambda>u. bindS (substU E n f u) (\<lambda>f' u.
       bindS (mapS (substU E n) args u) (\<lambda>args' u. (Inr (TApp f' args'), u)))) u"
| "substInto E n r (FixedArray ty len) u =
     visiting r (\<lambda>u. bindS (substU E n (arrType ty) u) (\<lambda>ty' u.
       bindS (substU E n len u) (\<lambda>len' u. (Inr (FixedArray ty' len'), u)))) u"
| "substInto E n r (Array ty) u =
     visiting r (\<lambda>u. bindS (substU E n (arrType ty) u) (\<lambda>ty' u. (Inr (Array ty'), u))) u"
| "substInto E n r (Variant ms) u =
     visiting r (\<lambda>u. bindS (mapS (substU E n) (map mtype ms) u) (\<lambda>ts u.
       (Inr (Variant (map2 (\<lambda>m t. Member (mlabel m) t (mnum m)) ms ts)), u))) u"
| "substInto E n r (Record ms) u =
     bindS (visiting r (mapS (substU E n) (map mtype ms)) u) (\<lambda>ts u.
       liftR (recordMake (ueBeta E) (map2 (\<lambda>m t. Member (mlabel m) t (mnum m)) ms ts)) u)"
| "substInto E n r (Func a b) u =
     visiting r (\<lambda>u. bindS (substU E n a u) (\<lambda>a' u.
       bindS (substU E n b u) (\<lambda>b' u. (Inr (Func a' b'), u)))) u"
| "substInto E n r (Exists x b) u =
     visiting r (\<lambda>u. bindS (substU E n b u) (\<lambda>b' u. (Inr (Exists x b'), u))) u"
| "substInto E n r (Recursive x b) u =
     visiting r (\<lambda>u. bindS (substU E n b u) (\<lambda>b' u. (Inr (Recursive x b'), u))) u"
| "substInto E n r (TString x) u = (Inr (TString x), u)"
| "substInto E n r (TLong x) u = (Inr (TLong x), u)"
| "substInto E n r (TExpr e) u = visiting r (\<lambda>u. bindS (ueSubst E e u) (\<lambda>e' u. (Inr (TExpr e'), u))) u"
  by pat_completeness auto
termination substU
  by (relation "inv_image (less_than <*lex*> less_than <*lex*> less_than)
     (\<lambda>a. case a of Inl (E, n, t, u) \<Rightarrow> (n, 0, 0) | Inr (E, n, r, t, u) \<Rightarrow> (n, 1, size t))") auto

definition substTs :: "'e uenv \<Rightarrow> nat \<Rightarrow> 'e mono_type list \<Rightarrow> 'e unifier \<Rightarrow> ('e, 'e mono_type list) ures" where
  "substTs E n ts u = mapS (substU E n) ts u"

section \<open>Unification\<close>

definition isTVar :: "'e mono_type \<Rightarrow> bool" where
  "isTVar t = (case t of TVar n \<Rightarrow> True | _ \<Rightarrow> False)"

text \<open>
  The message shows both types, resolved first; that may throw instead. \<open>lhsv\<close> and \<open>rhsv\<close> are
  references to the values of two nodes, and the final \<open>join\<close> reads them again.
\<close>

definition cannotUnify :: "'e uenv \<Rightarrow> nat \<Rightarrow> 'e mono_type \<Rightarrow> 'e mono_type \<Rightarrow> 'e unifier \<Rightarrow> ('e, 'a) ures" where
  "cannotUnify E n a b u =
     bindS (substU E n a u) (\<lambda>a' u. bindS (substU E n b u) (\<lambda>b' u. (Inl (CannotUnify a' b'), u)))"

fun unify :: "'e uenv \<Rightarrow> nat \<Rightarrow> 'e mono_type \<Rightarrow> 'e mono_type \<Rightarrow> 'e unifier \<Rightarrow> ('e, unit) ures" where
  "unify E 0 lhs rhs u = (Inl NoReturn, u)"
| "unify E (Suc n) lhs rhs u =
     (if suppressedTy lhs u \<or> suppressedTy rhs u then (Inr (), u)
      else bindS (unifyFind lhs u) (\<lambda>l u. bindS (unifyFind rhs u) (\<lambda>r u.
        let lhsv = uty (valueOf l u); rhsv = uty (valueOf r u) in
        if lhsv = rhsv then (Inr (), u)
        else bindS
          (if \<not> isTVar lhsv \<and> \<not> isTVar rhsv then
             bindS (liftR (ctorForm E lhsv) u) (\<lambda>(lcn, lts, lig) u.
             bindS (liftR (ctorForm E rhsv) u) (\<lambda>(rcn, rts, rig) u.
               if length lts \<noteq> length rts \<or> lcn \<noteq> rcn then cannotUnify E n lhsv rhsv u
               else (case eachS (\<lambda>(a, b). unify E n a b) (zip lts rts) (suppressAll (lig @ rig) u) of
                       (res, u) \<Rightarrow> (res, unsuppressAll (lig @ rig) u))))
           else (Inr (), u\<lparr>ubcount := ubcount u + 1\<rparr>))
          (\<lambda>_ u. joinU (uty (valueOf l u)) (uty (valueOf r u)) u))))"

definition bind :: "'e uenv \<Rightarrow> nat \<Rightarrow> string \<Rightarrow> 'e mono_type \<Rightarrow> 'e unifier \<Rightarrow> ('e, unit) ures" where
  "bind E n vn t u = unify E n (TVar vn) t u"

definition mergeU :: "'e unifier \<Rightarrow> 'e unifier \<Rightarrow> ('e, nat) ures" where
  "mergeU v u =
     (case eqmap_merge liftUType moreDefined (um v) (um u) of
        None \<Rightarrow> (Inl NoReturn, u)
      | Some (c, m) \<Rightarrow> (Inr c, u\<lparr>um := m\<rparr>))"

text \<open>The copy of a unifier has its equalities and its count, but suppresses nothing.\<close>

definition copyU :: "'e unifier \<Rightarrow> ('e, nat) ures" where
  "copyU v = mergeU v (newUnifier\<lparr>ubcount := ubcount v\<rparr>)"

fun substitutionOf :: "'e uenv \<Rightarrow> nat \<Rightarrow> 'e mono_type list \<Rightarrow> 'e unifier \<Rightarrow> ('e, (string \<times> 'e mono_type) list) ures" where
  "substitutionOf E n [] u = (Inr [], u)"
| "substitutionOf E n (TVar vn # ts) u =
     bindS (substU E n (TVar vn) u) (\<lambda>bv u. bindS (substitutionOf E n ts u) (\<lambda>r u.
       (Inr (if bv \<noteq> TVar vn then (vn, bv) # r else r), u)))"
| "substitutionOf E n (t # ts) u = substitutionOf E n ts u"

definition substitutionU :: "'e uenv \<Rightarrow> nat \<Rightarrow> 'e unifier \<Rightarrow> ('e, (string \<times> 'e mono_type) list) ures" where
  "substitutionU E n u = substitutionOf E n (eqmap_values (um u)) u"

section \<open>Most general unifiers\<close>

definition mgu :: "'e uenv \<Rightarrow> nat \<Rightarrow> 'e mono_type \<Rightarrow> 'e mono_type \<Rightarrow> 'e unifier \<Rightarrow> ('e, unit) ures" where
  "mgu E n t0 t1 u = unify E n t0 t1 u"

definition mguTs :: "'e uenv \<Rightarrow> nat \<Rightarrow> 'e mono_type list \<Rightarrow> 'e mono_type list \<Rightarrow> 'e unifier \<Rightarrow> ('e, unit) ures" where
  "mguTs E n t0s t1s u =
     (if length t0s = length t1s then eachS (\<lambda>(a, b). mgu E n a b) (zip t0s t1s) u
      else (Inl ParamListMismatch, u))"

definition mguQ :: "'e uenv \<Rightarrow> nat \<Rightarrow> 'e qual_type \<Rightarrow> 'e qual_type \<Rightarrow> 'e unifier \<Rightarrow> ('e, unit) ures" where
  "mguQ E n t0 t1 u = mgu E n (qmono t0) (qmono t1) u"

definition typeSeqForm :: "'e constraint \<Rightarrow> 'e mono_type list" where
  "typeSeqForm c = TString (cat c) # cargs c"

definition mguC :: "'e uenv \<Rightarrow> nat \<Rightarrow> 'e constraint \<Rightarrow> 'e constraint \<Rightarrow> 'e unifier \<Rightarrow> ('e, unit) ures" where
  "mguC E n c0 c1 u = mguTs E n (typeSeqForm c0) (typeSeqForm c1) u"

text \<open>\<open>unifiable\<close> catches what is thrown; \<open>None\<close> means that it does not return with this fuel.\<close>

definition caught :: "('e, 'a) ures \<Rightarrow> bool option" where
  "caught r = (case fst r of Inr a \<Rightarrow> Some True | Inl e \<Rightarrow> if e = NoReturn then None else Some False)"

definition unifiable :: "'e uenv \<Rightarrow> nat \<Rightarrow> 'e mono_type \<Rightarrow> 'e mono_type \<Rightarrow> bool option" where
  "unifiable E n t0 t1 =
     (if t0 = t1 then Some True
      else caught (bindS (mgu E n t0 t1 newUnifier) (\<lambda>_ u. substU E n t0 u)))"

definition unifiableTs :: "'e uenv \<Rightarrow> nat \<Rightarrow> 'e mono_type list \<Rightarrow> 'e mono_type list \<Rightarrow> bool option" where
  "unifiableTs E n ts0 ts1 =
     (if length ts0 \<noteq> length ts1 then Some False
      else if ts0 = [] then Some True
      else caught (bindS (eachS (\<lambda>(a, b) u. if a \<noteq> b then mgu E n a b u else (Inr (), u)) (zip ts0 ts1) newUnifier)
        (\<lambda>_ u. substU E n (hd ts0) u)))"

definition unifiableC :: "'e uenv \<Rightarrow> nat \<Rightarrow> 'e constraint \<Rightarrow> 'e constraint \<Rightarrow> bool option" where
  "unifiableC E n c0 c1 = unifiableTs E n (typeSeqForm c0) (typeSeqForm c1)"

definition liftQualifiers :: "'e qual_type list \<Rightarrow> 'e constraint list \<times> 'e mono_type list" where
  "liftQualifiers qts = (foldl (\<lambda>cs q. mergeConstraints cs (qconstraints q)) [] qts, map qmono qts)"

section \<open>Constraints and qualified types\<close>

definition updateC :: "'e uenv \<Rightarrow> nat \<Rightarrow> 'e constraint \<Rightarrow> 'e unifier \<Rightarrow> ('e, 'e constraint) ures" where
  "updateC E n c u = bindS (substTs E n (cargs c) u) (\<lambda>ts u. (Inr (c\<lparr>cargs := ts\<rparr>), u))"

definition substQ :: "'e uenv \<Rightarrow> nat \<Rightarrow> 'e qual_type \<Rightarrow> 'e unifier \<Rightarrow> ('e, 'e qual_type) ures" where
  "substQ E n q u =
     bindS (mapS (updateC E n) (qconstraints q) u) (\<lambda>cs u.
     bindS (substU E n (qmono q) u) (\<lambda>t u. (Inr (qualtype cs t), u)))"

text \<open>
  A constraint that is still open may give the unifier new equalities; \<open>rf\<close> is what its predicate
  does, found in the environment.
\<close>

definition refineC ::
  "'e uenv \<Rightarrow> nat \<Rightarrow> ('e constraint \<Rightarrow> 'e unifier \<Rightarrow> ('e, bool) ures) \<Rightarrow> 'e constraint \<Rightarrow> 'e unifier \<Rightarrow> ('e, bool \<times> 'e constraint) ures" where
  "refineC E n rf c u =
     (if cstate c \<noteq> Unresolved then (Inr (False, c), u)
      else bindS (updateC E n c u) (\<lambda>c u. bindS (rf c u) (\<lambda>b u.
        if b then bindS (updateC E n c u) (\<lambda>c u. (Inr (True, c), u)) else (Inr (False, c), u))))"

text \<open>All constraints are refined until none gives anything new; \<open>k\<close> bounds the number of rounds.\<close>

fun refineCs ::
  "'e uenv \<Rightarrow> nat \<Rightarrow> ('e constraint \<Rightarrow> 'e unifier \<Rightarrow> ('e, bool) ures) \<Rightarrow> nat \<Rightarrow> 'e constraint list \<Rightarrow> 'e unifier \<Rightarrow> ('e, 'e constraint list) ures" where
  "refineCs E n rf 0 cs u = (Inl NoReturn, u)"
| "refineCs E n rf (Suc k) cs u =
     bindS (mapS (refineC E n rf) cs u) (\<lambda>rs u.
       if list_ex fst rs then refineCs E n rf k (map snd rs) u else (Inr (map snd rs), u))"

end
