(* ===== verification/Unifier_Correct.thy ===== *)
theory Unifier_Correct
  imports Unifier
begin

text \<open>
  What unification computes: first where the values of an equivalence mapping come from, then the
  meaning of a unifier as the set of assignments that solve it, and the theorem that \<open>mgu\<close> on
  types without bound variables is exact. The last part holds what goes wrong: types with bound
  variables, and cyclic types.
\<close>

section \<open>Values in an equivalence mapping\<close>

text \<open>The value of a key, which is the value of its node or the one it would get.\<close>

definition valueAt :: "('k \<Rightarrow> 'v) \<Rightarrow> ('k, 'v) nodes \<Rightarrow> 'k \<Rightarrow> 'v" where
  "valueAt lift ns j = (case map_of ns j of Some n \<Rightarrow> nvalue n | None \<Rightarrow> lift j)"

lemma findRepresentative_values:
  "findRepresentative f k ns = Some (r, ns') \<Longrightarrow>
    valueAt lift ns' = valueAt lift ns \<and> dom (map_of ns') = dom (map_of ns)"
proof (induction f arbitrary: k r ns')
  case (Suc f)
  then obtain n where n: "map_of ns k = Some n" by (auto split: option.splits)
  show ?case
  proof (cases "nrep n = k")
    case True
    then show ?thesis using Suc.prems n by simp
  next
    case False
    then obtain ns1 where 1: "findRepresentative f (nrep n) ns = Some (r, ns1)" "ns' = AList.update k (n\<lparr>nrep := r\<rparr>) ns1"
      using Suc.prems n by (auto split: option.splits)
    note ih = Suc.IH [OF 1(1)]
    have v: "valueAt lift ns1 = valueAt lift ns" using ih by blast
    have "valueAt lift ns k = nvalue n" using n by (simp add: valueAt_def)
    then have "valueAt lift ns' = valueAt lift ns"
      using v by (auto simp: 1(2) valueAt_def update_conv' fun_eq_iff)
    moreover have "dom (map_of ns') = dom (map_of ns)" using ih n by (auto simp: 1(2) update_conv')
    ultimately show ?thesis by blast
  qed
qed simp

lemma findNode_values:
  assumes "findNode lift k ns = Some (r, ns')"
  shows "valueAt lift ns' = valueAt lift ns \<and> dom (map_of ns') = insert k (dom (map_of ns))"
proof (cases "map_of ns k")
  case None
  then have "ns' = AList.update k (newNode lift k) ns" using assms by (auto simp: findNode_def)
  then show ?thesis using None by (auto simp: newNode_def valueAt_def update_conv' fun_eq_iff)
next
  case (Some n)
  then have "findRepresentative (length ns) k ns = Some (r, ns')" using assms by (simp add: findNode_def)
  then show ?thesis using findRepresentative_values [where lift = lift] Some by (metis domI insert_absorb)
qed

lemma eqmap_find_values:
  assumes "eqmap_find lift k m = Some ((r, v), m')"
  shows "valueAt lift (eqnodes m') = valueAt lift (eqnodes m)" "dom (map_of (eqnodes m')) = insert k (dom (map_of (eqnodes m)))"
    "v = valueAt lift (eqnodes m) r" "r \<in> dom (map_of (eqnodes m'))"
proof -
  from assms obtain ns n where ns: "findNode lift k (eqnodes m) = Some (r, ns)" "map_of ns r = Some n" "v = nvalue n"
    "m' = m\<lparr>eqnodes := ns\<rparr>"
    by (auto simp: eqmap_find_def split: option.splits)
  note s = findNode_values [OF ns(1)]
  then show "valueAt lift (eqnodes m') = valueAt lift (eqnodes m)"
    "dom (map_of (eqnodes m')) = insert k (dom (map_of (eqnodes m)))" using ns(4) by simp_all
  have "valueAt lift ns r = v" using ns(2,3) by (simp add: valueAt_def)
  then show "v = valueAt lift (eqnodes m) r" using s by simp
  show "r \<in> dom (map_of (eqnodes m'))" using ns(2,4) by auto
qed

lemma linkNodes_values:
  assumes "linkNodes vplus l r ns = Some ns'"
  shows "dom (map_of ns') = dom (map_of ns)"
    "valueAt lift ns' j = valueAt lift ns j \<or>
      (j = l \<or> j = r) \<and> (valueAt lift ns' j = vplus (valueAt lift ns l) (valueAt lift ns r) \<or>
        valueAt lift ns' j = vplus (valueAt lift ns r) (valueAt lift ns l))"
proof -
  from assms obtain nl nr where n: "map_of ns l = Some nl" "map_of ns r = Some nr"
    by (auto simp: linkNodes_def split: option.splits)
  show "dom (map_of ns') = dom (map_of ns)"
    using assms n by (auto simp: linkNodes_def update_conv' split: if_splits)
  show "valueAt lift ns' j = valueAt lift ns j \<or>
      (j = l \<or> j = r) \<and> (valueAt lift ns' j = vplus (valueAt lift ns l) (valueAt lift ns r) \<or>
        valueAt lift ns' j = vplus (valueAt lift ns r) (valueAt lift ns l))"
    using assms n by (auto simp: linkNodes_def update_conv' valueAt_def split: if_splits)
qed

lemma eqmap_join_values:
  assumes ok: "eqmap_ok m" and join: "eqmap_join lift vplus a b m = Some m'"
  obtains l r where "eqv m a l" "eqv m b r" "l \<in> dom (map_of (eqnodes m'))" "r \<in> dom (map_of (eqnodes m'))"
    "dom (map_of (eqnodes m')) = insert a (insert b (dom (map_of (eqnodes m))))"
    "\<And>j. valueAt lift (eqnodes m') j = valueAt lift (eqnodes m) j \<or>
      (j = l \<or> j = r) \<and> (valueAt lift (eqnodes m') j = vplus (valueAt lift (eqnodes m) l) (valueAt lift (eqnodes m) r) \<or>
        valueAt lift (eqnodes m') j = vplus (valueAt lift (eqnodes m) r) (valueAt lift (eqnodes m) l))"
proof -
  obtain l ns where l: "findNode lift a (eqnodes m) = Some (l, ns)" "nodes_ok ns" "root (map_of ns) a l"
    "eqv_in (map_of ns) = eqv m"
    using findNode_spec [of "eqnodes m" lift a] ok unfolding eqmap_ok_def eqv_def by blast
  obtain r ns' where r: "findNode lift b ns = Some (r, ns')" "root (map_of ns') b r" "root (map_of ns') a l"
    "eqv_in (map_of ns') = eqv_in (map_of ns)"
    using findNode_spec [OF l(2), of lift b] l(3) by blast
  have e: "eqv m a l" unfolding l(4) [symmetric] eqv_in_def using l(3) root_of_root [OF l(3)] by blast
  have e': "eqv m b r"
    unfolding l(4) [symmetric] r(4) [symmetric] eqv_in_def using r(2) root_of_root [OF r(2)] by blast
  have lr: "l \<in> dom (map_of ns')" "r \<in> dom (map_of ns')" using root_is_root [OF r(3)] root_is_root [OF r(2)] by auto
  have v: "valueAt lift ns' = valueAt lift (eqnodes m)" "dom (map_of ns') = insert a (insert b (dom (map_of (eqnodes m))))"
    using findNode_values [OF l(1)] findNode_values [OF r(1)] by auto
  show ?thesis
  proof (cases "linkNodes vplus l r ns'")
    case None
    then have "m' = m\<lparr>eqnodes := ns'\<rparr>" using join l(1) r(1) by (simp add: eqmap_join_def)
    then show ?thesis by (intro that [OF e e']) (use lr v in simp_all)
  next
    case (Some ns'')
    then have m': "eqnodes m' = ns''" using join l(1) r(1) by (auto simp: eqmap_join_def)
    have d: "dom (map_of (eqnodes m')) = dom (map_of ns')" using linkNodes_values(1) [OF Some] by (simp add: m')
    show ?thesis
    proof (rule that [OF e e'])
      show "l \<in> dom (map_of (eqnodes m'))" "r \<in> dom (map_of (eqnodes m'))" using lr by (simp_all add: d)
      show "dom (map_of (eqnodes m')) = insert a (insert b (dom (map_of (eqnodes m))))" using v(2) d by simp
    qed (use linkNodes_values(2) [OF Some, where lift = lift] in \<open>simp only: m' v(1)\<close>)
  qed
qed

section \<open>What a type looks like\<close>

text \<open>
  The unifier sees a type as a tree of constructor names. \<open>formOf E \<sigma> t\<close> is the tree of \<open>t\<close> when its
  variables stand for the trees that \<open>\<sigma>\<close> gives.
\<close>

datatype form = Form string "form list"

lemma ctorForm_size:
  "ctorForm E t = Inr (cn, ts, ig) \<Longrightarrow> x \<in> set ts \<Longrightarrow> size x < size t"
proof (cases t)
  case (TApp f args)
  assume "ctorForm E t = Inr (cn, ts, ig)" "x \<in> set ts"
  then show ?thesis using TApp size_list_estimation' [of x args "size x" size] by auto
qed (auto dest: member_size simp: mapR_Inr_iff)

function formOf :: "'e uenv \<Rightarrow> (string \<Rightarrow> form) \<Rightarrow> 'e mono_type \<Rightarrow> form" where
  "formOf E \<sigma> t =
     (if isTVar t then (case t of TVar n \<Rightarrow> \<sigma> n)
      else (case ctorForm E t of Inl e \<Rightarrow> Form [] [] | Inr (cn, ts, ig) \<Rightarrow> Form cn (map (formOf E \<sigma>) ts)))"
  by pat_completeness auto
termination formOf
  by (relation "measure (\<lambda>(E, \<sigma>, t). size t)") (auto intro: ctorForm_size)

declare formOf.simps [simp del]

lemma formOf_node:
  "ctorForm E t = Inr (cn, ts, ig) \<Longrightarrow> \<not> isTVar t \<Longrightarrow> formOf E \<sigma> t = Form cn (map (formOf E \<sigma>) ts)"
  by (subst formOf.simps) simp

text \<open>The types without bound variables, in the parts that the unifier looks at.\<close>

fun binderFree :: "'e mono_type \<Rightarrow> bool" where
  "binderFree (TApp f args) = (binderFree f \<and> list_all binderFree args)"
| "binderFree (FixedArray ty len) = (binderFree (arrType ty) \<and> binderFree len)"
| "binderFree (Array ty) = binderFree (arrType ty)"
| "binderFree (Variant ms) = list_all (\<lambda>m. binderFree (mtype m)) ms"
| "binderFree (Record ms) = list_all (\<lambda>m. binderFree (mtype m)) ms"
| "binderFree (Func a r) = (binderFree a \<and> binderFree r)"
| "binderFree (Exists n b) = False"
| "binderFree (Recursive n b) = False"
| "binderFree t = True"

lemma binderFree_parts:
  "ctorForm E t = Inr (cn, ts, ig) \<Longrightarrow> binderFree t \<Longrightarrow> ig = [] \<and> (\<forall>x \<in> set ts. binderFree x)"
  by (cases t) (auto simp: list_all_iff mapR_Inr_iff)

section \<open>The invariant of a unifier\<close>

text \<open>
  \<open>solves E \<sigma> u\<close>: the trees that \<open>\<sigma>\<close> gives make the types equal that \<open>u\<close> has joined. The value of a
  node stands for the same tree as its type, in every solution.
\<close>

definition solves :: "'e uenv \<Rightarrow> (string \<Rightarrow> form) \<Rightarrow> 'e unifier \<Rightarrow> bool" where
  "solves E \<sigma> u \<longleftrightarrow> (\<forall>a b. eqv (um u) a b \<longrightarrow> formOf E \<sigma> a = formOf E \<sigma> b)"

definition unifier_ok :: "'e uenv \<Rightarrow> 'e unifier \<Rightarrow> bool" where
  "unifier_ok E u \<longleftrightarrow> eqmap_ok (um u) \<and> usuppress u = [] \<and>
     (\<forall>t \<in> dom (map_of (eqnodes (um u))). binderFree t) \<and>
     (\<forall>t. binderFree t \<longrightarrow> binderFree (uty (valueOf t u)) \<and>
       (\<forall>\<sigma>. solves E \<sigma> u \<longrightarrow> formOf E \<sigma> (uty (valueOf t u)) = formOf E \<sigma> t))"

lemma valueOf_valueAt: "valueOf t u = valueAt liftUType (eqnodes (um u)) t"
  by (simp add: valueOf_def valueAt_def)

lemma eqv_empty: "eqv eqmap_empty a b \<longleftrightarrow> a = b"
  using eqmap_empty_ok(2) by (auto simp: pairs_of_def set_eq_iff)

lemma newUnifier_ok: "unifier_ok E newUnifier" "solves E \<sigma> newUnifier"
  using eqmap_empty_ok(1)
  by (simp_all add: unifier_ok_def newUnifier_def valueOf_def solves_def eqv_empty)
    (simp_all add: eqmap_empty_def liftUType_def)

lemma unifyFind_spec:
  assumes ok: "unifier_ok E u" and t: "binderFree t"
  shows "\<exists>r u'. unifyFind t u = (Inr r, u') \<and> unifier_ok E u' \<and> (\<forall>\<sigma>. solves E \<sigma> u' = solves E \<sigma> u) \<and>
    binderFree r \<and> (\<forall>\<sigma>. solves E \<sigma> u \<longrightarrow> formOf E \<sigma> r = formOf E \<sigma> t)"
proof -
  have "eqmap_ok (um u)" using ok by (simp add: unifier_ok_def)
  then obtain r v m where f: "eqmap_find liftUType t (um u) = Some ((r, v), m)" "eqmap_ok m" "eqv m = eqv (um u)"
    "eqv (um u) t r"
    using eqmap_find_spec [of "um u" liftUType t] by blast
  define u' where "u' = u\<lparr>um := m\<rparr>"
  note vs = eqmap_find_values [OF f(1)]
  have s: "solves E \<sigma> u' = solves E \<sigma> u" for \<sigma> using f(3) by (simp add: solves_def u'_def)
  have v: "valueOf x u' = valueOf x u" for x using vs(1) by (simp add: valueOf_valueAt u'_def)
  have d: "dom (map_of (eqnodes (um u'))) = insert t (dom (map_of (eqnodes (um u))))" using vs(2) by (simp add: u'_def)
  have ok': "unifier_ok E u'"
    using ok t f(2) unfolding unifier_ok_def s v d by (simp add: u'_def)
  have "binderFree r" using ok' vs(4) by (auto simp: unifier_ok_def u'_def)
  moreover have "formOf E \<sigma> r = formOf E \<sigma> t" if "solves E \<sigma> u" for \<sigma>
    using that f(4) by (simp add: solves_def)
  moreover have "unifyFind t u = (Inr r, u')" using f(1) by (simp add: unifyFind_def u'_def)
  ultimately show ?thesis using ok' s by blast
qed

lemma moreDefined_cases: "moreDefined a b = a \<or> moreDefined a b = b"
  by (auto simp: moreDefined_def split: mono_type.splits)

lemma joinU_spec:
  assumes ok: "unifier_ok E u" and a: "binderFree a" and b: "binderFree b"
  obtains u' where "joinU a b u = (Inr (), u')" "unifier_ok E u'"
    "\<And>\<sigma>. solves E \<sigma> u' \<longleftrightarrow> solves E \<sigma> u \<and> formOf E \<sigma> a = formOf E \<sigma> b"
proof -
  have eo: "eqmap_ok (um u)" using ok by (simp add: unifier_ok_def)
  then obtain m where j: "eqmap_join liftUType moreDefined a b (um u) = Some m" "eqmap_ok m"
    "\<And>x y. eqv m x y \<longleftrightarrow> eqv (um u) x y \<or> eqv (um u) x a \<and> eqv (um u) y b \<or> eqv (um u) x b \<and> eqv (um u) y a"
    using eqmap_join_spec [of "um u" liftUType moreDefined a b] by blast
  define u' where "u' = u\<lparr>um := m\<rparr>"
  obtain l r where lr: "eqv (um u) a l" "eqv (um u) b r"
      "l \<in> dom (map_of (eqnodes m))" "r \<in> dom (map_of (eqnodes m))"
    and d: "dom (map_of (eqnodes m)) = insert a (insert b (dom (map_of (eqnodes (um u)))))"
    and v: "\<And>j. valueOf j u' = valueOf j u \<or>
      (j = l \<or> j = r) \<and> (valueOf j u' = moreDefined (valueOf l u) (valueOf r u) \<or> valueOf j u' = moreDefined (valueOf r u) (valueOf l u))"
    using eqmap_join_values [OF eo j(1)] by (auto simp: valueOf_valueAt u'_def)
  have s: "solves E \<sigma> u' \<longleftrightarrow> solves E \<sigma> u \<and> formOf E \<sigma> a = formOf E \<sigma> b" for \<sigma>
  proof
    assume "solves E \<sigma> u'"
    moreover have "eqv m a b" using eqmap.same_refl [OF eo] by (simp add: j(3))
    ultimately show "solves E \<sigma> u \<and> formOf E \<sigma> a = formOf E \<sigma> b"
      by (auto simp: solves_def u'_def j(3))
  next
    assume "solves E \<sigma> u \<and> formOf E \<sigma> a = formOf E \<sigma> b"
    then show "solves E \<sigma> u'" by (simp add: solves_def u'_def j(3)) metis
  qed
  have bd: "\<forall>t \<in> dom (map_of (eqnodes m)). binderFree t" using ok a b d by (auto simp: unifier_ok_def)
  then have blr: "binderFree l" "binderFree r" using lr by auto
  have vals: "binderFree (uty (valueOf t u')) \<and> (\<forall>\<sigma>. solves E \<sigma> u' \<longrightarrow> formOf E \<sigma> (uty (valueOf t u')) = formOf E \<sigma> t)"
    if t: "binderFree t" for t
  proof -
    have old: "binderFree (uty (valueOf x u))" "solves E \<sigma> u \<Longrightarrow> formOf E \<sigma> (uty (valueOf x u)) = formOf E \<sigma> x"
      if "binderFree x" for x \<sigma> using ok that by (simp_all add: unifier_ok_def)
    have same: "formOf E \<sigma> l = formOf E \<sigma> r" if "solves E \<sigma> u'" for \<sigma>
      using that lr(1,2) unfolding s by (auto simp: solves_def)
    consider "valueOf t u' = valueOf t u" | "t = l \<or> t = r" "valueOf t u' = valueOf l u \<or> valueOf t u' = valueOf r u"
      using v [of t] moreDefined_cases by metis
    then show ?thesis
    proof cases
      case 1
      then show ?thesis using old t s by auto
    next
      case 2
      then show ?thesis using old blr same unfolding s by (elim disjE) auto
    qed
  qed
  have "unifier_ok E u'" using j(2) ok bd vals by (simp add: unifier_ok_def u'_def)
  moreover have "joinU a b u = (Inr (), u')" using j(1) by (simp add: joinU_def u'_def)
  ultimately show ?thesis using that s by blast
qed

section \<open>What unification does\<close>

text \<open>
  The contract of an operation that makes types equal: the solutions afterwards are the ones that
  also solve the given equations, and it reports that types cannot be unified only when nothing
  solves them.
\<close>

definition agrees :: "'e uenv \<Rightarrow> (string \<Rightarrow> form) \<Rightarrow> ('e mono_type \<times> 'e mono_type) list \<Rightarrow> bool" where
  "agrees E \<sigma> eqs \<longleftrightarrow> list_all (\<lambda>(a, b). formOf E \<sigma> a = formOf E \<sigma> b) eqs"

lemma agrees_simps [simp]:
  "agrees E \<sigma> []" "agrees E \<sigma> ((a, b) # es) \<longleftrightarrow> formOf E \<sigma> a = formOf E \<sigma> b \<and> agrees E \<sigma> es"
  "agrees E \<sigma> (es @ es') \<longleftrightarrow> agrees E \<sigma> es \<and> agrees E \<sigma> es'"
  by (simp_all add: agrees_def)

definition adds :: "'e uenv \<Rightarrow> ('e mono_type \<times> 'e mono_type) list \<Rightarrow> 'e unifier \<Rightarrow> ('e, unit) ures \<Rightarrow> bool" where
  "adds E eqs u r \<longleftrightarrow>
     (fst r = Inr () \<longrightarrow> unifier_ok E (snd r) \<and> (\<forall>\<sigma>. solves E \<sigma> (snd r) \<longleftrightarrow> solves E \<sigma> u \<and> agrees E \<sigma> eqs)) \<and>
     (\<forall>a b \<sigma>. fst r = Inl (CannotUnify a b) \<longrightarrow> \<not> (solves E \<sigma> u \<and> agrees E \<sigma> eqs))"

lemma addsI:
  assumes "fst r = Inr () \<Longrightarrow> unifier_ok E (snd r)"
    "\<And>\<sigma>. fst r = Inr () \<Longrightarrow> solves E \<sigma> (snd r) \<longleftrightarrow> solves E \<sigma> u \<and> agrees E \<sigma> eqs"
    "\<And>a b \<sigma>. fst r = Inl (CannotUnify a b) \<Longrightarrow> \<not> (solves E \<sigma> u \<and> agrees E \<sigma> eqs)"
  shows "adds E eqs u r"
  using assms by (simp add: adds_def)

lemma addsD:
  assumes "adds E eqs u r"
  shows "fst r = Inr () \<Longrightarrow> unifier_ok E (snd r)"
    "fst r = Inr () \<Longrightarrow> solves E \<sigma> (snd r) \<longleftrightarrow> solves E \<sigma> u \<and> agrees E \<sigma> eqs"
    "fst r = Inl (CannotUnify a b) \<Longrightarrow> \<not> (solves E \<sigma> u \<and> agrees E \<sigma> eqs)"
  using assms by (simp_all add: adds_def)

lemma adds_bind:
  assumes a: "adds E es u r" and f: "\<And>u'. unifier_ok E u' \<Longrightarrow> r = (Inr (), u') \<Longrightarrow> adds E es' u' (f () u')"
  shows "adds E (es @ es') u (bindS r f)"
proof (cases "fst r")
  case (Inr y)
  then have r: "r = (Inr (), snd r)" by (cases r) simp
  then have ok: "unifier_ok E (snd r)" and s: "solves E \<sigma> (snd r) \<longleftrightarrow> solves E \<sigma> u \<and> agrees E \<sigma> es" for \<sigma>
    using addsD [OF a] Inr by simp_all
  have b: "adds E es' (snd r) (bindS r f)" using f [OF ok r] r by (metis bindS_simps(2))
  show ?thesis by (rule addsI) (use addsD [OF b] s in auto)
next
  case (Inl e)
  then have r: "bindS r f = (Inl e, snd r)" by (cases r) simp
  show ?thesis by (rule addsI) (use addsD(3) [OF a] Inl in \<open>auto simp: r\<close>)
qed

lemma adds_weaken:
  assumes a: "adds E es u r" and eq: "\<And>\<sigma>. solves E \<sigma> u \<Longrightarrow> agrees E \<sigma> es' = agrees E \<sigma> es"
  shows "adds E es' u r"
  by (rule addsI) (use addsD [OF a] eq in auto)

lemma eachS_adds:
  assumes "\<And>a b u. (a, b) \<in> set ps \<Longrightarrow> unifier_ok E u \<Longrightarrow> adds E [(a, b)] u (f (a, b) u)" "unifier_ok E u"
  shows "adds E ps u (eachS f ps u)"
  using assms
proof (induction ps arbitrary: u)
  case Nil
  then show ?case by (simp add: adds_def)
next
  case (Cons p ps)
  obtain a b where p: "p = (a, b)" by (cases p)
  have "adds E ([(a, b)] @ ps) u (bindS (f p u) (\<lambda>_ u. eachS f ps u))"
    by (rule adds_bind) (use Cons p in simp_all)
  then show ?case by (simp add: p)
qed

lemma eachS_zip_adds:
  assumes g: "\<And>a b v. binderFree a \<Longrightarrow> binderFree b \<Longrightarrow> unifier_ok E v \<Longrightarrow> adds E [(a, b)] v (g a b v)"
    and u: "unifier_ok E u" and bs: "\<forall>x \<in> set ss. binderFree x" "\<forall>x \<in> set ts. binderFree x"
  shows "adds E (zip ss ts) u (eachS (\<lambda>(a, b). g a b) (zip ss ts) u)"
proof (rule eachS_adds [OF _ u])
  fix a b v assume ab: "(a, b) \<in> set (zip ss ts)" and v: "unifier_ok E v"
  then have "binderFree a" "binderFree b" using bs set_zip_leftD [OF ab] set_zip_rightD [OF ab] by simp_all
  then show "adds E [(a, b)] v ((\<lambda>(a, b). g a b) (a, b) v)" using g v by simp
qed

lemma suppressAll_Nil [simp]: "suppressAll [] u = u" "unsuppressAll [] u = u"
  by (simp_all add: suppressAll_def unsuppressAll_def)

lemma not_suppressed: "unifier_ok E u \<Longrightarrow> \<not> suppressedTy t u"
  by (cases t) (simp_all add: suppressedTy_def suppressed_def unifier_ok_def)

lemma unifier_ok_value:
  "unifier_ok E u \<Longrightarrow> binderFree t \<Longrightarrow> binderFree (uty (valueOf t u)) \<and>
    (\<forall>\<sigma>. solves E \<sigma> u \<longrightarrow> formOf E \<sigma> (uty (valueOf t u)) = formOf E \<sigma> t)"
  by (simp add: unifier_ok_def)

lemma joinU_adds: "unifier_ok E u \<Longrightarrow> binderFree a \<Longrightarrow> binderFree b \<Longrightarrow> adds E [(a, b)] u (joinU a b u)"
  by (rule joinU_spec [of E u a b]) (simp_all add: adds_def)

lemma ubcount_ok: "unifier_ok E (u\<lparr>ubcount := n\<rparr>) = unifier_ok E u" "solves E \<sigma> (u\<lparr>ubcount := n\<rparr>) = solves E \<sigma> u"
  by (simp_all add: unifier_ok_def solves_def valueOf_def)

lemma parts_equal:
  assumes "ctorForm E s = Inr (cn, ss, i)" "\<not> isTVar s" "ctorForm E t = Inr (dn, ts, j)" "\<not> isTVar t"
  shows "formOf E \<sigma> s = formOf E \<sigma> t \<longleftrightarrow>
    cn = dn \<and> length ss = length ts \<and> agrees E \<sigma> (zip ss ts)"
proof -
  have "map f ss = map f ts \<longleftrightarrow> length ss = length ts \<and> list_all (\<lambda>(a, b). f a = f b) (zip ss ts)"
    for f :: "'a mono_type \<Rightarrow> form"
    by (auto simp: list_all_length list_eq_iff_nth_eq)
  then show ?thesis using formOf_node [OF assms(1,2)] formOf_node [OF assms(3,4)] by (auto simp: agrees_def)
qed

lemma cannotUnify_not_Inr: "fst (cannotUnify E n a b u) = Inr x \<Longrightarrow> False"
  by (auto simp: cannotUnify_def bindS_def split: prod.splits sum.splits)

lemma unify_adds:
  "unifier_ok E u \<Longrightarrow> binderFree lhs \<Longrightarrow> binderFree rhs \<Longrightarrow> adds E [(lhs, rhs)] u (unify E n lhs rhs u)"
proof (induction n arbitrary: lhs rhs u)
  case 0
  then show ?case by (simp add: adds_def)
next
  case (Suc n)
  obtain l u1 where 1: "unifyFind lhs u = (Inr l, u1)" "unifier_ok E u1" "\<And>\<sigma>. solves E \<sigma> u1 = solves E \<sigma> u"
    "binderFree l" "\<And>\<sigma>. solves E \<sigma> u \<Longrightarrow> formOf E \<sigma> l = formOf E \<sigma> lhs"
    using unifyFind_spec [OF Suc.prems(1,2)] by blast
  obtain r u2 where 2: "unifyFind rhs u1 = (Inr r, u2)" "unifier_ok E u2" "\<And>\<sigma>. solves E \<sigma> u2 = solves E \<sigma> u1"
    "binderFree r" "\<And>\<sigma>. solves E \<sigma> u1 \<Longrightarrow> formOf E \<sigma> r = formOf E \<sigma> rhs"
    using unifyFind_spec [OF 1(2) Suc.prems(3)] by blast
  define lv where "lv = uty (valueOf l u2)"
  define rv where "rv = uty (valueOf r u2)"
  have lv: "binderFree lv" "\<And>\<sigma>. solves E \<sigma> u \<Longrightarrow> formOf E \<sigma> lv = formOf E \<sigma> lhs"
    using unifier_ok_value [OF 2(2) 1(4)] 1(3,5) 2(3) by (simp_all add: lv_def)
  have rv: "binderFree rv" "\<And>\<sigma>. solves E \<sigma> u \<Longrightarrow> formOf E \<sigma> rv = formOf E \<sigma> rhs"
    using unifier_ok_value [OF 2(2) 2(4)] 1(3) 2(3,5) by (simp_all add: rv_def)
  define J where "J = (\<lambda>u. joinU (uty (valueOf l u)) (uty (valueOf r u)) u)"
  define P where "P = (if \<not> isTVar lv \<and> \<not> isTVar rv then
             bindS (liftR (ctorForm E lv) u2) (\<lambda>(lcn, lts, lig) u.
             bindS (liftR (ctorForm E rv) u) (\<lambda>(rcn, rts, rig) u.
               if length lts \<noteq> length rts \<or> lcn \<noteq> rcn then cannotUnify E n lv rv u
               else (case eachS (\<lambda>(a, b). unify E n a b) (zip lts rts) (suppressAll (lig @ rig) u) of
                       (res, u) \<Rightarrow> (res, unsuppressAll (lig @ rig) u))))
           else (Inr (), u2\<lparr>ubcount := ubcount u2 + 1\<rparr>))"
  have eq: "unify E (Suc n) lhs rhs u = (if lv = rv then (Inr (), u2) else bindS P (\<lambda>_. J))"
    using not_suppressed [OF Suc.prems(1)] 1(1) 2(1)
    unfolding P_def J_def lv_def rv_def Let_def unify.simps by simp
  have s: "solves E \<sigma> u2 = solves E \<sigma> u" for \<sigma> using 1(3) 2(3) by simp
  have J: "adds E [(l, r)] v (J v)" if "unifier_ok E v" for v
  proof -
    note l = unifier_ok_value [OF that 1(4)] and r = unifier_ok_value [OF that 2(4)]
    show ?thesis unfolding J_def
      by (rule adds_weaken [OF joinU_adds]) (use that l r in auto)
  qed
  have main: "adds E ([(lhs, rhs)]) u2 (if lv = rv then (Inr (), u2) else bindS P (\<lambda>_. J))"
  proof (cases "lv = rv")
    case True
    then have "formOf E \<sigma> lhs = formOf E \<sigma> rhs" if "solves E \<sigma> u2" for \<sigma>
      using lv(2) [of \<sigma>] rv(2) [of \<sigma>] that s by simp
    then show ?thesis using True 2(2) by (auto simp: adds_def)
  next
    case False
    have P: "adds E eqs u2 P \<and> (\<forall>\<sigma>. solves E \<sigma> u2 \<longrightarrow> formOf E \<sigma> lhs = formOf E \<sigma> rhs \<longrightarrow> agrees E \<sigma> eqs)"
      if "eqs = (if \<not> isTVar lv \<and> \<not> isTVar rv then [(lhs, rhs)] else [])" for eqs
    proof (cases "\<not> isTVar lv \<and> \<not> isTVar rv")
      case False
      then show ?thesis using that 2(2) by (auto simp: adds_def P_def ubcount_ok)
    next
      case True
      then have eqs: "eqs = [(lhs, rhs)]" using that by simp
      have "adds E [(lhs, rhs)] u2 P"
      proof (cases "(\<exists>e. ctorForm E lv = Inl e) \<or> (\<exists>e. ctorForm E rv = Inl e)")
        case True
        then show ?thesis using \<open>\<not> isTVar lv \<and> \<not> isTVar rv\<close>
          by (cases "ctorForm E lv") (auto simp: P_def adds_def liftR_def)
      next
        case ok: False
        then obtain lcn lts lig where L: "ctorForm E lv = Inr (lcn, lts, lig)" by (cases "ctorForm E lv") auto
        from ok obtain rcn rts rig where R: "ctorForm E rv = Inr (rcn, rts, rig)" by (cases "ctorForm E rv") auto
        have parts: "formOf E \<sigma> lhs = formOf E \<sigma> rhs \<longleftrightarrow> lcn = rcn \<and> length lts = length rts \<and> agrees E \<sigma> (zip lts rts)"
          if "solves E \<sigma> u2" for \<sigma>
        proof -
          have \<sigma>: "solves E \<sigma> u" using that s by simp
          show ?thesis using parts_equal [OF L _ R, of \<sigma>] True unfolding lv(2) [OF \<sigma>] rv(2) [OF \<sigma>] by simp
        qed
        show ?thesis
        proof (cases "length lts \<noteq> length rts \<or> lcn \<noteq> rcn")
          case mismatch: True
          then have "P = cannotUnify E n lv rv u2" using True L R by (simp add: P_def liftR_def)
          moreover have "\<not> agrees E \<sigma> [(lhs, rhs)]" if "solves E \<sigma> u2" for \<sigma> using parts [OF that] mismatch by auto
          ultimately show ?thesis by (intro addsI) (auto dest: cannotUnify_not_Inr)
        next
          case match: False
          have ig: "lig = []" "rig = []" "\<forall>x \<in> set lts. binderFree x" "\<forall>x \<in> set rts. binderFree x"
            using binderFree_parts [OF L lv(1)] binderFree_parts [OF R rv(1)] by simp_all
          then have "P = eachS (\<lambda>(a, b). unify E n a b) (zip lts rts) u2"
            using True L R match by (simp add: P_def liftR_def split: prod.split)
          moreover have "adds E (zip lts rts) u2 (eachS (\<lambda>(a, b). unify E n a b) (zip lts rts) u2)"
            by (rule eachS_zip_adds [OF Suc.IH 2(2)]) (use ig in simp_all)
          ultimately show ?thesis using adds_weaken parts match by fastforce
        qed
      qed
      then show ?thesis by (simp add: eqs)
    qed
    define eqs where "eqs = (if \<not> isTVar lv \<and> \<not> isTVar rv then [(lhs, rhs)] else [])"
    have "adds E (eqs @ [(l, r)]) u2 (bindS P (\<lambda>_. J))"
      by (rule adds_bind [OF conjunct1 [OF P [OF eqs_def]]]) (rule J)
    then have "adds E [(lhs, rhs)] u2 (bindS P (\<lambda>_. J))"
    proof (rule adds_weaken)
      fix \<sigma> assume "solves E \<sigma> u2"
      then show "agrees E \<sigma> [(lhs, rhs)] = agrees E \<sigma> (eqs @ [(l, r)])"
        using conjunct2 [OF P [OF eqs_def], rule_format, of \<sigma>] 1(5) [of \<sigma>] 2(5) [of \<sigma>] 1(3) s by auto
    qed
    then show ?thesis using False by simp
  qed
  show ?case unfolding eq
    by (rule addsI) (use addsD [OF main] s in auto)
qed

lemma mguTs_adds:
  assumes "unifier_ok E u" "list_all binderFree t0s" "list_all binderFree t1s"
  shows "adds E (zip t0s t1s) u (mguTs E n t0s t1s u)"
proof (cases "length t0s = length t1s")
  case True
  have "adds E (zip t0s t1s) u (eachS (\<lambda>(a, b). mgu E n a b) (zip t0s t1s) u)"
    by (rule eachS_zip_adds [OF _ assms(1)]) (use assms unify_adds in \<open>simp_all add: mgu_def list_all_iff\<close>)
  then show ?thesis using True by (simp add: mguTs_def)
qed (simp add: mguTs_def adds_def)


definition plainEnv :: "unit uenv" where
  "plainEnv = \<lparr>ueBeta = (\<lambda>_ _ _. Inl NoSize), ueFuel = 0, ueShow = (\<lambda>_. []), ueSubst = (\<lambda>e u. (Inr e, u))\<rparr>"


text \<open>The definitions that a run of the unifier goes through.\<close>

lemmas unify_evals = mgu_def newUnifier_def unifyFind_def valueOf_def setValue_def setNodeValue_def joinU_def
  binding_def liftUType_def moreDefined_def isTVar_def suppressedTy_def suppressed_def suppressAll_def
  unsuppressAll_def suppress_def unsuppress_def eqmap_empty_def eqmap_find_def eqmap_join_def findNode_def
  linkNodes_def newNode_def liftR_def visiting_def caught_def isMonoSingular_def Let_def

text \<open>
  Existential types with different contents unify: the parts that a bound variable of either
  side stands for are not compared.
\<close>

theorem exists_conflated:
  "unifiable E (Suc (Suc n)) (Exists ''x'' (TVar ''x'')) (Exists ''y'' (Prim ''int'' None)) = Some True"
  by (simp add: unifiable_def unify_evals)

lemma infinite_rejected:
  "unifiable E (Suc (Suc (Suc n))) (TVar ''a'') (Array (TVar ''a'')) = Some False"
  by (simp add: unifiable_def unify_evals)

text \<open>
  There is no test for a variable inside its own value, and on two infinite types unification
  does not end, whatever the fuel.
\<close>

theorem unify_cyclic_diverges:
  "\<exists>u. bindS (bind E 2 ''a'' (Array (TVar ''a'')) newUnifier) (\<lambda>_. bind E 2 ''b'' (Array (TVar ''b''))) = (Inr (), u) \<and>
     (\<forall>n. fst (unify E n (TVar ''a'') (TVar ''b'') u) = Inl NoReturn)"
proof -
  let ?A = "Array (TVar ''a'') :: 'a mono_type" and ?B = "Array (TVar ''b'') :: 'a mono_type"
  have "\<exists>u ra rb. bindS (bind E 2 ''a'' ?A newUnifier) (\<lambda>_. bind E 2 ''b'' ?B) = (Inr (), u) \<and>
    unifyFind (TVar ''a'') u = (Inr ra, u) \<and> uty (valueOf ra u) = ?A \<and>
    unifyFind (TVar ''b'') u = (Inr rb, u) \<and> uty (valueOf rb u) = ?B \<and> usuppress u = []"
    by (simp add: bind_def unify_evals numeral_2_eq_2)
  then obtain u ra rb where u: "bindS (bind E 2 ''a'' ?A newUnifier) (\<lambda>_. bind E 2 ''b'' ?B) = (Inr (), u)"
    "unifyFind (TVar ''a'') u = (Inr ra, u)" "uty (valueOf ra u) = ?A"
    "unifyFind (TVar ''b'') u = (Inr rb, u)" "uty (valueOf rb u) = ?B" "usuppress u = []" by blast
  have "\<exists>v. unify E n (TVar ''a'') (TVar ''b'') u = (Inl NoReturn, v)" for n
  proof (induction n)
    case (Suc n)
    then show ?case using u(2-6)
      by (auto simp: suppressedTy_def suppressed_def isTVar_def liftR_def Let_def suppressAll_def unsuppressAll_def)
  qed simp
  then show ?thesis using u(1) by (metis fst_conv)
qed

end
