(* ===== verification/Expr.thy ===== *)
theory Expr
  imports Type_Show
begin

text \<open>
  Expressions of the language: \<^verbatim>\<open>include/hobbes/lang/expr.H\<close> and the classes at the start of
  \<^verbatim>\<open>lib/hobbes/lang/expr.C\<close>. The theory holds the syntax trees, what their constructors check, and
  \<open>clone\<close>, \<open>operator==\<close>, \<open>show\<close> and \<open>showAnnotated\<close>.

  A value of \<open>expr\<close> stands for the object that an \<open>ExprPtr\<close> points to, with the type annotation that
  every node may carry; lexical annotations only serve messages and are left out. Expressions in
  types (\<open>TExpr\<close>) are values of the parameter type, as in the theories of types. Floating point constants are
  their IEEE bit patterns.
\<close>

section \<open>Syntax trees\<close>

datatype prim =
    UnitE | BoolE bool | CharE char | ByteE u8 | ShortE "16 word" | IntE u32 | LongE u64
  | FloatE u32 | DoubleE u64

type_synonym 'e ann = "'e qual_type option"
type_synonym 'e primitive = "prim \<times> 'e ann"

datatype 'e expr =
    Const prim "'e ann"
  | Var string "'e ann"
  | LetE string "'e expr" "'e expr" "'e ann"
  | LetRec "(string \<times> 'e expr) list" "'e expr" "'e ann"
  | Fn "string list" "'e expr" "'e ann"
  | App "'e expr" "'e expr list" "'e ann"
  | Assign "'e expr" "'e expr" "'e ann"
  | MkArray "'e expr list" "'e ann"
  | MkVariant string "'e expr" "'e ann"
  | MkRecord "(string \<times> 'e expr) list" "'e ann"
  | AIndex "'e expr" "'e expr" "'e ann"
  | Case "'e expr" "(string \<times> string \<times> 'e expr) list" "'e expr option" "'e ann"
  | Switch "'e expr" "('e primitive \<times> 'e expr) list" "'e expr option" "'e ann"
  | Proj "'e expr" string "'e ann"
  | Assump "'e expr" "'e qual_type" "'e ann"
  | Pack "'e expr" "'e ann"
  | Unpack string "'e expr" "'e expr" "'e ann"

datatype expr_error =
    TypeErr type_error | OutOfBounds | InexhaustiveSwitch | DuplicateSelector | NotAnnotated
  | UnresolvedConstraints | NotRecordType | NotExistential | NotFunctionType

fun etype :: "'e expr \<Rightarrow> 'e ann" where
  "etype (Const p a) = a"
| "etype (Var n a) = a"
| "etype (LetE n e b a) = a"
| "etype (LetRec bs e a) = a"
| "etype (Fn vs e a) = a"
| "etype (App f as a) = a"
| "etype (Assign l r a) = a"
| "etype (MkArray es a) = a"
| "etype (MkVariant l e a) = a"
| "etype (MkRecord fs a) = a"
| "etype (AIndex e i a) = a"
| "etype (Case v bs d a) = a"
| "etype (Switch v bs d a) = a"
| "etype (Proj r f a) = a"
| "etype (Assump e t a) = a"
| "etype (Pack e a) = a"
| "etype (Unpack n p e a) = a"

fun setType :: "'e ann \<Rightarrow> 'e expr \<Rightarrow> 'e expr" where
  "setType a (Const p _) = Const p a"
| "setType a (Var n _) = Var n a"
| "setType a (LetE n e b _) = LetE n e b a"
| "setType a (LetRec bs e _) = LetRec bs e a"
| "setType a (Fn vs e _) = Fn vs e a"
| "setType a (App f as _) = App f as a"
| "setType a (Assign l r _) = Assign l r a"
| "setType a (MkArray es _) = MkArray es a"
| "setType a (MkVariant l e _) = MkVariant l e a"
| "setType a (MkRecord fs _) = MkRecord fs a"
| "setType a (AIndex e i _) = AIndex e i a"
| "setType a (Case v bs d _) = Case v bs d a"
| "setType a (Switch v bs d _) = Switch v bs d a"
| "setType a (Proj r f _) = Proj r f a"
| "setType a (Assump e t _) = Assump e t a"
| "setType a (Pack e _) = Pack e a"
| "setType a (Unpack n p e _) = Unpack n p e a"

fun primCaseId :: "prim \<Rightarrow> u32" where
  "primCaseId UnitE = 0"
| "primCaseId (BoolE x) = 1"
| "primCaseId (CharE x) = 2"
| "primCaseId (ByteE x) = 3"
| "primCaseId (ShortE x) = 4"
| "primCaseId (IntE x) = 5"
| "primCaseId (LongE x) = 6"
| "primCaseId (FloatE x) = 7"
| "primCaseId (DoubleE x) = 8"

fun expr_case_id :: "'e expr \<Rightarrow> u32" where
  "expr_case_id (Const p a) = primCaseId p"
| "expr_case_id (Var n a) = 9"
| "expr_case_id (LetE n e b a) = 10"
| "expr_case_id (LetRec bs e a) = 11"
| "expr_case_id (Fn vs e a) = 12"
| "expr_case_id (App f as a) = 13"
| "expr_case_id (Assign l r a) = 14"
| "expr_case_id (MkArray es a) = 15"
| "expr_case_id (MkVariant l e a) = 16"
| "expr_case_id (MkRecord fs a) = 17"
| "expr_case_id (AIndex e i a) = 18"
| "expr_case_id (Case v bs d a) = 19"
| "expr_case_id (Switch v bs d a) = 20"
| "expr_case_id (Proj r f a) = 21"
| "expr_case_id (Assump e t a) = 22"
| "expr_case_id (Pack e a) = 23"
| "expr_case_id (Unpack n p e a) = 24"

text \<open>Sizes of the parts that the recursive functions on expressions descend into.\<close>

lemma size_fields [termination_simp]:
  "b \<in> set bs \<Longrightarrow> size (snd b) < Suc (size_list (size_prod f size) bs + n)"
  "b \<in> set bs \<Longrightarrow> size (snd b) < Suc (n + size_list (size_prod f size) bs)"
  "b \<in> set bs \<Longrightarrow> size (snd b) < Suc (size_list (size_prod f size) bs)"
proof -
  assume b: "b \<in> set bs"
  have "size (snd b) < size_prod f size b" by (cases b) simp
  also have "\<dots> \<le> size_list (size_prod f size) bs" by (rule size_list_estimation' [OF b order_refl])
  finally have l: "size (snd b) < size_list (size_prod f size) bs" .
  then show "size (snd b) < Suc (size_list (size_prod f size) bs + n)" by simp
  show "size (snd b) < Suc (n + size_list (size_prod f size) bs)" using l by simp
  show "size (snd b) < Suc (size_list (size_prod f size) bs)" using l by simp
qed

lemma size_case_bindings [termination_simp]:
  "b \<in> set bs \<Longrightarrow> size (snd (snd b)) < Suc (size_list (size_prod f (size_prod g size)) bs + n)"
  "b \<in> set bs \<Longrightarrow> size (snd (snd b)) < Suc (n + size_list (size_prod f (size_prod g size)) bs)"
proof -
  assume b: "b \<in> set bs"
  have "size (snd (snd b)) < size_prod f (size_prod g size) b" by (cases b) simp
  also have "\<dots> \<le> size_list (size_prod f (size_prod g size)) bs" by (rule size_list_estimation' [OF b order_refl])
  finally have l: "size (snd (snd b)) < size_list (size_prod f (size_prod g size)) bs" .
  then show "size (snd (snd b)) < Suc (size_list (size_prod f (size_prod g size)) bs + n)" by simp
  show "size (snd (snd b)) < Suc (n + size_list (size_prod f (size_prod g size)) bs)" using l by simp
qed

section \<open>Primitive constants\<close>

text \<open>
  Comparison of IEEE bit patterns: \<open>lim\<close> is the pattern of infinity, anything above it in magnitude is not a number,
  and the two zeros are equal.
\<close>

definition fMag :: "'a::len word \<Rightarrow> int" where
  "fMag x = uint (take_bit (LENGTH('a) - 1) x)"

definition fKey :: "'a::len word \<Rightarrow> int" where
  "fKey x = (if bit x (LENGTH('a) - 1) then - fMag x else fMag x)"

definition floatEq :: "int \<Rightarrow> 'a::len word \<Rightarrow> 'a word \<Rightarrow> bool" where
  "floatEq lim x y \<longleftrightarrow> fMag x \<le> lim \<and> fMag y \<le> lim \<and> fKey x = fKey y"

definition floatLt :: "int \<Rightarrow> 'a::len word \<Rightarrow> 'a word \<Rightarrow> bool" where
  "floatLt lim x y \<longleftrightarrow> fMag x \<le> lim \<and> fMag y \<le> lim \<and> fKey x < fKey y"

abbreviation inf32 :: int where "inf32 \<equiv> 0x7F800000"
abbreviation inf64 :: int where "inf64 \<equiv> 0x7FF0000000000000"

text \<open>\<open>char\<close> is signed.\<close>

definition charLt :: "char \<Rightarrow> char \<Rightarrow> bool" where
  "charLt c d \<longleftrightarrow> sint (of_char c :: u8) < sint (of_char d :: u8)"

text \<open>\<open>operator<\<close> of one class; constants of different classes are ordered by the numbers of their classes.\<close>

definition primLt :: "prim \<Rightarrow> prim \<Rightarrow> bool" where
  "primLt p q =
     (let other = primCaseId p < primCaseId q in
      case p of
        UnitE \<Rightarrow> (case q of UnitE \<Rightarrow> False | _ \<Rightarrow> other)
      | BoolE x \<Rightarrow> (case q of BoolE y \<Rightarrow> \<not> x \<and> y | _ \<Rightarrow> other)
      | CharE x \<Rightarrow> (case q of CharE y \<Rightarrow> charLt x y | _ \<Rightarrow> other)
      | ByteE x \<Rightarrow> (case q of ByteE y \<Rightarrow> x < y | _ \<Rightarrow> other)
      | ShortE x \<Rightarrow> (case q of ShortE y \<Rightarrow> sint x < sint y | _ \<Rightarrow> other)
      | IntE x \<Rightarrow> (case q of IntE y \<Rightarrow> sint x < sint y | _ \<Rightarrow> other)
      | LongE x \<Rightarrow> (case q of LongE y \<Rightarrow> sint x < sint y | _ \<Rightarrow> other)
      | FloatE x \<Rightarrow> (case q of FloatE y \<Rightarrow> floatLt inf32 x y | _ \<Rightarrow> other)
      | DoubleE x \<Rightarrow> (case q of DoubleE y \<Rightarrow> floatLt inf64 x y | _ \<Rightarrow> other))"

definition primEquiv :: "prim \<Rightarrow> prim \<Rightarrow> bool" where
  "primEquiv p q =
     (case p of
        UnitE \<Rightarrow> (case q of UnitE \<Rightarrow> True | _ \<Rightarrow> False)
      | BoolE x \<Rightarrow> (case q of BoolE y \<Rightarrow> x = y | _ \<Rightarrow> False)
      | CharE x \<Rightarrow> (case q of CharE y \<Rightarrow> x = y | _ \<Rightarrow> False)
      | ByteE x \<Rightarrow> (case q of ByteE y \<Rightarrow> x = y | _ \<Rightarrow> False)
      | ShortE x \<Rightarrow> (case q of ShortE y \<Rightarrow> x = y | _ \<Rightarrow> False)
      | IntE x \<Rightarrow> (case q of IntE y \<Rightarrow> x = y | _ \<Rightarrow> False)
      | LongE x \<Rightarrow> (case q of LongE y \<Rightarrow> x = y | _ \<Rightarrow> False)
      | FloatE x \<Rightarrow> (case q of FloatE y \<Rightarrow> floatEq inf32 x y | _ \<Rightarrow> False)
      | DoubleE x \<Rightarrow> (case q of DoubleE y \<Rightarrow> floatEq inf64 x y | _ \<Rightarrow> False))"

fun primType :: "prim \<Rightarrow> 'e mono_type" where
  "primType UnitE = Prim ''unit'' None"
| "primType (BoolE x) = Prim ''bool'' None"
| "primType (CharE x) = Prim ''char'' None"
| "primType (ByteE x) = Prim ''byte'' None"
| "primType (ShortE x) = Prim ''short'' None"
| "primType (IntE x) = Prim ''int'' None"
| "primType (LongE x) = Prim ''long'' None"
| "primType (FloatE x) = Prim ''float'' None"
| "primType (DoubleE x) = Prim ''double'' None"

section \<open>Constructors\<close>

text \<open>Functions without parameters take unit, and are called with it.\<close>

definition mkFn :: "string list \<Rightarrow> 'e expr \<Rightarrow> 'e expr" where
  "mkFn vs e = Fn (if vs = [] then [''_''] else vs) e None"

definition mkApp :: "'e expr \<Rightarrow> 'e expr list \<Rightarrow> 'e expr" where
  "mkApp f as = App f (if as = [] then [Const UnitE None] else as) None"

text \<open>
  \<open>Switch\<close> tests for exhaustive and for unambiguous selection. The fourth case of the first test
  names the class \<open>Case\<close>, whose number no constant has. \<open>PrimitiveSet\<close> looks for an element that is neither less nor greater.
\<close>

definition switchExhaustive :: "('e primitive \<times> 'e expr) list \<Rightarrow> 'e expr option \<Rightarrow> bool" where
  "switchExhaustive bs def =
     (case bs of
        [] \<Rightarrow> def \<noteq> None
      | b # _ \<Rightarrow>
          let c = primCaseId (fst (fst b)) in
          if c = 0 then True
          else if c = 1 then def \<noteq> None \<or> length bs = 2
          else if c = 3 then def \<noteq> None \<or> length bs = 256
          else if c = 19 then def \<noteq> None \<or> length bs = 256
          else def \<noteq> None)"

definition selectorIn :: "prim \<Rightarrow> prim list \<Rightarrow> bool" where
  "selectorIn p ps = list_ex (\<lambda>q. \<not> primLt p q \<and> \<not> primLt q p) ps"

fun duplicateSelector :: "prim list \<Rightarrow> prim list \<Rightarrow> bool" where
  "duplicateSelector seen [] = False"
| "duplicateSelector seen (p # ps) = (selectorIn p seen \<or> duplicateSelector (p # seen) ps)"

definition switchCheck :: "('e primitive \<times> 'e expr) list \<Rightarrow> 'e expr option \<Rightarrow> expr_error option" where
  "switchCheck bs def =
     (if \<not> switchExhaustive bs def then Some InexhaustiveSwitch
      else if duplicateSelector [] (map (\<lambda>b. fst (fst b)) bs) then Some DuplicateSelector
      else None)"

definition mkSwitch :: "'e expr \<Rightarrow> ('e primitive \<times> 'e expr) list \<Rightarrow> 'e expr option \<Rightarrow> expr_error + 'e expr" where
  "mkSwitch v bs def =
     (case switchCheck bs def of Some err \<Rightarrow> Inl err | None \<Rightarrow> Inr (Switch v bs def None))"

definition hasCaseBinding :: "string \<Rightarrow> (string \<times> string \<times> 'e expr) list \<Rightarrow> bool" where
  "hasCaseBinding bn bs = list_ex (\<lambda>b. fst b = bn) bs"

definition addCaseBinding ::
    "string \<Rightarrow> string \<Rightarrow> 'e expr \<Rightarrow> (string \<times> string \<times> 'e expr) list \<Rightarrow> (string \<times> string \<times> 'e expr) list" where
  "addCaseBinding selector vname e bs = bs @ [(selector, vname, e)]"

text \<open>What every expression satisfies that was made by the constructors.\<close>

fun wfE :: "'e expr \<Rightarrow> bool" where
  "wfE (LetE n e b a) = (wfE e \<and> wfE b)"
| "wfE (LetRec bs e a) = ((\<forall>b \<in> set bs. wfE (snd b)) \<and> wfE e)"
| "wfE (Fn vs e a) = (vs \<noteq> [] \<and> wfE e)"
| "wfE (App f as a) = (as \<noteq> [] \<and> wfE f \<and> (\<forall>e \<in> set as. wfE e))"
| "wfE (Assign l r a) = (wfE l \<and> wfE r)"
| "wfE (MkArray es a) = (\<forall>e \<in> set es. wfE e)"
| "wfE (MkVariant l e a) = wfE e"
| "wfE (MkRecord fs a) = (\<forall>b \<in> set fs. wfE (snd b))"
| "wfE (AIndex e i a) = (wfE e \<and> wfE i)"
| "wfE (Case v bs d a) =
     (wfE v \<and> (\<forall>b \<in> set bs. wfE (snd (snd b))) \<and> (case d of None \<Rightarrow> True | Some e \<Rightarrow> wfE e))"
| "wfE (Switch v bs d a) =
     (switchCheck bs d = None \<and> wfE v \<and> (\<forall>b \<in> set bs. wfE (snd b)) \<and> (case d of None \<Rightarrow> True | Some e \<Rightarrow> wfE e))"
| "wfE (Proj r f a) = wfE r"
| "wfE (Assump e t a) = wfE e"
| "wfE (Pack e a) = wfE e"
| "wfE (Unpack n p e a) = (wfE p \<and> wfE e)"
| "wfE (Const p a) = True"
| "wfE (Var n a) = True"

section \<open>Clones\<close>

text \<open>A clone carries no type annotation.\<close>

definition clonePrim :: "'e primitive \<Rightarrow> 'e primitive" where
  "clonePrim p = (fst p, None)"

fun clone :: "'e expr \<Rightarrow> 'e expr" where
  "clone (Const p a) = Const p None"
| "clone (Var n a) = Var n None"
| "clone (LetE n e b a) = LetE n (clone e) (clone b) None"
| "clone (LetRec bs e a) = LetRec (map (\<lambda>b. (fst b, clone (snd b))) bs) (clone e) None"
| "clone (Fn vs e a) = mkFn vs (clone e)"
| "clone (App f as a) = mkApp (clone f) (map clone as)"
| "clone (Assign l r a) = Assign (clone l) (clone r) None"
| "clone (MkArray es a) = MkArray (map clone es) None"
| "clone (MkVariant l e a) = MkVariant l (clone e) None"
| "clone (MkRecord fs a) = MkRecord (map (\<lambda>b. (fst b, clone (snd b))) fs) None"
| "clone (AIndex e i a) = AIndex (clone e) (clone i) None"
| "clone (Case v bs d a) =
     Case (clone v) (map (\<lambda>b. (fst b, fst (snd b), clone (snd (snd b)))) bs)
       (case d of None \<Rightarrow> None | Some e \<Rightarrow> Some (clone e)) None"
| "clone (Switch v bs d a) =
     Switch (clone v) (map (\<lambda>b. (clonePrim (fst b), clone (snd b))) bs)
       (case d of None \<Rightarrow> None | Some e \<Rightarrow> Some (clone e)) None"
| "clone (Proj r f a) = Proj (clone r) f None"
| "clone (Assump e t a) = Assump (clone e) t None"
| "clone (Pack e a) = Pack (clone e) None"
| "clone (Unpack n p e a) = Unpack n (clone p) (clone e) None"

section \<open>Equality\<close>

text \<open>
  \<open>operator==\<close>: \<open>same\<close> says whether two expressions are the same object. Every class but the constants tests this
  first; the elements of two arrays are compared as pointers, and by nothing else, and so are the constraints of two
  qualified types (\<open>sameC\<close>). Annotations do not count.
\<close>

definition loopEq :: "('a \<Rightarrow> 'b \<Rightarrow> bool) \<Rightarrow> 'a list \<Rightarrow> 'b list \<Rightarrow> bool" where
  "loopEq f xs ys = list_all (\<lambda>i. f (xs ! i) (ys ! i)) [0..<length xs]"

lemma loopEq_cong [fundef_cong]:
  "xs = xs' \<Longrightarrow> ys = ys' \<Longrightarrow> (\<And>x y. x \<in> set xs' \<Longrightarrow> f x y = g x y) \<Longrightarrow> loopEq f xs ys = loopEq g xs' ys'"
  by (auto simp: loopEq_def list_all_iff)

definition defaultEq :: "('a \<Rightarrow> 'b \<Rightarrow> bool) \<Rightarrow> 'a option \<Rightarrow> 'b option \<Rightarrow> bool" where
  "defaultEq f d d' =
     (case d of Some e \<Rightarrow> (case d' of None \<Rightarrow> False | Some e' \<Rightarrow> f e e') | None \<Rightarrow> d' = None)"

lemma defaultEq_cong [fundef_cong]:
  "d = c \<Longrightarrow> d' = c' \<Longrightarrow> (\<And>x y. x \<in> set_option c \<Longrightarrow> f x y = g x y) \<Longrightarrow> defaultEq f d d' = defaultEq g c c'"
  by (auto simp: defaultEq_def split: option.splits)

definition qualEq :: "('e constraint \<Rightarrow> 'e constraint \<Rightarrow> bool) \<Rightarrow> 'e qual_type \<Rightarrow> 'e qual_type \<Rightarrow> bool" where
  "qualEq sameC t t' \<longleftrightarrow> length (qconstraints t) = length (qconstraints t') \<and>
     loopEq sameC (qconstraints t) (qconstraints t') \<and> qmono t = qmono t'"

lemma size_option_mem [termination_simp]:
  "x \<in> set_option d \<Longrightarrow> size x < Suc (n + size_option size d)"
  "x2 \<in> set_option d \<Longrightarrow> size x2 < Suc (size_option size d + n)"
  by auto

fun eqE :: "('e expr \<Rightarrow> 'e expr \<Rightarrow> bool) \<Rightarrow> ('e constraint \<Rightarrow> 'e constraint \<Rightarrow> bool) \<Rightarrow> 'e expr \<Rightarrow> 'e expr \<Rightarrow> bool" where
  "eqE same sameC (Const p a) e' = (case e' of Const q _ \<Rightarrow> primEquiv p q | _ \<Rightarrow> False)"
| "eqE same sameC (Var n a) e' =
     (same (Var n a) e' \<or> (case e' of Var n' _ \<Rightarrow> n = n' | _ \<Rightarrow> False))"
| "eqE same sameC (LetE n e b a) e' =
     (same (LetE n e b a) e' \<or>
      (case e' of LetE n' x y _ \<Rightarrow> n = n' \<and> eqE same sameC e x \<and> eqE same sameC b y | _ \<Rightarrow> False))"
| "eqE same sameC (LetRec bs e a) e' =
     (same (LetRec bs e a) e' \<or>
      (case e' of LetRec bs' x _ \<Rightarrow> length bs = length bs' \<and> eqE same sameC e x \<and>
         loopEq (\<lambda>b b'. fst b = fst b' \<and> eqE same sameC (snd b) (snd b')) bs bs' | _ \<Rightarrow> False))"
| "eqE same sameC (Fn vs e a) e' =
     (same (Fn vs e a) e' \<or> (case e' of Fn vs' x _ \<Rightarrow> vs = vs' \<and> eqE same sameC e x | _ \<Rightarrow> False))"
| "eqE same sameC (App f as a) e' =
     (same (App f as a) e' \<or>
      (case e' of App f' as' _ \<Rightarrow> length as = length as' \<and> eqE same sameC f f' \<and> loopEq (eqE same sameC) as as' | _ \<Rightarrow> False))"
| "eqE same sameC (Assign l r a) e' =
     (same (Assign l r a) e' \<or>
      (case e' of Assign x y _ \<Rightarrow> eqE same sameC l x \<and> eqE same sameC r y | _ \<Rightarrow> False))"
| "eqE same sameC (MkArray es a) e' =
     (same (MkArray es a) e' \<or>
      (case e' of MkArray es' _ \<Rightarrow> length es = length es' \<and> loopEq same es es' | _ \<Rightarrow> False))"
| "eqE same sameC (MkVariant l e a) e' =
     (same (MkVariant l e a) e' \<or>
      (case e' of MkVariant l' x _ \<Rightarrow> l = l' \<and> eqE same sameC e x | _ \<Rightarrow> False))"
| "eqE same sameC (MkRecord fs a) e' =
     (same (MkRecord fs a) e' \<or>
      (case e' of MkRecord fs' _ \<Rightarrow> length fs = length fs' \<and>
         loopEq (\<lambda>b b'. fst b = fst b' \<and> eqE same sameC (snd b) (snd b')) fs fs' | _ \<Rightarrow> False))"
| "eqE same sameC (AIndex e i a) e' =
     (same (AIndex e i a) e' \<or>
      (case e' of AIndex x y _ \<Rightarrow> eqE same sameC e x \<and> eqE same sameC i y | _ \<Rightarrow> False))"
| "eqE same sameC (Case v bs d a) e' =
     (same (Case v bs d a) e' \<or>
      (case e' of Case v' bs' d' _ \<Rightarrow> length bs = length bs' \<and> eqE same sameC v v' \<and> defaultEq (eqE same sameC) d d' \<and>
         loopEq (\<lambda>b b'. fst b = fst b' \<and> fst (snd b) = fst (snd b') \<and> eqE same sameC (snd (snd b)) (snd (snd b'))) bs bs'
       | _ \<Rightarrow> False))"
| "eqE same sameC (Switch v bs d a) e' =
     (same (Switch v bs d a) e' \<or>
      (case e' of Switch v' bs' d' _ \<Rightarrow> length bs = length bs' \<and> eqE same sameC v v' \<and> defaultEq (eqE same sameC) d d' \<and>
         loopEq (\<lambda>b b'. primEquiv (fst (fst b)) (fst (fst b')) \<and> eqE same sameC (snd b) (snd b')) bs bs' | _ \<Rightarrow> False))"
| "eqE same sameC (Proj r f a) e' =
     (same (Proj r f a) e' \<or> (case e' of Proj r' f' _ \<Rightarrow> eqE same sameC r r' \<and> f = f' | _ \<Rightarrow> False))"
| "eqE same sameC (Assump e t a) e' =
     (same (Assump e t a) e' \<or> (case e' of Assump x t' _ \<Rightarrow> eqE same sameC e x \<and> qualEq sameC t t' | _ \<Rightarrow> False))"
| "eqE same sameC (Pack e a) e' =
     (same (Pack e a) e' \<or> (case e' of Pack x _ \<Rightarrow> eqE same sameC e x | _ \<Rightarrow> False))"
| "eqE same sameC (Unpack n p e a) e' =
     (same (Unpack n p e a) e' \<or>
      (case e' of Unpack n' x y _ \<Rightarrow> n = n' \<and> eqE same sameC p x \<and> eqE same sameC e y | _ \<Rightarrow> False))"

section \<open>Laws\<close>

lemma loopEq_map: "loopEq f xs (map g xs) \<longleftrightarrow> (\<forall>x \<in> set xs. f x (g x))"
  by (auto simp: loopEq_def list_all_iff all_set_conv_all_nth)

lemma loopEq_False [simp]: "loopEq (\<lambda>_ _. False) xs ys \<longleftrightarrow> xs = []"
  by (cases xs) (auto simp: loopEq_def list_all_iff)

lemma switchCheck_clone:
  "map (\<lambda>b. fst (fst b)) bs' = map (\<lambda>b. fst (fst b)) bs \<Longrightarrow> (d' = None) = (d = None) \<Longrightarrow>
    switchCheck bs' d' = switchCheck bs d"
proof -
  assume m: "map (\<lambda>b. fst (fst b)) bs' = map (\<lambda>b. fst (fst b)) bs" and d: "(d' = None) = (d = None)"
  from m have l: "length bs' = length bs" by (rule map_eq_imp_length_eq)
  have "switchExhaustive bs' d' = switchExhaustive bs d"
    using m d l by (cases bs; cases bs') (simp_all add: switchExhaustive_def Let_def)
  then show "switchCheck bs' d' = switchCheck bs d" using m by (simp add: switchCheck_def)
qed

text \<open>The constants that equal themselves are all but those that are not a number.\<close>

fun nanPrim :: "prim \<Rightarrow> bool" where
  "nanPrim (FloatE x) = (inf32 < fMag x)"
| "nanPrim (DoubleE x) = (inf64 < fMag x)"
| "nanPrim p = False"

lemma primEquiv_self [simp]: "primEquiv p p \<longleftrightarrow> \<not> nanPrim p"
  by (cases p) (auto simp: primEquiv_def floatEq_def)

text \<open>\<open>comparable\<close>: nothing in the expression makes a comparison with a copy fail.\<close>

fun comparable :: "'e expr \<Rightarrow> bool" where
  "comparable (Const p a) = (\<not> nanPrim p)"
| "comparable (Var n a) = True"
| "comparable (LetE n e b a) = (comparable e \<and> comparable b)"
| "comparable (LetRec bs e a) = ((\<forall>b \<in> set bs. comparable (snd b)) \<and> comparable e)"
| "comparable (Fn vs e a) = comparable e"
| "comparable (App f as a) = (comparable f \<and> (\<forall>e \<in> set as. comparable e))"
| "comparable (Assign l r a) = (comparable l \<and> comparable r)"
| "comparable (MkArray es a) = (es = [])"
| "comparable (MkVariant l e a) = comparable e"
| "comparable (MkRecord fs a) = (\<forall>b \<in> set fs. comparable (snd b))"
| "comparable (AIndex e i a) = (comparable e \<and> comparable i)"
| "comparable (Case v bs d a) =
     (comparable v \<and> (\<forall>b \<in> set bs. comparable (snd (snd b))) \<and> (case d of None \<Rightarrow> True | Some e \<Rightarrow> comparable e))"
| "comparable (Switch v bs d a) =
     (comparable v \<and> (\<forall>b \<in> set bs. \<not> nanPrim (fst (fst b)) \<and> comparable (snd b)) \<and>
      (case d of None \<Rightarrow> True | Some e \<Rightarrow> comparable e))"
| "comparable (Proj r f a) = comparable r"
| "comparable (Assump e t a) = (comparable e \<and> qconstraints t = [])"
| "comparable (Pack e a) = comparable e"
| "comparable (Unpack n p e a) = (comparable p \<and> comparable e)"

lemma wfE_clone: "wfE e \<Longrightarrow> wfE (clone e)"
proof (induction e rule: clone.induct)
  case (13 v bs d a)
  have "switchCheck (map (\<lambda>b. (clonePrim (fst b), clone (snd b))) bs) (case d of None \<Rightarrow> None | Some e \<Rightarrow> Some (clone e)) =
      switchCheck bs d"
    by (rule switchCheck_clone) (auto simp: clonePrim_def split: option.splits)
  then show ?case using 13 by (auto split: option.splits)
qed (auto simp: mkFn_def mkApp_def split: option.splits)

lemma clone_idem: "clone (clone e) = clone e"
  by (induction e rule: clone.induct)
    (auto simp: mkFn_def mkApp_def clonePrim_def split: option.splits)


definition pair_array :: "unit expr" where
  "pair_array = Fn [''x''] (MkArray [Var ''x'' None, Const (IntE 1) None] None) None"


text \<open>
  A switch without a default on all the values of a type of 256 values is accepted for bytes
  and refused for characters, although it leaves no character out.
\<close>

theorem char_switch_refused:
  "mkSwitch v (map (\<lambda>i. ((CharE (char_of i), None), f i)) [0..<256]) None = Inl InexhaustiveSwitch"
proof -
  have "[0..<256] = 0 # [1..<256::nat]" by (subst upt_conv_Cons) simp_all
  then show ?thesis by (simp add: mkSwitch_def switchCheck_def switchExhaustive_def)
qed

end
