(* ===== verification/Expr_Show.thy ===== *)
theory Expr_Show
  imports Expr
begin

text \<open>
  Printing of expressions, \<open>show\<close> and \<open>showAnnotated\<close> of the classes in \<^verbatim>\<open>lib/hobbes/lang/expr.C\<close>.
  Each class has a function from the texts of its parts to its own; \<open>showE\<close> and \<open>showAnnotatedE\<close>
  call the one that fits. \<open>showFloat\<close> and \<open>showDouble\<close> are the output of floating point numbers on
  a C++ stream and \<open>showQual\<close> is \<open>showNoSimpl\<close>.
\<close>

record 'e printers =
  showFloat :: "u32 \<Rightarrow> string"
  showDouble :: "u64 \<Rightarrow> string"
  showQual :: "'e qual_type \<Rightarrow> type_error + string"

section \<open>The text of each class\<close>

fun primShow :: "'e printers \<Rightarrow> prim \<Rightarrow> string" where
  "primShow pr UnitE = ''()''"
| "primShow pr (BoolE x) = (if x then ''true'' else ''false'')"
| "primShow pr (CharE x) = [CHR 0x27, x, CHR 0x27]"
| "primShow pr (ByteE x) = hexOf x"
| "primShow pr (ShortE x) = showInt (sint x) @ ''S''"
| "primShow pr (IntE x) = showInt (sint x)"
| "primShow pr (LongE x) = showInt (sint x) @ ''L''"
| "primShow pr (FloatE x) = showFloat pr x @ ''e''"
| "primShow pr (DoubleE x) = showDouble pr x"

definition Let_show :: "string \<Rightarrow> string \<Rightarrow> string \<Rightarrow> string" where
  "Let_show v e b = ''let '' @ v @ '' = '' @ e @ '' in '' @ b"

definition LetRec_show :: "(string \<times> string) list \<Rightarrow> string \<Rightarrow> string" where
  "LetRec_show bs e =
     (if bs = [] then ''letrec {} in '' @ e
      else ''letrec '' @ cdelim (map (\<lambda>b. fst b @ '' = '' @ snd b) bs) ''; '' @ '' in '' @ e)"

definition Fn_params :: "string list \<Rightarrow> expr_error + string" where
  "Fn_params vs =
     (if vs = [] then Inl OutOfBounds
      else Inr (if hd vs \<noteq> ''_'' then cdelim vs '', '' else []))"

definition Fn_show :: "string list \<Rightarrow> string \<Rightarrow> expr_error + string" where
  "Fn_show vs b = mapR (\<lambda>s. [CHR 0x5C] @ ''('' @ s @ '').('' @ b @ '')'') (Fn_params vs)"

definition Fn_showAnnotated :: "string list \<Rightarrow> string \<Rightarrow> expr_error + string" where
  "Fn_showAnnotated vs b = mapR (\<lambda>s. ''('' @ [CHR 0x5C] @ ''('' @ s @ '').('' @ b @ ''))'') (Fn_params vs)"

definition App_show :: "'e expr \<Rightarrow> string \<Rightarrow> string list \<Rightarrow> string" where
  "App_show f s as =
     (case f of Var n _ \<Rightarrow> n | _ \<Rightarrow> ''('' @ s @ '')'') @ ''('' @ cdelim as '', '' @ '')''"

definition App_showAnnotated :: "string \<Rightarrow> string list \<Rightarrow> string" where
  "App_showAnnotated s as = ''('' @ s @ '')'' @ ''('' @ cdelim as '', '' @ '')''"

definition Assign_show :: "string \<Rightarrow> string \<Rightarrow> string" where
  "Assign_show l r = l @ '' <- '' @ r"

definition MkArray_show :: "string list \<Rightarrow> string" where
  "MkArray_show es = ''['' @ cdelim es '', '' @ '']''"

definition MkVariant_show :: "string \<Rightarrow> string \<Rightarrow> string" where
  "MkVariant_show l e = ''|'' @ l @ '' = '' @ e @ ''|''"

definition recordIsTuple :: "(string \<times> 'a) list \<Rightarrow> bool" where
  "recordIsTuple fs \<longleftrightarrow> 0 < length fs \<and> 0 < length (fst (fs ! 0)) \<and> fst (fs ! 0) ! 0 = CHR ''.''"

definition showRecord :: "(string \<times> string) list \<Rightarrow> string" where
  "showRecord fs = ''{'' @ cdelim (map (\<lambda>f. fst f @ '' = '' @ snd f) fs) '', '' @ ''}''"

definition showTuple :: "(string \<times> string) list \<Rightarrow> string" where
  "showTuple fs = ''('' @ cdelim (map snd fs) '', '' @ '')''"

definition MkRecord_show :: "(string \<times> string) list \<Rightarrow> string" where
  "MkRecord_show fs = (if recordIsTuple fs then showTuple fs else showRecord fs)"

definition AIndex_show :: "string \<Rightarrow> string \<Rightarrow> string" where
  "AIndex_show a i = ''('' @ a @ '')['' @ i @ '']''"

definition caseArm :: "string \<times> string \<times> string \<Rightarrow> string" where
  "caseArm b = (let (sel, v, e) = b in (if sel \<noteq> v then sel @ '':'' @ v else sel) @ ''.'' @ e)"

definition Case_show :: "string \<Rightarrow> (string \<times> string \<times> string) list \<Rightarrow> string option \<Rightarrow> string" where
  "Case_show v bs d =
     ''case ('' @ v @ '') {'' @ cdelim (map caseArm bs) '', '' @
     (case d of None \<Rightarrow> [] | Some e \<Rightarrow> '',default.'' @ e) @ ''}''"

text \<open>The annotated form of a case leaves the default out.\<close>

definition Case_showAnnotated :: "string \<Rightarrow> (string \<times> string \<times> string) list \<Rightarrow> string" where
  "Case_showAnnotated v bs = ''case ('' @ v @ '') {'' @ cdelim (map caseArm bs) '', '' @ ''}''"

definition Switch_show :: "string \<Rightarrow> (string \<times> string) list \<Rightarrow> string option \<Rightarrow> string" where
  "Switch_show v bs d =
     ''switch ('' @ v @ '') {'' @ concat (map (\<lambda>b. fst b @ '' => '' @ snd b @ ''; '') bs) @
     (case d of None \<Rightarrow> [] | Some e \<Rightarrow> ''default => '' @ e @ ''; '') @ ''}''"

definition Proj_show :: "string \<Rightarrow> string \<Rightarrow> string" where
  "Proj_show r f = r @ ''.'' @ f"

definition Proj_showAnnotated :: "string \<Rightarrow> string \<Rightarrow> string" where
  "Proj_showAnnotated r f = ''('' @ r @ '').'' @ f"

definition Assump_show :: "string \<Rightarrow> string \<Rightarrow> string" where
  "Assump_show e t = e @ ''::'' @ t"

definition Assump_showAnnotated :: "string \<Rightarrow> string \<Rightarrow> string" where
  "Assump_showAnnotated e t = ''('' @ e @ '')::'' @ t"

definition Pack_show :: "string \<Rightarrow> string" where
  "Pack_show e = ''pack '' @ e"

definition Pack_showAnnotated :: "string \<Rightarrow> string" where
  "Pack_showAnnotated e = ''pack ('' @ e @ '')''"

definition Unpack_show :: "string \<Rightarrow> string \<Rightarrow> string \<Rightarrow> string" where
  "Unpack_show v p b = ''unpack '' @ p @ '' as '' @ v @ '' in '' @ b"

definition Unpack_showAnnotated :: "string \<Rightarrow> string \<Rightarrow> string option \<Rightarrow> string \<Rightarrow> string" where
  "Unpack_showAnnotated v p t b =
     ''unpack ('' @ p @ '') as '' @ v @ (case t of None \<Rightarrow> [] | Some s \<Rightarrow> '' '' @ s) @ '' in '' @ b"

section \<open>Whole expressions\<close>

definition qualText :: "'e printers \<Rightarrow> 'e qual_type \<Rightarrow> expr_error + string" where
  "qualText pr t = (case showQual pr t of Inl err \<Rightarrow> Inl (TypeErr err) | Inr s \<Rightarrow> Inr s)"

definition optE :: "('a \<Rightarrow> 'x + 'b) \<Rightarrow> 'a option \<Rightarrow> 'x + 'b option" where
  "optE f d = (case d of None \<Rightarrow> Inr None | Some x \<Rightarrow> mapR Some (f x))"

lemma optE_cong [fundef_cong]:
  "d = c \<Longrightarrow> (\<And>x. x \<in> set_option c \<Longrightarrow> f x = g x) \<Longrightarrow> optE f d = optE g c"
  by (auto simp: optE_def split: option.splits)

fun showE :: "'e printers \<Rightarrow> 'e expr \<Rightarrow> expr_error + string" where
  "showE pr (Const p a) = Inr (primShow pr p)"
| "showE pr (Var n a) = Inr n"
| "showE pr (LetE n e b a) = bindE (showE pr e) (\<lambda>s. mapR (Let_show n s) (showE pr b))"
| "showE pr (LetRec bs e a) =
     bindE (mapE (\<lambda>b. mapR (Pair (fst b)) (showE pr (snd b))) bs) (\<lambda>ss. mapR (LetRec_show ss) (showE pr e))"
| "showE pr (Fn vs e a) = bindE (showE pr e) (Fn_show vs)"
| "showE pr (App f as a) = bindE (showE pr f) (\<lambda>s. mapR (App_show f s) (mapE (showE pr) as))"
| "showE pr (Assign l r a) = bindE (showE pr l) (\<lambda>s. mapR (Assign_show s) (showE pr r))"
| "showE pr (MkArray es a) = mapR MkArray_show (mapE (showE pr) es)"
| "showE pr (MkVariant l e a) = mapR (MkVariant_show l) (showE pr e)"
| "showE pr (MkRecord fs a) = mapR MkRecord_show (mapE (\<lambda>b. mapR (Pair (fst b)) (showE pr (snd b))) fs)"
| "showE pr (AIndex e i a) = bindE (showE pr e) (\<lambda>s. mapR (AIndex_show s) (showE pr i))"
| "showE pr (Case v bs d a) =
     bindE (showE pr v) (\<lambda>s.
     bindE (mapE (\<lambda>b. mapR (\<lambda>x. (fst b, fst (snd b), x)) (showE pr (snd (snd b)))) bs) (\<lambda>ss.
     mapR (Case_show s ss) (optE (showE pr) d)))"
| "showE pr (Switch v bs d a) =
     bindE (showE pr v) (\<lambda>s.
     bindE (mapE (\<lambda>b. mapR (Pair (primShow pr (fst (fst b)))) (showE pr (snd b))) bs) (\<lambda>ss.
     mapR (Switch_show s ss) (optE (showE pr) d)))"
| "showE pr (Proj r f a) = mapR (\<lambda>s. Proj_show s f) (showE pr r)"
| "showE pr (Assump e t a) = bindE (showE pr e) (\<lambda>s. mapR (Assump_show s) (qualText pr t))"
| "showE pr (Pack e a) = mapR Pack_show (showE pr e)"
| "showE pr (Unpack n p e a) = bindE (showE pr p) (\<lambda>s. mapR (Unpack_show n s) (showE pr e))"

text \<open>\<open>withTyText\<close> appends what \<open>showTy\<close> prints for the annotation.\<close>

definition withTyText :: "'e printers \<Rightarrow> 'e ann \<Rightarrow> string \<Rightarrow> expr_error + string" where
  "withTyText pr a s =
     (case a of None \<Rightarrow> Inr s | Some t \<Rightarrow> mapR (\<lambda>q. s @ '':'' @ q) (qualText pr t))"

definition unpackedTypeQ :: "'e beta \<Rightarrow> nat \<Rightarrow> 'e qual_type \<Rightarrow> type_error + 'e qual_type" where
  "unpackedTypeQ bt k t = mapR (qualtype (qconstraints t)) (unpackedType bt k (qmono t))"

definition unpackText :: "'e beta \<Rightarrow> nat \<Rightarrow> 'e printers \<Rightarrow> 'e ann \<Rightarrow> expr_error + string option" where
  "unpackText bt k pr a =
     (case a of None \<Rightarrow> Inr None
      | Some t \<Rightarrow> (case unpackedTypeQ bt k t of Inl err \<Rightarrow> Inl (TypeErr err)
                   | Inr u \<Rightarrow> mapR (\<lambda>q. Some ('':'' @ q)) (qualText pr u)))"

fun showAnnotatedE :: "'e beta \<Rightarrow> nat \<Rightarrow> 'e printers \<Rightarrow> 'e expr \<Rightarrow> expr_error + string" where
  "showAnnotatedE bt k pr (Const p a) = withTyText pr a (primShow pr p)"
| "showAnnotatedE bt k pr (Var n a) = withTyText pr a n"
| "showAnnotatedE bt k pr (LetE n e b a) =
     bindE (showAnnotatedE bt k pr e) (\<lambda>s. bindE (showAnnotatedE bt k pr b) (\<lambda>s'.
     withTyText pr a (''('' @ Let_show n s s' @ '')'')))"
| "showAnnotatedE bt k pr (LetRec bs e a) =
     bindE (mapE (\<lambda>b. mapR (Pair (fst b)) (showAnnotatedE bt k pr (snd b))) bs) (\<lambda>ss.
     mapR (LetRec_show ss) (showAnnotatedE bt k pr e))"
| "showAnnotatedE bt k pr (Fn vs e a) =
     bindE (showAnnotatedE bt k pr e) (\<lambda>s. bindE (Fn_showAnnotated vs s) (withTyText pr a))"
| "showAnnotatedE bt k pr (App f as a) =
     bindE (showAnnotatedE bt k pr f) (\<lambda>s. bindE (mapE (showAnnotatedE bt k pr) as) (\<lambda>ss.
     withTyText pr a (App_showAnnotated s ss)))"
| "showAnnotatedE bt k pr (Assign l r a) =
     bindE (showAnnotatedE bt k pr l) (\<lambda>s. mapR (Assign_show s) (showAnnotatedE bt k pr r))"
| "showAnnotatedE bt k pr (MkArray es a) =
     bindE (mapE (showAnnotatedE bt k pr) es) (\<lambda>ss. withTyText pr a (MkArray_show ss))"
| "showAnnotatedE bt k pr (MkVariant l e a) =
     bindE (showAnnotatedE bt k pr e) (\<lambda>s. withTyText pr a (MkVariant_show l s))"
| "showAnnotatedE bt k pr (MkRecord fs a) =
     bindE (mapE (\<lambda>b. mapR (Pair (fst b)) (showAnnotatedE bt k pr (snd b))) fs) (\<lambda>ss.
     withTyText pr a (MkRecord_show ss))"
| "showAnnotatedE bt k pr (AIndex e i a) =
     bindE (showAnnotatedE bt k pr e) (\<lambda>s. bindE (showAnnotatedE bt k pr i) (\<lambda>s'.
     withTyText pr a (AIndex_show s s')))"
| "showAnnotatedE bt k pr (Case v bs d a) =
     bindE (showAnnotatedE bt k pr v) (\<lambda>s.
     bindE (mapE (\<lambda>b. mapR (\<lambda>x. (fst b, fst (snd b), x)) (showAnnotatedE bt k pr (snd (snd b)))) bs) (\<lambda>ss.
     withTyText pr a (Case_showAnnotated s ss)))"
| "showAnnotatedE bt k pr (Switch v bs d a) =
     bindE (showAnnotatedE bt k pr v) (\<lambda>s.
     bindE (mapE (\<lambda>b. mapR (Pair (primShow pr (fst (fst b)))) (showAnnotatedE bt k pr (snd b))) bs) (\<lambda>ss.
     bindE (optE (showAnnotatedE bt k pr) d) (\<lambda>sd. withTyText pr a (Switch_show s ss sd))))"
| "showAnnotatedE bt k pr (Proj r f a) =
     bindE (showAnnotatedE bt k pr r) (\<lambda>s. withTyText pr a (Proj_showAnnotated s f))"
| "showAnnotatedE bt k pr (Assump e t a) =
     bindE (showAnnotatedE bt k pr e) (\<lambda>s. mapR (Assump_showAnnotated s) (qualText pr t))"
| "showAnnotatedE bt k pr (Pack e a) =
     bindE (showAnnotatedE bt k pr e) (\<lambda>s. withTyText pr a (Pack_showAnnotated s))"
| "showAnnotatedE bt k pr (Unpack n p e a) =
     bindE (showAnnotatedE bt k pr p) (\<lambda>s. bindE (unpackText bt k pr (etype p)) (\<lambda>t.
     mapR (Unpack_showAnnotated n s t) (showAnnotatedE bt k pr e)))"

definition showDef :: "'e printers \<Rightarrow> string \<times> 'e expr \<Rightarrow> expr_error + string" where
  "showDef pr d = mapR (\<lambda>s. fst d @ '' = '' @ s) (showE pr (snd d))"

definition showAnnotatedDef :: "'e beta \<Rightarrow> nat \<Rightarrow> 'e printers \<Rightarrow> string \<times> 'e expr \<Rightarrow> expr_error + string" where
  "showAnnotatedDef bt k pr d = mapR (\<lambda>s. fst d @ '' = '' @ s) (showAnnotatedE bt k pr (snd d))"

section \<open>Laws\<close>

text \<open>The printed form does not show annotations, so that a clone prints like the original.\<close>

lemma mapE_map: "mapE f (map g xs) = mapE (\<lambda>x. f (g x)) xs"
  by (induction xs) simp_all

lemma App_show_clone: "App_show (clone f) s as = App_show f s as"
  by (cases f) (simp_all add: App_show_def mkFn_def mkApp_def)

lemma showE_clone: "wfE e \<Longrightarrow> showE pr (clone e) = showE pr e"
proof (induction e rule: clone.induct)
  case (6 f as a)
  then show ?case by (auto simp: mkApp_def mapE_map App_show_clone [abs_def] intro!: bindE_cong mapE_cong arg_cong2 [where f = mapR])
qed (auto simp: mapE_map mkFn_def clonePrim_def optE_def split: option.splits intro!: bindE_cong mapE_cong arg_cong2 [where f = mapR])

end
