(* ===== verification/Expr_Ops.thy ===== *)
theory Expr_Ops
  imports Expr
begin

text \<open>
  Passes over expressions in \<^verbatim>\<open>lib/hobbes/lang/expr.C\<close>: substitution for variables and for type
  variables, free variables, the type directed transformations \<open>switchExprTyFn\<close> (that copies) and
  \<open>switchExprTyFnM\<close> (that updates in place), type assumptions, and the questions asked of annotations.

  The constructors of \<open>Fn\<close> and \<open>App\<close> normalise, as in \<^theory_text>\<open>Expr\<close>. The constructor of \<open>Switch\<close>
  repeats its test on the same selectors and the same presence of a default; the laws show that
  well-formed expressions stay so, hence that it does not throw here.
\<close>

section \<open>Substitution for variables\<close>

type_synonym 'e var_mapping = "string \<Rightarrow> 'e expr option"

definition dropNames :: "string set \<Rightarrow> 'e var_mapping \<Rightarrow> 'e var_mapping" where
  "dropNames ns vm = (\<lambda>n. if n \<in> ns then None else vm n)"

definition letrecNames :: "(string \<times> 'a) list \<Rightarrow> string set" where
  "letrecNames bs = set (map fst bs)"

fun substVar :: "'e var_mapping \<Rightarrow> 'e expr \<Rightarrow> 'e expr" where
  "substVar vm (Const p a) = clone (Const p a)"
| "substVar vm (Var n a) = (case vm n of None \<Rightarrow> clone (Var n a) | Some e \<Rightarrow> e)"
| "substVar vm (LetE n e b a) = LetE n (substVar vm e) (substVar (dropNames {n} vm) b) None"
| "substVar vm (LetRec bs e a) =
     (let vm' = dropNames (letrecNames bs) vm in
      LetRec (map (\<lambda>b. (fst b, substVar vm' (snd b))) bs) (substVar vm' e) None)"
| "substVar vm (Fn vs e a) = mkFn vs (substVar (dropNames (set vs) vm) e)"
| "substVar vm (App f as a) = mkApp (substVar vm f) (map (substVar vm) as)"
| "substVar vm (Assign l r a) = Assign (substVar vm l) (substVar vm r) None"
| "substVar vm (MkArray es a) = MkArray (map (substVar vm) es) None"
| "substVar vm (MkVariant l e a) = MkVariant l (substVar vm e) None"
| "substVar vm (MkRecord fs a) = MkRecord (map (\<lambda>b. (fst b, substVar vm (snd b))) fs) None"
| "substVar vm (AIndex e i a) = AIndex (substVar vm e) (substVar vm i) None"
| "substVar vm (Case v bs d a) =
     Case (substVar vm v)
       (map (\<lambda>b. (fst b, fst (snd b), substVar (dropNames {fst (snd b)} vm) (snd (snd b)))) bs)
       (case d of None \<Rightarrow> None | Some e \<Rightarrow> Some (substVar vm e)) None"
| "substVar vm (Switch v bs d a) =
     Switch (substVar vm v) (map (\<lambda>b. (fst b, substVar vm (snd b))) bs)
       (case d of None \<Rightarrow> None | Some e \<Rightarrow> Some (substVar vm e)) None"
| "substVar vm (Proj r f a) = Proj (substVar vm r) f None"
| "substVar vm (Assump e t a) = Assump (substVar vm e) t None"
| "substVar vm (Pack e a) = Pack (substVar vm e) None"
| "substVar vm (Unpack n p e a) = Unpack n (substVar vm p) (substVar (dropNames {n} vm) e) None"

text \<open>The flag that the same pass sets when it replaces a variable.\<close>

fun substMapped :: "'e var_mapping \<Rightarrow> 'e expr \<Rightarrow> bool" where
  "substMapped vm (Const p a) = False"
| "substMapped vm (Var n a) = (vm n \<noteq> None)"
| "substMapped vm (LetE n e b a) = (substMapped vm e \<or> substMapped (dropNames {n} vm) b)"
| "substMapped vm (LetRec bs e a) =
     (let vm' = dropNames (letrecNames bs) vm in
      list_ex (\<lambda>b. substMapped vm' (snd b)) bs \<or> substMapped vm' e)"
| "substMapped vm (Fn vs e a) = substMapped (dropNames (set vs) vm) e"
| "substMapped vm (App f as a) = (substMapped vm f \<or> list_ex (substMapped vm) as)"
| "substMapped vm (Assign l r a) = (substMapped vm l \<or> substMapped vm r)"
| "substMapped vm (MkArray es a) = list_ex (substMapped vm) es"
| "substMapped vm (MkVariant l e a) = substMapped vm e"
| "substMapped vm (MkRecord fs a) = list_ex (\<lambda>b. substMapped vm (snd b)) fs"
| "substMapped vm (AIndex e i a) = (substMapped vm e \<or> substMapped vm i)"
| "substMapped vm (Case v bs d a) =
     (list_ex (\<lambda>b. substMapped (dropNames {fst (snd b)} vm) (snd (snd b))) bs \<or>
      (case d of None \<Rightarrow> False | Some e \<Rightarrow> substMapped vm e) \<or> substMapped vm v)"
| "substMapped vm (Switch v bs d a) =
     (list_ex (\<lambda>b. substMapped vm (snd b)) bs \<or>
      (case d of None \<Rightarrow> False | Some e \<Rightarrow> substMapped vm e) \<or> substMapped vm v)"
| "substMapped vm (Proj r f a) = substMapped vm r"
| "substMapped vm (Assump e t a) = substMapped vm e"
| "substMapped vm (Pack e a) = substMapped vm e"
| "substMapped vm (Unpack n p e a) = (substMapped vm p \<or> substMapped (dropNames {n} vm) e)"

section \<open>Free variables\<close>

fun freeVars :: "'e expr \<Rightarrow> string set" where
  "freeVars (Const p a) = {}"
| "freeVars (Var n a) = {n}"
| "freeVars (LetE n e b a) = freeVars e \<union> (freeVars b - {n})"
| "freeVars (LetRec bs e a) =
     \<Union> (set (map (\<lambda>b. freeVars (snd b) - letrecNames bs) bs)) \<union> (freeVars e - letrecNames bs)"
| "freeVars (Fn vs e a) = freeVars e - set vs"
| "freeVars (App f as a) = freeVars f \<union> \<Union> (set (map freeVars as))"
| "freeVars (Assign l r a) = freeVars l \<union> freeVars r"
| "freeVars (MkArray es a) = \<Union> (set (map freeVars es))"
| "freeVars (MkVariant l e a) = freeVars e"
| "freeVars (MkRecord fs a) = \<Union> (set (map (\<lambda>b. freeVars (snd b)) fs))"
| "freeVars (AIndex e i a) = freeVars e \<union> freeVars i"
| "freeVars (Case v bs d a) =
     freeVars v \<union> \<Union> (set (map (\<lambda>b. freeVars (snd (snd b)) - {fst (snd b)}) bs)) \<union>
     (case d of None \<Rightarrow> {} | Some e \<Rightarrow> freeVars e)"
| "freeVars (Switch v bs d a) =
     freeVars v \<union> \<Union> (set (map (\<lambda>b. freeVars (snd b)) bs)) \<union> (case d of None \<Rightarrow> {} | Some e \<Rightarrow> freeVars e)"
| "freeVars (Proj r f a) = freeVars r"
| "freeVars (Assump e t a) = freeVars e"
| "freeVars (Pack e a) = freeVars e"
| "freeVars (Unpack n p e a) = freeVars p \<union> (freeVars e - {n})"

section \<open>Type directed transformations\<close>

text \<open>
  \<open>switchExprTyFn\<close> with what its subclasses change: the transformation of a type, the way a new
  node gets its annotation, and whether assumptions are dropped. \<open>None\<close> is the null annotation.
\<close>

record 'e ty_fn =
  withTy :: "'e qual_type \<Rightarrow> type_error + 'e qual_type"
  wrapWithTy :: "'e ann \<Rightarrow> 'e expr \<Rightarrow> type_error + 'e expr"
  dropAssump :: bool

definition optR :: "('a \<Rightarrow> 'x + 'b) \<Rightarrow> 'a option \<Rightarrow> 'x + 'b option" where
  "optR f d = (case d of None \<Rightarrow> Inr None | Some x \<Rightarrow> mapR Some (f x))"

lemma optR_cong [fundef_cong]:
  "d = c \<Longrightarrow> (\<And>x. x \<in> set_option c \<Longrightarrow> f x = g x) \<Longrightarrow> optR f d = optR g c"
  by (auto simp: optR_def split: option.splits)

lemma optR_simps [simp]: "optR f None = Inr None" "optR f (Some x) = mapR Some (f x)"
  by (simp_all add: optR_def)

fun tyFn :: "'e ty_fn \<Rightarrow> 'e expr \<Rightarrow> type_error + 'e expr" where
  "tyFn v (Const p a) = wrapWithTy v a (clone (Const p a))"
| "tyFn v (Var n a) = wrapWithTy v a (clone (Var n a))"
| "tyFn v (LetE n e b a) =
     bindE (tyFn v e) (\<lambda>e'. bindE (tyFn v b) (\<lambda>b'. wrapWithTy v a (LetE n e' b' None)))"
| "tyFn v (LetRec bs e a) =
     bindE (mapE (\<lambda>b. mapR (Pair (fst b)) (tyFn v (snd b))) bs) (\<lambda>bs'.
     bindE (tyFn v e) (\<lambda>e'. wrapWithTy v a (LetRec bs' e' None)))"
| "tyFn v (Fn vs e a) = bindE (tyFn v e) (\<lambda>e'. wrapWithTy v a (mkFn vs e'))"
| "tyFn v (App f as a) =
     bindE (tyFn v f) (\<lambda>f'. bindE (mapE (tyFn v) as) (\<lambda>as'. wrapWithTy v a (mkApp f' as')))"
| "tyFn v (Assign l r a) =
     bindE (tyFn v l) (\<lambda>l'. bindE (tyFn v r) (\<lambda>r'. wrapWithTy v a (Assign l' r' None)))"
| "tyFn v (MkArray es a) = bindE (mapE (tyFn v) es) (\<lambda>es'. wrapWithTy v a (MkArray es' None))"
| "tyFn v (MkVariant l e a) = bindE (tyFn v e) (\<lambda>e'. wrapWithTy v a (MkVariant l e' None))"
| "tyFn v (MkRecord fs a) =
     bindE (mapE (\<lambda>b. mapR (Pair (fst b)) (tyFn v (snd b))) fs) (\<lambda>fs'. wrapWithTy v a (MkRecord fs' None))"
| "tyFn v (AIndex e i a) =
     bindE (tyFn v e) (\<lambda>e'. bindE (tyFn v i) (\<lambda>i'. wrapWithTy v a (AIndex e' i' None)))"
| "tyFn v (Case c bs d a) =
     bindE (optR (tyFn v) d) (\<lambda>d'. bindE (tyFn v c) (\<lambda>c'.
     bindE (mapE (\<lambda>b. mapR (\<lambda>e. (fst b, fst (snd b), e)) (tyFn v (snd (snd b)))) bs) (\<lambda>bs'.
     wrapWithTy v a (Case c' bs' d' None))))"
| "tyFn v (Switch c bs d a) =
     bindE (optR (tyFn v) d) (\<lambda>d'. bindE (tyFn v c) (\<lambda>c'.
     bindE (mapE (\<lambda>b. mapR (Pair (fst b)) (tyFn v (snd b))) bs) (\<lambda>bs'.
     wrapWithTy v a (Switch c' bs' d' None))))"
| "tyFn v (Proj r f a) = bindE (tyFn v r) (\<lambda>r'. wrapWithTy v a (Proj r' f None))"
| "tyFn v (Assump e t a) =
     (if dropAssump v then tyFn v e
      else bindE (tyFn v e) (\<lambda>e'. bindE (withTy v t) (\<lambda>t'. wrapWithTy v a (Assump e' t' None))))"
| "tyFn v (Pack e a) = bindE (tyFn v e) (\<lambda>e'. wrapWithTy v a (Pack e' None))"
| "tyFn v (Unpack n p e a) =
     bindE (tyFn v p) (\<lambda>p'. bindE (tyFn v e) (\<lambda>e'. wrapWithTy v a (Unpack n p' e' None)))"

text \<open>The default \<open>wrapWithTy\<close> transforms the annotation.\<close>

definition wrapDefault :: "('e qual_type \<Rightarrow> type_error + 'e qual_type) \<Rightarrow> 'e ann \<Rightarrow> 'e expr \<Rightarrow> type_error + 'e expr" where
  "wrapDefault wt qty e = mapR (\<lambda>q. setType q e) (optR wt qty)"

definition tyFnOf :: "('e qual_type \<Rightarrow> type_error + 'e qual_type) \<Rightarrow> 'e ty_fn" where
  "tyFnOf wt = \<lparr>withTy = wt, wrapWithTy = wrapDefault wt, dropAssump = False\<rparr>"

definition substTy :: "'e beta \<Rightarrow> nat \<Rightarrow> 'e subst \<Rightarrow> 'e expr \<Rightarrow> type_error + 'e expr" where
  "substTy bt k s e = tyFn (tyFnOf (substituteQ bt k s)) e"

text \<open>Annotations become assumptions, and assumptions are dropped.\<close>

definition wrapAssump :: "'e ann \<Rightarrow> 'e expr \<Rightarrow> type_error + 'e expr" where
  "wrapAssump qty e =
     (case qty of None \<Rightarrow> Inr e | Some t \<Rightarrow> Inr (setType (Some t) (Assump (setType (Some t) e) t None)))"

definition liftTypeAsAssumpF :: "'e ty_fn" where
  "liftTypeAsAssumpF = \<lparr>withTy = Inr, wrapWithTy = wrapAssump, dropAssump = False\<rparr>"

definition liftTypesAsAssumptions :: "'e expr \<Rightarrow> type_error + 'e expr" where
  "liftTypesAsAssumptions e = tyFn liftTypeAsAssumpF e"

definition stripAssumpF :: "'e ty_fn" where
  "stripAssumpF = \<lparr>withTy = Inr, wrapWithTy = wrapDefault Inr, dropAssump = True\<rparr>"

definition stripExplicitAssumptions :: "'e expr \<Rightarrow> type_error + 'e expr" where
  "stripExplicitAssumptions e = tyFn stripAssumpF e"

fun stripAssumpHead :: "'e expr \<Rightarrow> 'e expr" where
  "stripAssumpHead (Assump e t a) = stripAssumpHead e"
| "stripAssumpHead e = e"

text \<open>
  \<open>switchExprTyFnM\<close> writes the new types into the nodes. On an expression in which no node is shared the
  effect is that of \<open>tyFnM\<close>.
\<close>

definition updateTy :: "('e qual_type \<Rightarrow> type_error + 'e qual_type) \<Rightarrow> 'e expr \<Rightarrow> type_error + 'e expr" where
  "updateTy wt e =
     (case etype e of None \<Rightarrow> Inr e | Some t \<Rightarrow> mapR (\<lambda>t'. setType (Some t') e) (wt t))"

fun tyFnM :: "('e qual_type \<Rightarrow> type_error + 'e qual_type) \<Rightarrow> 'e expr \<Rightarrow> type_error + 'e expr" where
  "tyFnM wt (Const p a) = updateTy wt (Const p a)"
| "tyFnM wt (Var n a) = updateTy wt (Var n a)"
| "tyFnM wt (LetE n e b a) =
     bindE (tyFnM wt e) (\<lambda>e'. bindE (tyFnM wt b) (\<lambda>b'. updateTy wt (LetE n e' b' a)))"
| "tyFnM wt (LetRec bs e a) =
     bindE (mapE (\<lambda>b. mapR (Pair (fst b)) (tyFnM wt (snd b))) bs) (\<lambda>bs'.
     bindE (tyFnM wt e) (\<lambda>e'. updateTy wt (LetRec bs' e' a)))"
| "tyFnM wt (Fn vs e a) = bindE (tyFnM wt e) (\<lambda>e'. updateTy wt (Fn vs e' a))"
| "tyFnM wt (App f as a) =
     bindE (tyFnM wt f) (\<lambda>f'. bindE (mapE (tyFnM wt) as) (\<lambda>as'. updateTy wt (App f' as' a)))"
| "tyFnM wt (Assign l r a) =
     bindE (tyFnM wt l) (\<lambda>l'. bindE (tyFnM wt r) (\<lambda>r'. updateTy wt (Assign l' r' a)))"
| "tyFnM wt (MkArray es a) = bindE (mapE (tyFnM wt) es) (\<lambda>es'. updateTy wt (MkArray es' a))"
| "tyFnM wt (MkVariant l e a) = bindE (tyFnM wt e) (\<lambda>e'. updateTy wt (MkVariant l e' a))"
| "tyFnM wt (MkRecord fs a) =
     bindE (mapE (\<lambda>b. mapR (Pair (fst b)) (tyFnM wt (snd b))) fs) (\<lambda>fs'. updateTy wt (MkRecord fs' a))"
| "tyFnM wt (AIndex e i a) =
     bindE (tyFnM wt e) (\<lambda>e'. bindE (tyFnM wt i) (\<lambda>i'. updateTy wt (AIndex e' i' a)))"
| "tyFnM wt (Case c bs d a) =
     bindE (optR (tyFnM wt) d) (\<lambda>d'. bindE (tyFnM wt c) (\<lambda>c'.
     bindE (mapE (\<lambda>b. mapR (\<lambda>e. (fst b, fst (snd b), e)) (tyFnM wt (snd (snd b)))) bs) (\<lambda>bs'.
     updateTy wt (Case c' bs' d' a))))"
| "tyFnM wt (Switch c bs d a) =
     bindE (optR (tyFnM wt) d) (\<lambda>d'. bindE (tyFnM wt c) (\<lambda>c'.
     bindE (mapE (\<lambda>b. mapR (Pair (fst b)) (tyFnM wt (snd b))) bs) (\<lambda>bs'.
     updateTy wt (Switch c' bs' d' a))))"
| "tyFnM wt (Proj r f a) = bindE (tyFnM wt r) (\<lambda>r'. updateTy wt (Proj r' f a))"
| "tyFnM wt (Assump e t a) =
     bindE (tyFnM wt e) (\<lambda>e'. bindE (wt t) (\<lambda>t'. updateTy wt (Assump e' t' a)))"
| "tyFnM wt (Pack e a) = bindE (tyFnM wt e) (\<lambda>e'. updateTy wt (Pack e' a))"
| "tyFnM wt (Unpack n p e a) =
     bindE (tyFnM wt p) (\<lambda>p'. bindE (tyFnM wt e) (\<lambda>e'. updateTy wt (Unpack n p' e' a)))"

section \<open>Questions about annotations\<close>

definition isConst :: "'e expr \<Rightarrow> bool" where
  "isConst e = (case e of Const p a \<Rightarrow> True | _ \<Rightarrow> False)"

definition requireMonotypeE :: "'e expr \<Rightarrow> expr_error + 'e mono_type" where
  "requireMonotypeE e =
     (case etype e of
        None \<Rightarrow> Inl NotAnnotated
      | Some t \<Rightarrow> if qconstraints t \<noteq> [] then Inl UnresolvedConstraints else Inr (qmono t))"

definition requireMonotypes :: "'e expr list \<Rightarrow> expr_error + 'e mono_type list" where
  "requireMonotypes es = mapE requireMonotypeE es"

definition annNames :: "'e ann \<Rightarrow> string set" where
  "annNames a = (case a of None \<Rightarrow> {} | Some t \<Rightarrow> tvarNamesQ t)"

fun tvarNamesE :: "'e expr \<Rightarrow> string set" where
  "tvarNamesE (Const p a) = {}"
| "tvarNamesE (Var n a) = annNames a"
| "tvarNamesE (LetE n e b a) = tvarNamesE e \<union> tvarNamesE b \<union> annNames a"
| "tvarNamesE (LetRec bs e a) = \<Union> (set (map (\<lambda>b. tvarNamesE (snd b)) bs)) \<union> tvarNamesE e \<union> annNames a"
| "tvarNamesE (Fn vs e a) = tvarNamesE e \<union> annNames a"
| "tvarNamesE (App f as a) = tvarNamesE f \<union> \<Union> (set (map tvarNamesE as)) \<union> annNames a"
| "tvarNamesE (Assign l r a) = tvarNamesE l \<union> tvarNamesE r \<union> annNames a"
| "tvarNamesE (MkArray es a) = \<Union> (set (map tvarNamesE es)) \<union> annNames a"
| "tvarNamesE (MkVariant l e a) = tvarNamesE e \<union> annNames a"
| "tvarNamesE (MkRecord fs a) = \<Union> (set (map (\<lambda>b. tvarNamesE (snd b)) fs)) \<union> annNames a"
| "tvarNamesE (AIndex e i a) = tvarNamesE e \<union> tvarNamesE i \<union> annNames a"
| "tvarNamesE (Case c bs d a) =
     tvarNamesE c \<union> \<Union> (set (map (\<lambda>b. tvarNamesE (snd (snd b))) bs)) \<union>
     (case d of None \<Rightarrow> {} | Some e \<Rightarrow> tvarNamesE e) \<union> annNames a"
| "tvarNamesE (Switch c bs d a) =
     tvarNamesE c \<union> \<Union> (set (map (\<lambda>b. tvarNamesE (snd b)) bs)) \<union>
     (case d of None \<Rightarrow> {} | Some e \<Rightarrow> tvarNamesE e) \<union> annNames a"
| "tvarNamesE (Proj r f a) = tvarNamesE r \<union> annNames a"
| "tvarNamesE (Assump e t a) = tvarNamesE e \<union> tvarNamesQ t \<union> annNames a"
| "tvarNamesE (Pack e a) = tvarNamesE e \<union> annNames a"
| "tvarNamesE (Unpack n p e a) = tvarNamesE p \<union> tvarNamesE e \<union> annNames a"

definition annSingular :: "'e ann \<Rightarrow> bool" where
  "annSingular a = (case a of None \<Rightarrow> False | Some t \<Rightarrow> isMonoSingularQ t)"

fun hasSingularType :: "'e expr \<Rightarrow> bool" where
  "hasSingularType (Const p a) = annSingular a"
| "hasSingularType (Var n a) = annSingular a"
| "hasSingularType (LetE n e b a) = (annSingular a \<and> hasSingularType e \<and> hasSingularType b)"
| "hasSingularType (LetRec bs e a) =
     (annSingular a \<and> hasSingularType e \<and> list_all (\<lambda>b. hasSingularType (snd b)) bs)"
| "hasSingularType (Fn vs e a) = (annSingular a \<and> hasSingularType e)"
| "hasSingularType (App f as a) = (annSingular a \<and> hasSingularType f \<and> list_all hasSingularType as)"
| "hasSingularType (Assign l r a) = (annSingular a \<and> hasSingularType l \<and> hasSingularType r)"
| "hasSingularType (MkArray es a) = (annSingular a \<and> list_all hasSingularType es)"
| "hasSingularType (MkVariant l e a) = (annSingular a \<and> hasSingularType e)"
| "hasSingularType (MkRecord fs a) = (annSingular a \<and> list_all (\<lambda>b. hasSingularType (snd b)) fs)"
| "hasSingularType (AIndex e i a) = (annSingular a \<and> hasSingularType e \<and> hasSingularType i)"
| "hasSingularType (Case c bs d a) =
     (annSingular a \<and> hasSingularType c \<and> (case d of None \<Rightarrow> True | Some e \<Rightarrow> hasSingularType e) \<and>
      list_all (\<lambda>b. hasSingularType (snd (snd b))) bs)"
| "hasSingularType (Switch c bs d a) =
     (annSingular a \<and> hasSingularType c \<and> (case d of None \<Rightarrow> True | Some e \<Rightarrow> hasSingularType e) \<and>
      list_all (\<lambda>b. hasSingularType (snd b)) bs)"
| "hasSingularType (Proj r f a) = (annSingular a \<and> hasSingularType r)"
| "hasSingularType (Assump e t a) = (annSingular a \<and> hasSingularType e \<and> isMonoSingularQ t)"
| "hasSingularType (Pack e a) = (annSingular a \<and> hasSingularType e)"
| "hasSingularType (Unpack n p e a) = (annSingular a \<and> hasSingularType p \<and> hasSingularType e)"

text \<open>\<open>d\<close>, \<open>r\<close> and \<open>c\<close> of \<open>tgenSizeExprF\<close>: the size of an annotation, and the larger of two results.\<close>

definition annSize :: "'e ann \<Rightarrow> type_error + int" where
  "annSize a = (case a of None \<Rightarrow> Inr 0 | Some t \<Rightarrow> tgenSizeQ t)"

definition maxE :: "'x + int \<Rightarrow> 'x + int \<Rightarrow> 'x + int" where
  "maxE x y = bindE x (\<lambda>a. mapR (max a) y)"

definition maxAll :: "('a \<Rightarrow> 'x + int) \<Rightarrow> 'a list \<Rightarrow> 'x + int \<Rightarrow> 'x + int" where
  "maxAll f xs x = foldl (\<lambda>r y. maxE r (f y)) x xs"

lemma maxAll_cong [fundef_cong]:
  "xs = ys \<Longrightarrow> a = b \<Longrightarrow> (\<And>x. x \<in> set ys \<Longrightarrow> f x = g x) \<Longrightarrow> maxAll f xs a = maxAll g ys b"
  by (simp add: maxAll_def cong: foldl_cong)

fun tgenSizeE :: "'e expr \<Rightarrow> type_error + int" where
  "tgenSizeE (Const p a) = annSize a"
| "tgenSizeE (Var n a) = annSize a"
| "tgenSizeE (LetE n e b a) = maxE (maxE (annSize a) (tgenSizeE e)) (tgenSizeE b)"
| "tgenSizeE (LetRec bs e a) = maxAll (\<lambda>b. tgenSizeE (snd b)) bs (maxE (annSize a) (tgenSizeE e))"
| "tgenSizeE (Fn vs e a) = maxE (annSize a) (tgenSizeE e)"
| "tgenSizeE (App f as a) = maxAll tgenSizeE as (maxE (annSize a) (tgenSizeE f))"
| "tgenSizeE (Assign l r a) = maxE (maxE (annSize a) (tgenSizeE l)) (tgenSizeE r)"
| "tgenSizeE (MkArray es a) = maxAll tgenSizeE es (annSize a)"
| "tgenSizeE (MkVariant l e a) = maxE (annSize a) (tgenSizeE e)"
| "tgenSizeE (MkRecord fs a) = maxAll (\<lambda>b. tgenSizeE (snd b)) fs (annSize a)"
| "tgenSizeE (AIndex e i a) = maxE (maxE (annSize a) (tgenSizeE e)) (tgenSizeE i)"
| "tgenSizeE (Case c bs d a) =
     maxAll (\<lambda>b. tgenSizeE (snd (snd b))) bs
       (case d of None \<Rightarrow> maxE (annSize a) (tgenSizeE c) | Some e \<Rightarrow> maxE (maxE (annSize a) (tgenSizeE c)) (tgenSizeE e))"
| "tgenSizeE (Switch c bs d a) =
     maxAll (\<lambda>b. tgenSizeE (snd b)) bs
       (case d of None \<Rightarrow> maxE (annSize a) (tgenSizeE c) | Some e \<Rightarrow> maxE (maxE (annSize a) (tgenSizeE c)) (tgenSizeE e))"
| "tgenSizeE (Proj r f a) = maxE (annSize a) (tgenSizeE r)"
| "tgenSizeE (Assump e t a) = maxE (maxE (annSize a) (tgenSizeE e)) (tgenSizeQ t)"
| "tgenSizeE (Pack e a) = maxE (annSize a) (tgenSizeE e)"
| "tgenSizeE (Unpack n p e a) = maxE (maxE (annSize a) (tgenSizeE p)) (tgenSizeE e)"

end
