(* ===== verification/Expr_Laws.thy ===== *)
theory Expr_Laws
  imports Expr_Ops
begin

text \<open>
  Properties of the passes over expressions: what substitution does to free variables and when it
  reports a replacement, that both kinds of type directed transformation agree, that lifted types are
  stripped again, and what the questions about annotations say.
\<close>

section \<open>Substitution\<close>

lemma letrecNames_map [simp]: "letrecNames (map (\<lambda>b. (fst b, f b)) bs) = letrecNames bs"
  by (simp add: letrecNames_def comp_def)

lemma dropNames_None [simp]: "dropNames ns vm x = None \<longleftrightarrow> x \<in> ns \<or> vm x = None"
  by (simp add: dropNames_def)

lemma dropNames_Some [simp]: "dropNames ns vm x = Some e \<longleftrightarrow> x \<notin> ns \<and> vm x = Some e"
  by (simp add: dropNames_def)

lemma mkFn_wf [simp]: "vs \<noteq> [] \<Longrightarrow> mkFn vs e = Fn vs e None"
  by (simp add: mkFn_def)

lemma mkApp_wf [simp]: "as \<noteq> [] \<Longrightarrow> mkApp f as = App f as None"
  by (simp add: mkApp_def)

lemma freeVars_clone: "wfE e \<Longrightarrow> freeVars (clone e) = freeVars e"
  by (induction e rule: clone.induct) (auto split: option.splits)

text \<open>The names that an expression binds somewhere.\<close>

fun boundNames :: "'e expr \<Rightarrow> string set" where
  "boundNames (Const p a) = {}"
| "boundNames (Var n a) = {}"
| "boundNames (LetE n e b a) = {n} \<union> boundNames e \<union> boundNames b"
| "boundNames (LetRec bs e a) = letrecNames bs \<union> (\<Union>b \<in> set bs. boundNames (snd b)) \<union> boundNames e"
| "boundNames (Fn vs e a) = set vs \<union> boundNames e"
| "boundNames (App f as a) = boundNames f \<union> (\<Union>e \<in> set as. boundNames e)"
| "boundNames (Assign l r a) = boundNames l \<union> boundNames r"
| "boundNames (MkArray es a) = (\<Union>e \<in> set es. boundNames e)"
| "boundNames (MkVariant l e a) = boundNames e"
| "boundNames (MkRecord fs a) = (\<Union>b \<in> set fs. boundNames (snd b))"
| "boundNames (AIndex e i a) = boundNames e \<union> boundNames i"
| "boundNames (Case v bs d a) =
     boundNames v \<union> (\<Union>b \<in> set bs. insert (fst (snd b)) (boundNames (snd (snd b)))) \<union>
     (case d of None \<Rightarrow> {} | Some e \<Rightarrow> boundNames e)"
| "boundNames (Switch v bs d a) =
     boundNames v \<union> (\<Union>b \<in> set bs. boundNames (snd b)) \<union> (case d of None \<Rightarrow> {} | Some e \<Rightarrow> boundNames e)"
| "boundNames (Proj r f a) = boundNames r"
| "boundNames (Assump e t a) = boundNames e"
| "boundNames (Pack e a) = boundNames e"
| "boundNames (Unpack n p e a) = {n} \<union> boundNames p \<union> boundNames e"

text \<open>
  \<open>fvs vm A\<close> is what the names of \<open>A\<close> become: a name that is replaced contributes the free variables of its
  replacement. \<open>vmNames\<close> are the free variables of all replacements.
\<close>

definition fvs :: "'e var_mapping \<Rightarrow> string set \<Rightarrow> string set" where
  "fvs vm A = (\<Union>y \<in> A. case vm y of None \<Rightarrow> {y} | Some r \<Rightarrow> freeVars r)"

definition vmNames :: "'e var_mapping \<Rightarrow> string set" where
  "vmNames vm = (\<Union>r \<in> ran vm. freeVars r)"

lemma fvs_simps [simp]:
  "fvs vm {} = {}" "fvs vm {n} = (case vm n of None \<Rightarrow> {n} | Some r \<Rightarrow> freeVars r)"
  "fvs vm (A \<union> B) = fvs vm A \<union> fvs vm B" "fvs vm (\<Union>x \<in> I. f x) = (\<Union>x \<in> I. fvs vm (f x))"
  by (auto simp: fvs_def)

lemma fvs_drop: "fvs (dropNames ns vm) A - ns \<subseteq> fvs vm (A - ns)"
  by (auto simp: fvs_def dropNames_def split: if_splits option.splits)

lemma fvs_drop_eq: "vmNames vm \<inter> ns = {} \<Longrightarrow> fvs (dropNames ns vm) A - ns = fvs vm (A - ns)"
  by (auto simp: fvs_def dropNames_def vmNames_def ran_def split: if_splits option.splits) blast

lemma fvs_keep: "A - dom vm \<subseteq> fvs vm A"
  by (auto simp: fvs_def domIff split: option.splits)

lemma vmNames_drop: "vmNames (dropNames ns vm) \<subseteq> vmNames vm"
  by (auto simp: vmNames_def ran_def dropNames_def split: if_splits)

lemma vmNames_drop_disjoint: "vmNames vm \<inter> A = {} \<Longrightarrow> vmNames (dropNames ns vm) \<inter> A = {}"
  using vmNames_drop by blast

lemma diff_fvs_drop: "S \<subseteq> fvs (dropNames ns vm) A \<Longrightarrow> S - ns \<subseteq> fvs vm (A - ns)"
  using fvs_drop by fast

lemma freeVars_subst_upper: "wfE e \<Longrightarrow> freeVars (substVar vm e) \<subseteq> fvs vm (freeVars e)"
proof (induction vm e rule: substVar.induct)
  case (3 vm n e b a)
  then show ?case using diff_fvs_drop [of _ "{n}" vm "freeVars b"] by auto
next
  case (4 vm bs e a)
  then have "freeVars (substVar (dropNames (letrecNames bs) vm) (snd b)) - letrecNames bs \<subseteq>
      fvs vm (freeVars (snd b) - letrecNames bs)" if "b \<in> set bs" for b
    using that by (intro diff_fvs_drop) simp
  moreover have "freeVars (substVar (dropNames (letrecNames bs) vm) e) - letrecNames bs \<subseteq>
      fvs vm (freeVars e - letrecNames bs)" using 4 by (intro diff_fvs_drop) simp
  ultimately show ?case by (simp add: Let_def comp_def del: UN_simps) fast
next
  case (5 vm vs e a)
  then show ?case by (simp add: diff_fvs_drop)
next
  case (12 vm v bs d a)
  then have "freeVars (substVar (dropNames {fst (snd b)} vm) (snd (snd b))) - {fst (snd b)} \<subseteq>
      fvs vm (freeVars (snd (snd b)) - {fst (snd b)})" if "b \<in> set bs" for b
    using that by (intro diff_fvs_drop) simp
  then show ?case using 12 by (cases d) (simp_all add: comp_def, fast+)
next
  case (13 vm v bs d a)
  then show ?case by (cases d) (simp_all add: comp_def, fast+)
next
  case (17 vm n p e a)
  then show ?case using diff_fvs_drop [of _ "{n}" vm "freeVars e"] by auto
qed (simp_all split: option.splits, fast+)

lemma fvs_step:
  assumes "vmNames (dropNames ns vm) \<inter> B = {} \<Longrightarrow> S = fvs (dropNames ns vm) A"
    "vmNames vm \<inter> (ns \<union> B) = {}"
  shows "S - ns = fvs vm (A - ns)"
  using assms fvs_drop_eq [of vm ns A] vmNames_drop [of ns vm] by (simp add: Int_Un_distrib) blast

lemma disjoint_UN:
  "A \<inter> (\<Union>b \<in> I. f b) = {} \<longleftrightarrow> (\<forall>b \<in> I. A \<inter> f b = {})"
  "(\<Union>b \<in> I. f b) \<inter> A = {} \<longleftrightarrow> (\<forall>b \<in> I. f b \<inter> A = {})"
  by auto

lemma freeVars_subst_exact:
  "wfE e \<Longrightarrow> vmNames vm \<inter> boundNames e = {} \<Longrightarrow> freeVars (substVar vm e) = fvs vm (freeVars e)"
proof (induction vm e rule: substVar.induct)
  case (3 vm n e b a)
  then show ?case using fvs_step [of "{n}" vm "boundNames b" "freeVars (substVar (dropNames {n} vm) b)"]
    by (simp add: Int_Un_distrib)
next
  case (4 vm bs e a)
  let ?ns = "letrecNames bs"
  have "freeVars (substVar (dropNames ?ns vm) (snd b)) - ?ns = fvs vm (freeVars (snd b) - ?ns)" if b: "b \<in> set bs" for b
    using 4(1) [OF refl b] 4(3,4) b by (intro fvs_step) auto
  moreover have "freeVars (substVar (dropNames ?ns vm) e) - ?ns = fvs vm (freeVars e - ?ns)"
    using 4(2) [OF refl] 4(3,4) by (intro fvs_step) auto
  ultimately show ?case by (simp add: Let_def comp_def del: UN_simps)
next
  case (5 vm vs e a)
  then show ?case using fvs_step [of "set vs" vm "boundNames e" "freeVars (substVar (dropNames (set vs) vm) e)"] by simp
next
  case (12 vm v bs d a)
  have "freeVars (substVar (dropNames {fst (snd b)} vm) (snd (snd b))) - {fst (snd b)} =
      fvs vm (freeVars (snd (snd b)) - {fst (snd b)})" if b: "b \<in> set bs" for b
    using 12(2) [OF b] 12(4,5) b by (intro fvs_step) auto
  then show ?case using 12(1,3-5) by (cases d) (simp_all add: comp_def Int_Un_distrib del: UN_simps)
next
  case (13 vm v bs d a)
  then show ?case by (cases d) (simp_all add: comp_def Int_Un_distrib disjoint_UN)
next
  case (17 vm n p e a)
  then show ?case using fvs_step [of "{n}" vm "boundNames e" "freeVars (substVar (dropNames {n} vm) e)"]
    by (simp add: Int_Un_distrib)
qed (simp_all add: Int_Un_distrib disjoint_UN split: option.splits)

lemma dom_dropNames [simp]: "dom (dropNames ns vm) = dom vm - ns"
  by (auto simp: dom_def dropNames_def)

lemma meets_drop: "A \<inter> (D - ns) = (A - ns) \<inter> D"
  by blast

lemma substMapped_iff: "substMapped vm e \<longleftrightarrow> freeVars e \<inter> dom vm \<noteq> {}"
proof (induction vm e rule: substMapped.induct)
  case (4 vm bs e a)
  then show ?case by (simp add: Let_def list_ex_iff meets_drop Int_Un_distrib2) blast
next
  case (12 vm v bs d a)
  then show ?case by (cases d) (simp_all add: list_ex_iff meets_drop Int_Un_distrib2, blast+)
next
  case (13 vm v bs d a)
  then show ?case by (cases d) (simp_all add: list_ex_iff Int_Un_distrib2, blast+)
qed (simp_all add: list_ex_iff meets_drop Int_Un_distrib2, (blast | auto)+)

text \<open>Substitution keeps to what the constructors ask for, so that none of them throws.\<close>

definition wfVm :: "'e var_mapping \<Rightarrow> bool" where
  "wfVm vm \<longleftrightarrow> (\<forall>r \<in> ran vm. wfE r)"

lemma wfVm_drop [simp]: "wfVm vm \<Longrightarrow> wfVm (dropNames ns vm)"
  by (auto simp: wfVm_def ran_def dropNames_def split: if_splits)

lemma wfVm_Some: "wfVm vm \<Longrightarrow> vm n = Some r \<Longrightarrow> wfE r"
  by (auto simp: wfVm_def ran_def)

lemma wfE_substVar: "wfE e \<Longrightarrow> wfVm vm \<Longrightarrow> wfE (substVar vm e)"
proof (induction vm e rule: substVar.induct)
  case (2 vm n a)
  then show ?case by (auto dest: wfVm_Some split: option.splits)
next
  case (13 vm v bs d a)
  have "switchCheck (map (\<lambda>b. (fst b, substVar vm (snd b))) bs) (case d of None \<Rightarrow> None | Some e \<Rightarrow> Some (substVar vm e)) =
      switchCheck bs d" by (rule switchCheck_clone) (auto split: option.splits)
  then show ?case using 13 by (cases d) simp_all
next
  case (12 vm v bs d a)
  then show ?case by (cases d) simp_all
qed (simp_all add: Let_def)

lemma dropNames_unmapped:
  "(\<forall>x \<in> A. x \<in> ns \<or> vm x = None) \<longleftrightarrow> (\<forall>x \<in> A - ns. vm x = None)"
  "(\<forall>x \<in> A. x = n \<or> vm x = None) \<longleftrightarrow> (\<forall>x \<in> A - {n}. vm x = None)"
  by (auto simp: Ball_def)

lemma substVar_unmapped: "wfE e \<Longrightarrow> \<forall>x \<in> freeVars e. vm x = None \<Longrightarrow> clone (substVar vm e) = clone e"
proof (induction vm e rule: substVar.induct)
  case (4 vm bs e a)
  then show ?case by (simp add: Let_def dropNames_unmapped ball_Un del: UN_simps)
next
  case (12 vm v bs d a)
  then show ?case by (cases d) (simp_all add: dropNames_unmapped ball_Un del: UN_simps)
next
  case (13 vm v bs d a)
  then show ?case by (cases d) (simp_all add: ball_Un clonePrim_def)
qed (simp_all add: dropNames_unmapped ball_Un)

text \<open>
  C19. Substitution for variables respects shadowing. A replaced variable contributes at most the free variables of
  its replacement, exactly these when the expression binds none of them; the flag tells whether a free variable
  was replaced; the result is well-formed, and is the original, annotations aside, when none was.
\<close>

theorem substVar_freeVars:
  assumes "wfE e" "wfVm vm"
  shows "freeVars (substVar vm e) \<subseteq> fvs vm (freeVars e) \<and>
    (vmNames vm \<inter> boundNames e = {} \<longrightarrow> freeVars (substVar vm e) = fvs vm (freeVars e)) \<and>
    (substMapped vm e \<longleftrightarrow> freeVars e \<inter> dom vm \<noteq> {}) \<and>
    wfE (substVar vm e) \<and> (\<not> substMapped vm e \<longrightarrow> clone (substVar vm e) = clone e)"
proof -
  have "clone (substVar vm e) = clone e" if "freeVars e \<inter> dom vm = {}"
    using that by (intro substVar_unmapped [OF assms(1)]) auto
  then show ?thesis
    using freeVars_subst_upper [OF assms(1)] freeVars_subst_exact [OF assms(1)] wfE_substVar [OF assms]
      substMapped_iff [of vm e] by blast
qed

text \<open>In the second part of the witness the binder captures the replacement.\<close>

definition pick_x :: "unit expr" where
  "pick_x = Fn [''y''] (App (Var ''x'' None) [Var ''y'' None] None) None"

lemma substVar_freeVars_witness:
  "freeVars (substVar [''x'' \<mapsto> Var ''z'' None] pick_x) = {''z''} \<and>
    substVar [''x'' \<mapsto> Var ''y'' None] pick_x = Fn [''y''] (App (Var ''y'' None) [Var ''y'' None] None) None"
proof -
  have "wfE pick_x" by (simp add: pick_x_def)
  moreover have "wfVm [''x'' \<mapsto> Var ''z'' (None :: unit ann)]" by (simp add: wfVm_def)
  ultimately have "freeVars (substVar [''x'' \<mapsto> Var ''z'' None] pick_x) = fvs [''x'' \<mapsto> Var ''z'' None] (freeVars pick_x)"
    using substVar_freeVars by (fastforce simp: pick_x_def vmNames_def)
  moreover have "freeVars pick_x = {''x''}" by (auto simp: pick_x_def)
  ultimately show ?thesis by (simp add: pick_x_def dropNames_def)
qed

section \<open>Transformations of types\<close>

lemma updateTy_wrap:
  "etype e = a \<Longrightarrow> updateTy wt e = wrapDefault wt a (setType None e)"
  by (cases e) (simp_all add: updateTy_def wrapDefault_def mapR_def split: option.splits sum.splits)

lemma updateTy_node [simp]:
  "updateTy wt (Const c0 a) = wrapDefault wt a (Const c0 None)"
  "updateTy wt (Var n a) = wrapDefault wt a (Var n None)"
  "updateTy wt (LetE n e b a) = wrapDefault wt a (LetE n e b None)"
  "updateTy wt (LetRec bs e a) = wrapDefault wt a (LetRec bs e None)"
  "updateTy wt (Fn vs e a) = wrapDefault wt a (Fn vs e None)"
  "updateTy wt (App f as a) = wrapDefault wt a (App f as None)"
  "updateTy wt (Assign l r a) = wrapDefault wt a (Assign l r None)"
  "updateTy wt (MkArray es a) = wrapDefault wt a (MkArray es None)"
  "updateTy wt (MkVariant lb e a) = wrapDefault wt a (MkVariant lb e None)"
  "updateTy wt (MkRecord fs a) = wrapDefault wt a (MkRecord fs None)"
  "updateTy wt (AIndex e i a) = wrapDefault wt a (AIndex e i None)"
  "updateTy wt (Case c cs d a) = wrapDefault wt a (Case c cs d None)"
  "updateTy wt (Switch c ss d a) = wrapDefault wt a (Switch c ss d None)"
  "updateTy wt (Proj r fn a) = wrapDefault wt a (Proj r fn None)"
  "updateTy wt (Assump e t a) = wrapDefault wt a (Assump e t None)"
  "updateTy wt (Pack e a) = wrapDefault wt a (Pack e None)"
  "updateTy wt (Unpack n p e a) = wrapDefault wt a (Unpack n p e None)"
  by (simp_all add: updateTy_wrap)

lemma tyFnOf_simps [simp]:
  "withTy (tyFnOf wt) = wt" "wrapWithTy (tyFnOf wt) = wrapDefault wt" "\<not> dropAssump (tyFnOf wt)"
  by (simp_all add: tyFnOf_def)

text \<open>
  C14. The transformation of types in place and the one that builds a new expression give the same
  expression and the same errors, whatever is done to a type.
\<close>

theorem tyFnM_agrees:
  assumes "wfE e"
  shows "tyFnM wt e = tyFn (tyFnOf wt) e"
  using assms
proof (induction e rule: clone.induct)
  case (6 f as a)
  then have "mapE (tyFnM wt) as = mapE (tyFn (tyFnOf wt)) as" by (intro mapE_cong) simp_all
  then show ?case using 6 by (auto simp: mkApp_def intro!: bindE_cong dest!: mapE_Inr_length)
next
  case (12 c bs d a)
  then show ?case by (cases d) (simp_all cong: mapE_cong)
next
  case (13 c bs d a)
  then show ?case by (cases d) (simp_all cong: mapE_cong)
qed (simp_all cong: mapE_cong)

definition typed_id :: "unit expr" where
  "typed_id = Fn [''x''] (Var ''x'' (Some (qualtype [] (TVar ''a'')))) None"

lemma tyFnM_agrees_witness:
  "tyFnM (\<lambda>q. Inr (qualtype [] (primty ''int''))) typed_id =
      Inr (Fn [''x''] (Var ''x'' (Some (qualtype [] (primty ''int'')))) None)"
  using tyFnM_agrees [of typed_id "\<lambda>q. Inr (qualtype [] (primty ''int''))"]
  by (simp add: typed_id_def wrapDefault_def)

section \<open>Assumptions\<close>

abbreviation lifter :: "'e ty_fn" where
  "lifter \<equiv> liftTypeAsAssumpF"

abbreviation stripper :: "'e ty_fn" where
  "stripper \<equiv> stripAssumpF"

lemma lifter_simps [simp]:
  "withTy lifter = Inr" "wrapWithTy lifter = wrapAssump" "\<not> dropAssump lifter"
  "withTy stripper = Inr" "wrapWithTy stripper = wrapDefault Inr" "dropAssump stripper"
  by (simp_all add: liftTypeAsAssumpF_def stripAssumpF_def)

lemma optR_Inr [simp]: "optR Inr d = Inr d"
  by (cases d) simp_all

lemma wrapDefault_Inr [simp]: "wrapDefault Inr a e = Inr (setType a e)"
  by (simp add: wrapDefault_def)

lemma strip_wrapAssump:
  assumes "etype e = None"
  shows "bindE (wrapAssump a e) (tyFn stripper) = tyFn stripper (setType a e)"
proof -
  have "setType None e = e" using assms by (cases e) simp_all
  then show ?thesis by (cases a) (simp_all add: wrapAssump_def)
qed

lemma wrapAssump_Inr: "\<exists>e'. wrapAssump a e = Inr e'"
  by (simp add: wrapAssump_def split: option.splits)

text \<open>Lifting does not throw, and stripping sees nothing of it.\<close>

definition relifts :: "'e expr \<Rightarrow> 'e expr \<Rightarrow> bool" where
  "relifts e e' \<longleftrightarrow> tyFn lifter e = Inr e' \<and> tyFn stripper e' = tyFn stripper e"

lemma relifts_all: "(\<And>x. x \<in> set xs \<Longrightarrow> \<exists>y. relifts x y) \<Longrightarrow>
    \<exists>ys. mapE (tyFn lifter) xs = Inr ys \<and> mapE (tyFn stripper) ys = mapE (tyFn stripper) xs \<and> (ys = [] \<longleftrightarrow> xs = [])"
proof (induction xs)
  case (Cons x xs)
  then obtain y ys where "relifts x y" "mapE (tyFn lifter) xs = Inr ys" "mapE (tyFn stripper) ys = mapE (tyFn stripper) xs"
    by (metis list.set_intros)
  then show ?case by (simp add: relifts_def)
qed simp

lemma relifts_fields: "(\<And>b. b \<in> set bs \<Longrightarrow> \<exists>y. relifts (snd b) y) \<Longrightarrow>
    \<exists>cs. mapE (\<lambda>b. mapR (Pair (fst b)) (tyFn lifter (snd b))) bs = Inr cs \<and>
      mapE (\<lambda>b. mapR (Pair (fst b)) (tyFn stripper (snd b))) cs = mapE (\<lambda>b. mapR (Pair (fst b)) (tyFn stripper (snd b))) bs"
proof (induction bs)
  case (Cons b bs)
  then obtain y cs where "relifts (snd b) y" "mapE (\<lambda>b. mapR (Pair (fst b)) (tyFn lifter (snd b))) bs = Inr cs"
      "mapE (\<lambda>b. mapR (Pair (fst b)) (tyFn stripper (snd b))) cs = mapE (\<lambda>b. mapR (Pair (fst b)) (tyFn stripper (snd b))) bs"
    by (metis (no_types, lifting) list.set_intros)
  then show ?case by (simp add: relifts_def)
qed simp

lemma relifts_arms: "(\<And>b. b \<in> set bs \<Longrightarrow> \<exists>y. relifts (snd (snd b)) y) \<Longrightarrow>
    \<exists>cs. mapE (\<lambda>b. mapR (\<lambda>e. (fst b, fst (snd b), e)) (tyFn lifter (snd (snd b)))) bs = Inr cs \<and>
      mapE (\<lambda>b. mapR (\<lambda>e. (fst b, fst (snd b), e)) (tyFn stripper (snd (snd b)))) cs =
      mapE (\<lambda>b. mapR (\<lambda>e. (fst b, fst (snd b), e)) (tyFn stripper (snd (snd b)))) bs"
proof (induction bs)
  case (Cons b bs)
  then obtain y cs where "relifts (snd (snd b)) y"
      "mapE (\<lambda>b. mapR (\<lambda>e. (fst b, fst (snd b), e)) (tyFn lifter (snd (snd b)))) bs = Inr cs"
      "mapE (\<lambda>b. mapR (\<lambda>e. (fst b, fst (snd b), e)) (tyFn stripper (snd (snd b)))) cs =
       mapE (\<lambda>b. mapR (\<lambda>e. (fst b, fst (snd b), e)) (tyFn stripper (snd (snd b)))) bs"
    by (metis (no_types, lifting) list.set_intros)
  then show ?case by (simp add: relifts_def)
qed simp

lemma relifts_node:
  assumes "etype e' = None" "tyFn lifter e = wrapAssump a e'" "tyFn stripper (setType a e') = tyFn stripper e"
  shows "\<exists>y. relifts e y"
  using assms strip_wrapAssump [OF assms(1), of a] wrapAssump_Inr [of a e'] by (auto simp: relifts_def)

lemma relifts_expr: "wfE e \<Longrightarrow> \<exists>e'. relifts e e'"
proof (induction e rule: clone.induct)
  case (4 bs e a)
  then obtain e' where e: "relifts e e'" by auto
  obtain cs where "mapE (\<lambda>b. mapR (Pair (fst b)) (tyFn lifter (snd b))) bs = Inr cs"
      "mapE (\<lambda>b. mapR (Pair (fst b)) (tyFn stripper (snd b))) cs = mapE (\<lambda>b. mapR (Pair (fst b)) (tyFn stripper (snd b))) bs"
    using relifts_fields [of bs] 4 by auto
  then show ?case using e by (intro relifts_node [of "LetRec cs e' None" _ a]) (auto simp: relifts_def)
next
  case (6 f as a)
  then obtain f' where f: "relifts f f'" by auto
  obtain as' where "mapE (tyFn lifter) as = Inr as'" "mapE (tyFn stripper) as' = mapE (tyFn stripper) as" "as' = [] \<longleftrightarrow> as = []"
    using relifts_all [of as] 6 by auto
  then show ?case using f 6 by (intro relifts_node [of "App f' as' None" _ a]) (auto simp: relifts_def)
next
  case (8 es a)
  obtain es' where "mapE (tyFn lifter) es = Inr es'" "mapE (tyFn stripper) es' = mapE (tyFn stripper) es"
    using relifts_all [of es] 8 by auto
  then show ?case by (intro relifts_node [of "MkArray es' None" _ a]) (auto simp: relifts_def)
next
  case (10 fs a)
  obtain cs where "mapE (\<lambda>b. mapR (Pair (fst b)) (tyFn lifter (snd b))) fs = Inr cs"
      "mapE (\<lambda>b. mapR (Pair (fst b)) (tyFn stripper (snd b))) cs = mapE (\<lambda>b. mapR (Pair (fst b)) (tyFn stripper (snd b))) fs"
    using relifts_fields [of fs] 10 by auto
  then show ?case by (intro relifts_node [of "MkRecord cs None" _ a]) (auto simp: relifts_def)
next
  case (12 v bs d a)
  then obtain v' where v: "relifts v v'" by auto
  obtain d' where d: "optR (tyFn lifter) d = Inr d'" "optR (tyFn stripper) d' = optR (tyFn stripper) d"
    using 12(3,4) by (cases d) (auto simp: relifts_def)
  obtain cs where "mapE (\<lambda>b. mapR (\<lambda>e. (fst b, fst (snd b), e)) (tyFn lifter (snd (snd b)))) bs = Inr cs"
      "mapE (\<lambda>b. mapR (\<lambda>e. (fst b, fst (snd b), e)) (tyFn stripper (snd (snd b)))) cs =
       mapE (\<lambda>b. mapR (\<lambda>e. (fst b, fst (snd b), e)) (tyFn stripper (snd (snd b)))) bs"
    using relifts_arms [of bs] 12 by auto
  then show ?case using v d by (intro relifts_node [of "Case v' cs d' None" _ a]) (auto simp: relifts_def)
next
  case (13 v bs d a)
  then obtain v' where v: "relifts v v'" by auto
  obtain d' where d: "optR (tyFn lifter) d = Inr d'" "optR (tyFn stripper) d' = optR (tyFn stripper) d"
    using 13(3,4) by (cases d) (auto simp: relifts_def)
  obtain cs where "mapE (\<lambda>b. mapR (Pair (fst b)) (tyFn lifter (snd b))) bs = Inr cs"
      "mapE (\<lambda>b. mapR (Pair (fst b)) (tyFn stripper (snd b))) cs = mapE (\<lambda>b. mapR (Pair (fst b)) (tyFn stripper (snd b))) bs"
    using relifts_fields [of bs] 13 by auto
  then show ?case using v d by (intro relifts_node [of "Switch v' cs d' None" _ a]) (auto simp: relifts_def)
next
  case (1 p a)
  then show ?case by (intro relifts_node [of "Const p None" _ a]) simp_all
next
  case (2 n a)
  then show ?case by (intro relifts_node [of "Var n None" _ a]) simp_all
next
  case (3 n e b a)
  then obtain e' b' where "relifts e e'" "relifts b b'" by auto
  then show ?case by (intro relifts_node [of "LetE n e' b' None" _ a]) (auto simp: relifts_def)
next
  case (5 vs e a)
  then obtain e' where "relifts e e'" by auto
  then show ?case using 5 by (intro relifts_node [of "Fn vs e' None" _ a]) (auto simp: relifts_def)
next
  case (7 l r a)
  then obtain l' r' where "relifts l l'" "relifts r r'" by auto
  then show ?case by (intro relifts_node [of "Assign l' r' None" _ a]) (auto simp: relifts_def)
next
  case (9 l e a)
  then obtain e' where "relifts e e'" by auto
  then show ?case by (intro relifts_node [of "MkVariant l e' None" _ a]) (auto simp: relifts_def)
next
  case (11 e i a)
  then obtain e' i' where "relifts e e'" "relifts i i'" by auto
  then show ?case by (intro relifts_node [of "AIndex e' i' None" _ a]) (auto simp: relifts_def)
next
  case (14 r f a)
  then obtain e' where "relifts r e'" by auto
  then show ?case by (intro relifts_node [of "Proj e' f None" _ a]) (auto simp: relifts_def)
next
  case (15 e t a)
  then obtain e' where "relifts e e'" by auto
  then show ?case by (intro relifts_node [of "Assump e' t None" _ a]) (auto simp: relifts_def)
next
  case (16 e a)
  then obtain e' where "relifts e e'" by auto
  then show ?case by (intro relifts_node [of "Pack e' None" _ a]) (auto simp: relifts_def)
next
  case (17 n p e a)
  then obtain e' p' where "relifts e e'" "relifts p p'" by auto
  then show ?case by (intro relifts_node [of "Unpack n p' e' None" _ a]) (auto simp: relifts_def)
qed

text \<open>
  C35. Lifting annotations to assumptions always succeeds, and stripping the assumptions gives what
  stripping the original gives: nothing is lost between two runs of inference.
\<close>

theorem strip_lift:
  assumes "wfE e"
  shows "\<exists>e'. liftTypesAsAssumptions e = Inr e' \<and> stripExplicitAssumptions e' = stripExplicitAssumptions e"
  using relifts_expr [OF assms] by (auto simp: relifts_def liftTypesAsAssumptions_def stripExplicitAssumptions_def)

lemma strip_lift_witness:
  "\<exists>e'. liftTypesAsAssumptions typed_id = Inr e' \<and> stripExplicitAssumptions e' = Inr typed_id"
proof -
  have "stripExplicitAssumptions typed_id = Inr typed_id" by (simp add: typed_id_def stripExplicitAssumptions_def)
  moreover have "wfE typed_id" by (simp add: typed_id_def)
  ultimately show ?thesis using strip_lift [of typed_id] by simp
qed

section \<open>Annotations\<close>

lemma singularQ_closed: "isMonoSingularQ t \<Longrightarrow> tvarNamesQ t = {} \<and> qconstraints t = []"
  by (simp add: isMonoSingularQ_def isMonoSingular_def tvarNamesQ_def tvarNamesCs_def)

lemma annSingular_names: "annSingular a \<Longrightarrow> annNames a = {}"
  by (auto simp: annSingular_def annNames_def singularQ_closed split: option.splits)

lemma singular_names: "hasSingularType e \<Longrightarrow> tvarNamesE e = {}"
  by (induction e rule: hasSingularType.induct)
    (auto simp: annSingular_names singularQ_closed list_all_iff split: option.splits)

lemma singular_ann: "hasSingularType e \<Longrightarrow> annSingular (etype e)"
  by (cases e) simp_all

text \<open>
  An expression of singular type mentions no type variable, and its monotype can be required.
\<close>

theorem singular_monotype:
  assumes "hasSingularType e"
  shows "tvarNamesE e = {} \<and> (\<exists>t. requireMonotypeE e = Inr t \<and> isMonoSingular t)"
  using singular_names [OF assms] singular_ann [OF assms]
  by (auto simp: annSingular_def requireMonotypeE_def isMonoSingularQ_def split: option.splits)

lemma singular_monotype_witness:
  "\<exists>t :: unit mono_type. requireMonotypeE (Const (IntE 3) (Some (qualtype [] (primty ''int'')))) = Inr t \<and> isMonoSingular t"
  using singular_monotype [of "Const (IntE 3) (Some (qualtype [] (primty ''int'')))"]
  by (simp add: annSingular_def isMonoSingularQ_def isMonoSingular_def qualtype_def primty_def)

fun unannotated :: "'e expr \<Rightarrow> bool" where
  "unannotated (Const p a) = (a = None)"
| "unannotated (Var n a) = (a = None)"
| "unannotated (LetE n e b a) = (a = None \<and> unannotated e \<and> unannotated b)"
| "unannotated (LetRec bs e a) = (a = None \<and> unannotated e \<and> (\<forall>b \<in> set bs. unannotated (snd b)))"
| "unannotated (Fn vs e a) = (a = None \<and> unannotated e)"
| "unannotated (App f as a) = (a = None \<and> unannotated f \<and> (\<forall>e \<in> set as. unannotated e))"
| "unannotated (Assign l r a) = (a = None \<and> unannotated l \<and> unannotated r)"
| "unannotated (MkArray es a) = (a = None \<and> (\<forall>e \<in> set es. unannotated e))"
| "unannotated (MkVariant l e a) = (a = None \<and> unannotated e)"
| "unannotated (MkRecord fs a) = (a = None \<and> (\<forall>b \<in> set fs. unannotated (snd b)))"
| "unannotated (AIndex e i a) = (a = None \<and> unannotated e \<and> unannotated i)"
| "unannotated (Case c bs d a) =
     (a = None \<and> unannotated c \<and> (\<forall>b \<in> set bs. unannotated (snd (snd b))) \<and>
      (case d of None \<Rightarrow> True | Some e \<Rightarrow> unannotated e))"
| "unannotated (Switch c bs d a) =
     (a = None \<and> unannotated c \<and> (\<forall>b \<in> set bs. unannotated (snd b)) \<and>
      (case d of None \<Rightarrow> True | Some e \<Rightarrow> unannotated e))"
| "unannotated (Proj r f a) = (a = None \<and> unannotated r)"
| "unannotated (Assump e t a) = False"
| "unannotated (Pack e a) = (a = None \<and> unannotated e)"
| "unannotated (Unpack n p e a) = (a = None \<and> unannotated p \<and> unannotated e)"

abbreviation sizeOr :: "bool \<Rightarrow> type_error + int" where
  "sizeOr b \<equiv> (if b then Inr 0 else Inl TGenSizeNYI)"

lemma annSize_sizeOr: "annSize a = sizeOr (a = None)"
  by (cases a) (simp_all add: annSize_def tgenSizeQ_def)

lemma maxE_sizeOr: "maxE (sizeOr a) (sizeOr b) = sizeOr (a \<and> b)"
  by (simp add: maxE_def)

lemma maxAll_sizeOr: "maxAll (\<lambda>x. sizeOr (P x)) xs (sizeOr b) = sizeOr (b \<and> (\<forall>x \<in> set xs. P x))"
proof (induction xs arbitrary: b)
  case (Cons x xs)
  have "maxAll (\<lambda>x. sizeOr (P x)) (x # xs) (sizeOr b) = maxAll (\<lambda>x. sizeOr (P x)) xs (sizeOr (b \<and> P x))"
    unfolding maxAll_def by (simp only: foldl_Cons maxE_sizeOr)
  then show ?case by (simp only: Cons.IH) simp
qed (simp add: maxAll_def)

text \<open>
  The size of the generic variables of an expression can only be asked when nothing in it is annotated, and is
  then zero: on a qualified type the question throws.
\<close>

theorem tgenSizeE_unannotated:
  "tgenSizeE e = (if unannotated e then Inr 0 else Inl TGenSizeNYI)"
proof (induction e rule: tgenSizeE.induct)
  case (12 c bs d a)
  then show ?case
    by (cases d) (simp_all only: tgenSizeE.simps option.case annSize_sizeOr maxE_sizeOr maxAll_sizeOr cong: maxAll_cong, auto)
next
  case (13 c bs d a)
  then show ?case
    by (cases d) (simp_all only: tgenSizeE.simps option.case annSize_sizeOr maxE_sizeOr maxAll_sizeOr cong: maxAll_cong, auto)
qed (simp_all only: tgenSizeE.simps annSize_sizeOr maxE_sizeOr maxAll_sizeOr tgenSizeQ_def unannotated.simps
    cong: maxAll_cong, auto simp: maxE_def)

end
