(* ===== verification/Expr_Codec.thy ===== *)
theory Expr_Codec
  imports Expr_Laws Type_Codec
begin

text \<open>
  The binary codec for expressions in \<^verbatim>\<open>lib/hobbes/lang/expr.C\<close> (\<open>encodeExprF\<close>, \<open>decode\<close>), over the stream
  codec of \<^verbatim>\<open>include/hobbes/util/codec.H\<close>. Every node is its class number, its parts, and a flag with the
  annotation behind it. As in \<^theory_text>\<open>Type_Codec\<close> a writer returns its bytes and a reader gets the bytes that are
  left; \<open>encE\<close> and \<open>decE\<close> are the codec of the expressions in types. On a stream that ends early the readers of
  the model stop with \<open>ReadPastEnd\<close>.

  A selector of a switch is read as an expression and taken for a constant; where it is none the code goes on
  with a wrong object, the model with \<open>MalformedExpr\<close>.
\<close>

section \<open>Encoding\<close>

fun catE :: "('x + bytes) list \<Rightarrow> 'x + bytes" where
  "catE [] = Inr []"
| "catE (w # ws) = bindE w (\<lambda>a. mapR (\<lambda>b. a @ b) (catE ws))"

definition vecE :: "('a \<Rightarrow> 'x + bytes) \<Rightarrow> 'a list \<Rightarrow> 'x + bytes" where
  "vecE f xs = mapR (\<lambda>bss. writeSize (length xs) @ concat bss) (mapE f xs)"

lemma vecE_cong [fundef_cong]:
  "xs = ys \<Longrightarrow> (\<And>x. x \<in> set ys \<Longrightarrow> f x = g x) \<Longrightarrow> vecE f xs = vecE g ys"
  by (simp add: vecE_def cong: mapE_cong)

fun encodePrim :: "prim \<Rightarrow> bytes" where
  "encodePrim UnitE = writeInt 0"
| "encodePrim (BoolE x) = writeInt 1 @ writeBool x"
| "encodePrim (CharE x) = writeInt 2 @ [of_char x]"
| "encodePrim (ByteE x) = writeInt 3 @ [x]"
| "encodePrim (ShortE x) = writeInt 4 @ leBytes 2 x"
| "encodePrim (IntE x) = writeInt 5 @ writeInt x"
| "encodePrim (LongE x) = writeInt 6 @ writeLong x"
| "encodePrim (FloatE x) = writeInt 7 @ leBytes 4 x"
| "encodePrim (DoubleE x) = writeInt 8 @ leBytes 8 x"

definition encodeAnn :: "('e \<Rightarrow> bytes) \<Rightarrow> 'e ann \<Rightarrow> decode_error + bytes" where
  "encodeAnn encE a =
     (case a of None \<Rightarrow> Inr (writeBool False) | Some t \<Rightarrow> mapR (\<lambda>bs. writeBool True @ bs) (encodeStreamQ encE t))"

definition encodePrimitive :: "('e \<Rightarrow> bytes) \<Rightarrow> 'e primitive \<Rightarrow> decode_error + bytes" where
  "encodePrimitive encE p = catE [Inr (encodePrim (fst p)), encodeAnn encE (snd p)]"

definition defE :: "('a \<Rightarrow> 'x + bytes) \<Rightarrow> 'a option \<Rightarrow> 'x + bytes" where
  "defE f d = (case d of None \<Rightarrow> Inr (writeBool False) | Some e \<Rightarrow> mapR (\<lambda>bs. writeBool True @ bs) (f e))"

lemma defE_cong [fundef_cong]:
  "d = c \<Longrightarrow> (\<And>x. x \<in> set_option c \<Longrightarrow> f x = g x) \<Longrightarrow> defE f d = defE g c"
  by (auto simp: defE_def split: option.splits)

fun encodeExpr :: "('e \<Rightarrow> bytes) \<Rightarrow> 'e expr \<Rightarrow> decode_error + bytes" where
  "encodeExpr w (Const p a) = encodePrimitive w (p, a)"
| "encodeExpr w (Var n a) = catE [Inr (writeInt 9 @ writeString n), encodeAnn w a]"
| "encodeExpr w (LetE n e b a) =
     catE [Inr (writeInt 10 @ writeString n), encodeExpr w e, encodeExpr w b, encodeAnn w a]"
| "encodeExpr w (LetRec bs e a) =
     catE [Inr (writeInt 11), vecE (\<lambda>b. catE [Inr (writeString (fst b)), encodeExpr w (snd b)]) bs,
       encodeExpr w e, encodeAnn w a]"
| "encodeExpr w (Fn vs e a) =
     catE [Inr (writeInt 12 @ writeVector writeString vs), encodeExpr w e, encodeAnn w a]"
| "encodeExpr w (App f as a) =
     catE [Inr (writeInt 13), encodeExpr w f, vecE (encodeExpr w) as, encodeAnn w a]"
| "encodeExpr w (Assign l r a) =
     catE [Inr (writeInt 14), encodeExpr w l, encodeExpr w r, encodeAnn w a]"
| "encodeExpr w (MkArray es a) = catE [Inr (writeInt 15), vecE (encodeExpr w) es, encodeAnn w a]"
| "encodeExpr w (MkVariant l e a) = catE [Inr (writeInt 16 @ writeString l), encodeExpr w e, encodeAnn w a]"
| "encodeExpr w (MkRecord fs a) =
     catE [Inr (writeInt 17), vecE (\<lambda>b. catE [Inr (writeString (fst b)), encodeExpr w (snd b)]) fs, encodeAnn w a]"
| "encodeExpr w (AIndex e i a) =
     catE [Inr (writeInt 18), encodeExpr w e, encodeExpr w i, encodeAnn w a]"
| "encodeExpr w (Case v bs d a) =
     catE [Inr (writeInt 19), encodeExpr w v,
       vecE (\<lambda>b. catE [Inr (writeString (fst b) @ writeString (fst (snd b))), encodeExpr w (snd (snd b))]) bs,
       defE (encodeExpr w) d, encodeAnn w a]"
| "encodeExpr w (Switch v bs d a) =
     catE [Inr (writeInt 20), encodeExpr w v,
       vecE (\<lambda>b. catE [encodePrimitive w (fst b), encodeExpr w (snd b)]) bs,
       defE (encodeExpr w) d, encodeAnn w a]"
| "encodeExpr w (Proj r f a) = catE [Inr (writeInt 21), encodeExpr w r, Inr (writeString f), encodeAnn w a]"
| "encodeExpr w (Assump e t a) = catE [Inr (writeInt 22), encodeExpr w e, encodeStreamQ w t, encodeAnn w a]"
| "encodeExpr w (Pack e a) = catE [Inr (writeInt 23), encodeExpr w e, encodeAnn w a]"
| "encodeExpr w (Unpack n p e a) =
     catE [Inr (writeInt 24 @ writeString n), encodeExpr w p, encodeExpr w e, encodeAnn w a]"

section \<open>Decoding\<close>

text \<open>One reader for each class; \<open>d\<close> reads the expressions within.\<close>

definition readWord :: "nat \<Rightarrow> 'a::len word reader" where
  "readWord n = thenR (readBytes n) (\<lambda>bs. makeR (fromLE bs))"

definition failR :: "decode_error \<Rightarrow> 'a reader" where
  "failR err inp = Inl err"

definition decodeConst :: "u32 \<Rightarrow> 'e expr reader" where
  "decodeConst c =
     (if c = 0 then makeR (Const UnitE None)
      else if c = 1 then thenR readBool (\<lambda>x. makeR (Const (BoolE x) None))
      else if c = 2 then thenR readByte (\<lambda>x. makeR (Const (CharE (char_of (unat x))) None))
      else if c = 3 then thenR readByte (\<lambda>x. makeR (Const (ByteE x) None))
      else if c = 4 then thenR (readWord 2) (\<lambda>x. makeR (Const (ShortE x) None))
      else if c = 5 then thenR readInt (\<lambda>x. makeR (Const (IntE x) None))
      else if c = 6 then thenR readLong (\<lambda>x. makeR (Const (LongE x) None))
      else if c = 8 then thenR (readWord 8) (\<lambda>x. makeR (Const (DoubleE x) None))
      else failR (UnknownExpr c))"

definition decodeLet :: "'e expr reader \<Rightarrow> 'e expr reader" where
  "decodeLet d = thenR readString (\<lambda>vn. thenR d (\<lambda>e. thenR d (\<lambda>b. makeR (LetE vn e b None))))"

definition decodePair :: "'a reader \<Rightarrow> (string \<times> 'a) reader" where
  "decodePair d = thenR readString (\<lambda>n. thenR d (\<lambda>e. makeR (n, e)))"

definition decodeLetRec :: "'e expr reader \<Rightarrow> 'e expr reader" where
  "decodeLetRec d = thenR (readVector (decodePair d)) (\<lambda>bs. thenR d (\<lambda>b. makeR (LetRec bs b None)))"

definition decodeFn :: "'e expr reader \<Rightarrow> 'e expr reader" where
  "decodeFn d = thenR (readVector readString) (\<lambda>as. thenR d (\<lambda>b. makeR (mkFn as b)))"

definition decodeApp :: "'e expr reader \<Rightarrow> 'e expr reader" where
  "decodeApp d = thenR d (\<lambda>f. thenR (readVector d) (\<lambda>as. makeR (mkApp f as)))"

definition decodeAssign :: "'e expr reader \<Rightarrow> 'e expr reader" where
  "decodeAssign d = thenR d (\<lambda>le. thenR d (\<lambda>re. makeR (Assign le re None)))"

definition decodeMkArray :: "'e expr reader \<Rightarrow> 'e expr reader" where
  "decodeMkArray d = thenR (readVector d) (\<lambda>es. makeR (MkArray es None))"

definition decodeMkVariant :: "'e expr reader \<Rightarrow> 'e expr reader" where
  "decodeMkVariant d = thenR readString (\<lambda>lbl. thenR d (\<lambda>v. makeR (MkVariant lbl v None)))"

definition decodeMkRecord :: "'e expr reader \<Rightarrow> 'e expr reader" where
  "decodeMkRecord d = thenR (readVector (decodePair d)) (\<lambda>fs. makeR (MkRecord fs None))"

definition decodeAIndex :: "'e expr reader \<Rightarrow> 'e expr reader" where
  "decodeAIndex d = thenR d (\<lambda>a. thenR d (\<lambda>i. makeR (AIndex a i None)))"

definition decodeCaseBinding :: "'e expr reader \<Rightarrow> (string \<times> string \<times> 'e expr) reader" where
  "decodeCaseBinding d = thenR readString (\<lambda>s. thenR readString (\<lambda>v. thenR d (\<lambda>e. makeR (s, v, e))))"

definition decodeDefault :: "'a reader \<Rightarrow> 'a option reader" where
  "decodeDefault d = thenR readBool (\<lambda>h. if h then thenR d (\<lambda>e. makeR (Some e)) else makeR None)"

definition decodeCase :: "'e expr reader \<Rightarrow> 'e expr reader" where
  "decodeCase d =
     thenR d (\<lambda>v. thenR (readVector (decodeCaseBinding d)) (\<lambda>bs. thenR (decodeDefault d) (\<lambda>df.
       makeR (Case v bs df None))))"

definition decodePrimitive :: "'e expr reader \<Rightarrow> 'e primitive reader" where
  "decodePrimitive d = thenR d (\<lambda>e. case e of Const p a \<Rightarrow> makeR (p, a) | _ \<Rightarrow> failR MalformedExpr)"

definition decodeSwitchBinding :: "'e expr reader \<Rightarrow> ('e primitive \<times> 'e expr) reader" where
  "decodeSwitchBinding d = thenR (decodePrimitive d) (\<lambda>p. thenR d (\<lambda>e. makeR (p, e)))"

definition decodeSwitch :: "'e expr reader \<Rightarrow> 'e expr reader" where
  "decodeSwitch d =
     thenR d (\<lambda>v. thenR (readVector (decodeSwitchBinding d)) (\<lambda>bs. thenR (decodeDefault d) (\<lambda>df.
       case mkSwitch v bs df of Inl err \<Rightarrow> failR SwitchRefused | Inr e \<Rightarrow> makeR e)))"

definition decodeProj :: "'e expr reader \<Rightarrow> 'e expr reader" where
  "decodeProj d = thenR d (\<lambda>r. thenR readString (\<lambda>f. makeR (Proj r f None)))"

definition decodeAssump :: "'e qual_type reader \<Rightarrow> 'e expr reader \<Rightarrow> 'e expr reader" where
  "decodeAssump dq d = thenR d (\<lambda>e. thenR dq (\<lambda>t. makeR (Assump e t None)))"

definition decodePack :: "'e expr reader \<Rightarrow> 'e expr reader" where
  "decodePack d = thenR d (\<lambda>e. makeR (Pack e None))"

definition decodeUnpack :: "'e expr reader \<Rightarrow> 'e expr reader" where
  "decodeUnpack d = thenR readString (\<lambda>vn. thenR d (\<lambda>p. thenR d (\<lambda>e. makeR (Unpack vn p e None))))"

definition decodeShape :: "'e qual_type reader \<Rightarrow> 'e expr reader \<Rightarrow> u32 \<Rightarrow> 'e expr reader" where
  "decodeShape dq d c =
     (if c = 9 then thenR readString (\<lambda>x. makeR (Var x None))
      else if c = 10 then decodeLet d
      else if c = 11 then decodeLetRec d
      else if c = 12 then decodeFn d
      else if c = 13 then decodeApp d
      else if c = 14 then decodeAssign d
      else if c = 15 then decodeMkArray d
      else if c = 16 then decodeMkVariant d
      else if c = 17 then decodeMkRecord d
      else if c = 18 then decodeAIndex d
      else if c = 19 then decodeCase d
      else if c = 20 then decodeSwitch d
      else if c = 21 then decodeProj d
      else if c = 22 then decodeAssump dq d
      else if c = 23 then decodePack d
      else if c = 24 then decodeUnpack d
      else decodeConst c)"

definition decodeAnn :: "'e qual_type reader \<Rightarrow> 'e expr \<Rightarrow> 'e expr reader" where
  "decodeAnn dq e =
     thenR readBool (\<lambda>h. if h then thenR dq (\<lambda>t. makeR (setType (Some t) e)) else makeR e)"

text \<open>Fuel bounds the nesting of expressions.\<close>

primrec decodeExprFrom :: "'e qual_type reader \<Rightarrow> nat \<Rightarrow> 'e expr reader" where
  "decodeExprFrom dq 0 = (\<lambda>inp. Inl DecodeFuel)"
| "decodeExprFrom dq (Suc k) =
     thenR readInt (\<lambda>c. thenR (decodeShape dq (decodeExprFrom dq k) c) (decodeAnn dq))"

definition decodeExpr :: "'e beta \<Rightarrow> (bytes \<Rightarrow> 'e option) \<Rightarrow> bytes \<Rightarrow> decode_error + 'e expr" where
  "decodeExpr bt decE inp = mapR fst (decodeExprFrom (decodeStreamQ bt decE) (Suc (length inp)) inp)"

section \<open>Round trip\<close>

text \<open>What the expression codec needs of the codec for qualified types: some types are read back.\<close>

locale qual_codec =
  fixes w :: "'e \<Rightarrow> bytes" and dq :: "'e qual_type reader" and ok :: "'e qual_type \<Rightarrow> bool"
  assumes qual_read_back: "ok t \<Longrightarrow> \<exists>bs. encodeStreamQ w t = Inr bs \<and> (\<forall>r. dq (bs @ r) = Inr (t, r))"

definition annOk :: "('e qual_type \<Rightarrow> bool) \<Rightarrow> 'e ann \<Rightarrow> bool" where
  "annOk ok a = (case a of None \<Rightarrow> True | Some t \<Rightarrow> ok t)"

fun floatPrim :: "prim \<Rightarrow> bool" where
  "floatPrim (FloatE x) = True"
| "floatPrim p = False"

abbreviation fits :: "'a list \<Rightarrow> bool" where
  "fits xs \<equiv> length xs < 2 ^ 64"

text \<open>
  The expressions that are read back: made by the constructors, with strings and vectors whose lengths fit a \<open>size_t\<close>,
  without constants of type \<open>float\<close>, and with types that are read back.
\<close>

fun codableE :: "('e qual_type \<Rightarrow> bool) \<Rightarrow> 'e expr \<Rightarrow> bool" where
  "codableE ok (Const p a) = (\<not> floatPrim p \<and> annOk ok a)"
| "codableE ok (Var n a) = (fits n \<and> annOk ok a)"
| "codableE ok (LetE n e b a) = (fits n \<and> annOk ok a \<and> codableE ok e \<and> codableE ok b)"
| "codableE ok (LetRec bs e a) =
     (fits bs \<and> annOk ok a \<and> (\<forall>b \<in> set bs. fits (fst b) \<and> codableE ok (snd b)) \<and> codableE ok e)"
| "codableE ok (Fn vs e a) = (vs \<noteq> [] \<and> fits vs \<and> (\<forall>v \<in> set vs. fits v) \<and> annOk ok a \<and> codableE ok e)"
| "codableE ok (App f as a) = (as \<noteq> [] \<and> fits as \<and> annOk ok a \<and> codableE ok f \<and> (\<forall>e \<in> set as. codableE ok e))"
| "codableE ok (Assign l r a) = (annOk ok a \<and> codableE ok l \<and> codableE ok r)"
| "codableE ok (MkArray es a) = (fits es \<and> annOk ok a \<and> (\<forall>e \<in> set es. codableE ok e))"
| "codableE ok (MkVariant l e a) = (fits l \<and> annOk ok a \<and> codableE ok e)"
| "codableE ok (MkRecord fs a) = (fits fs \<and> annOk ok a \<and> (\<forall>b \<in> set fs. fits (fst b) \<and> codableE ok (snd b)))"
| "codableE ok (AIndex e i a) = (annOk ok a \<and> codableE ok e \<and> codableE ok i)"
| "codableE ok (Case v bs d a) =
     (fits bs \<and> annOk ok a \<and> codableE ok v \<and>
      (\<forall>b \<in> set bs. fits (fst b) \<and> fits (fst (snd b)) \<and> codableE ok (snd (snd b))) \<and>
      (case d of None \<Rightarrow> True | Some e \<Rightarrow> codableE ok e))"
| "codableE ok (Switch v bs d a) =
     (fits bs \<and> annOk ok a \<and> codableE ok v \<and> switchCheck bs d = None \<and>
      (\<forall>b \<in> set bs. \<not> floatPrim (fst (fst b)) \<and> annOk ok (snd (fst b)) \<and> codableE ok (snd b)) \<and>
      (case d of None \<Rightarrow> True | Some e \<Rightarrow> codableE ok e))"
| "codableE ok (Proj r f a) = (fits f \<and> annOk ok a \<and> codableE ok r)"
| "codableE ok (Assump e t a) = (annOk ok a \<and> ok t \<and> codableE ok e)"
| "codableE ok (Pack e a) = (annOk ok a \<and> codableE ok e)"
| "codableE ok (Unpack n p e a) = (fits n \<and> annOk ok a \<and> codableE ok p \<and> codableE ok e)"

text \<open>\<open>readsBack f x bs\<close>: with fuel for as many levels as there are bytes, \<open>f\<close> reads \<open>x\<close> from \<open>bs\<close> and leaves the rest.\<close>

definition readsBack :: "(nat \<Rightarrow> 'a reader) \<Rightarrow> 'a \<Rightarrow> bytes \<Rightarrow> bool" where
  "readsBack f x bs \<longleftrightarrow> (\<forall>k r. length bs \<le> k \<longrightarrow> f k (bs @ r) = Inr (x, r))"

lemma readsBackD: "readsBack f x bs \<Longrightarrow> length bs \<le> k \<Longrightarrow> f k (bs @ r) = Inr (x, r)"
  by (simp add: readsBack_def)

lemma vecE_reads:
  assumes "fits xs" "\<And>x. x \<in> set xs \<Longrightarrow> \<exists>b. g x = Inr b \<and> readsBack f x b"
  shows "\<exists>b. vecE g xs = Inr b \<and> readsBack (\<lambda>k. readVector (f k)) xs b"
proof -
  have "\<exists>bss. mapE g xs = Inr bss \<and> length bss = length xs \<and>
      (\<forall>k r. length (concat bss) \<le> k \<longrightarrow> readN (f k) (length xs) (concat bss @ r) = Inr (xs, r))"
    using assms(2)
  proof (induction xs)
    case (Cons x xs)
    then obtain b where b: "g x = Inr b" "readsBack f x b" by (meson list.set_intros(1))
    obtain bss where "mapE g xs = Inr bss" "length bss = length xs"
        "\<forall>k r. length (concat bss) \<le> k \<longrightarrow> readN (f k) (length xs) (concat bss @ r) = Inr (xs, r)"
      using Cons.IH [OF Cons.prems [OF list.set_intros(2)]] by auto
    then show ?case using b by (auto simp: readsBackD)
  qed simp
  then obtain bss where "mapE g xs = Inr bss" "length bss = length xs"
      "\<forall>k r. length (concat bss) \<le> k \<longrightarrow> readN (f k) (length xs) (concat bss @ r) = Inr (xs, r)" by blast
  then show ?thesis
    using assms(1) by (auto simp: vecE_def readsBack_def readVector_def writeSize_def codec unat_size)
qed

lemma readStrings: "fits vs \<Longrightarrow> \<forall>v \<in> set vs. fits v \<Longrightarrow> readVector readString (writeVector writeString vs @ r) = Inr (vs, r)"
  by (rule readVector_write) (simp_all add: codec)

lemma readWord_write [codec]:
  "readWord 2 (leBytes 2 x @ r) = Inr (x :: 16 word, r)" "readWord 8 (leBytes 8 y @ r) = Inr (y :: u64, r)"
  by (simp_all add: readWord_def thenR_def makeR_def fromLE_leBytes take_bit_word_eq_self)

lemma setType_None: "etype e = None \<Longrightarrow> setType None e = e"
  by (cases e) simp_all

text \<open>What follows the class number of a constant.\<close>

definition primPayload :: "prim \<Rightarrow> bytes" where
  "primPayload p = drop 4 (encodePrim p)"

lemma encodePrim_split: "encodePrim p = writeInt (primCaseId p) @ primPayload p"
  by (cases p) (simp_all add: primPayload_def)

lemma decodeConst_reads: "\<not> floatPrim p \<Longrightarrow> decodeConst (primCaseId p) (primPayload p @ r) = Inr (Const p None, r)"
  by (cases p) (simp_all add: primPayload_def decodeConst_def thenR_def makeR_def codec char_of_byte)

lemma decodeShape_const:
  "\<not> floatPrim p \<Longrightarrow> decodeShape dq d (primCaseId p) (primPayload p @ r) = Inr (Const p None, r)"
  using decodeConst_reads [of p r] by (cases p) (simp_all add: decodeShape_def)

context qual_codec
begin

lemma ann_reads:
  assumes "annOk ok a" "etype e = None"
  shows "\<exists>b. encodeAnn w a = Inr b \<and> (\<forall>r. decodeAnn dq e (b @ r) = Inr (setType a e, r))"
proof (cases a)
  case None
  then show ?thesis
    using assms(2) by (simp add: encodeAnn_def decodeAnn_def thenR_def makeR_def codec setType_None)
next
  case (Some t)
  then obtain bs where "encodeStreamQ w t = Inr bs" "\<forall>r. dq (bs @ r) = Inr (t, r)"
    using assms(1) qual_read_back [of t] by (auto simp: annOk_def)
  then show ?thesis using Some by (simp add: encodeAnn_def decodeAnn_def thenR_def makeR_def codec)
qed

lemma node_reads:
  assumes "annOk ok a" "etype e = None"
    "\<And>ab. encodeAnn w a = Inr ab \<Longrightarrow> encodeExpr w (setType a e) = Inr (writeInt c @ p @ ab)"
    "\<And>k r. length p \<le> k \<Longrightarrow> decodeShape dq (decodeExprFrom dq k) c (p @ r) = Inr (e, r)"
  shows "\<exists>b. encodeExpr w (setType a e) = Inr b \<and> readsBack (decodeExprFrom dq) (setType a e) b"
proof -
  obtain ab where ab: "encodeAnn w a = Inr ab" "\<forall>r. decodeAnn dq e (ab @ r) = Inr (setType a e, r)"
    using ann_reads [OF assms(1,2)] by blast
  have "decodeExprFrom dq k ((writeInt c @ p @ ab) @ r) = Inr (setType a e, r)"
    if "length (writeInt c @ p @ ab) \<le> k" for k r
    using that assms(4) ab(2) by (cases k) (simp_all add: thenR_def codec)
  then show ?thesis using assms(3) [OF ab(1)] by (auto simp: readsBack_def)
qed

lemma const_reads:
  assumes "\<not> floatPrim p" "annOk ok a"
  shows "\<exists>b. encodePrimitive w (p, a) = Inr b \<and> readsBack (decodeExprFrom dq) (Const p a) b"
proof -
  have enc: "encodeExpr w (setType a (Const p None)) = Inr (writeInt (primCaseId p) @ primPayload p @ ab)"
    if "encodeAnn w a = Inr ab" for ab
    using that encodePrim_split [of p] by (simp add: encodePrimitive_def)
  have "\<exists>b. encodeExpr w (setType a (Const p None)) = Inr b \<and>
      readsBack (decodeExprFrom dq) (setType a (Const p None)) b"
    by (rule node_reads [OF assms(2) _ enc]) (simp_all add: decodeShape_const assms(1))
  then show ?thesis by simp
qed

lemma default_reads:
  assumes "\<And>e. d = Some e \<Longrightarrow> \<exists>b. g e = Inr b \<and> readsBack f e b"
  shows "\<exists>b. defE g d = Inr b \<and> readsBack (\<lambda>k. decodeDefault (f k)) d b"
proof (cases d)
  case (Some e)
  then obtain b where "g e = Inr b" "readsBack f e b" using assms by blast
  then show ?thesis using Some by (simp add: defE_def decodeDefault_def readsBack_def thenR_def makeR_def codec)
qed (simp add: defE_def decodeDefault_def readsBack_def thenR_def makeR_def codec)

text \<open>Parts of the expressions that are pairs or triples of names and an expression.\<close>

lemma field_reads:
  assumes "fits (fst x)" "\<exists>b. encodeExpr w (snd x) = Inr b \<and> readsBack (decodeExprFrom dq) (snd x) b"
  shows "\<exists>b. catE [Inr (writeString (fst x)), encodeExpr w (snd x)] = Inr b \<and>
    readsBack (\<lambda>k. decodePair (decodeExprFrom dq k)) x b"
  using assms by (cases x) (auto simp: readsBack_def decodePair_def thenR_def makeR_def codec)

lemma arm_reads:
  assumes "fits (fst x)" "fits (fst (snd x))"
    "\<exists>b. encodeExpr w (snd (snd x)) = Inr b \<and> readsBack (decodeExprFrom dq) (snd (snd x)) b"
  shows "\<exists>b. catE [Inr (writeString (fst x) @ writeString (fst (snd x))), encodeExpr w (snd (snd x))] = Inr b \<and>
    readsBack (\<lambda>k. decodeCaseBinding (decodeExprFrom dq k)) x b"
  using assms by (cases x) (auto simp: readsBack_def decodeCaseBinding_def thenR_def makeR_def codec)

lemma branch_reads:
  assumes "\<not> floatPrim (fst (fst x))" "annOk ok (snd (fst x))"
    "\<exists>b. encodeExpr w (snd x) = Inr b \<and> readsBack (decodeExprFrom dq) (snd x) b"
  shows "\<exists>b. catE [encodePrimitive w (fst x), encodeExpr w (snd x)] = Inr b \<and>
    readsBack (\<lambda>k. decodeSwitchBinding (decodeExprFrom dq k)) x b"
proof -
  obtain b b' where "encodePrimitive w (fst x) = Inr b" "readsBack (decodeExprFrom dq) (Const (fst (fst x)) (snd (fst x))) b"
    "encodeExpr w (snd x) = Inr b'" "readsBack (decodeExprFrom dq) (snd x) b'"
    using const_reads [OF assms(1,2)] assms(3) by auto
  then show ?thesis
    by (cases x) (auto simp: readsBack_def decodeSwitchBinding_def decodePrimitive_def thenR_def makeR_def)
qed

lemmas reads = decodeShape_def thenR_def makeR_def codec readsBackD

lemma expr_reads:
  "codableE ok e \<Longrightarrow> \<exists>b. encodeExpr w e = Inr b \<and> readsBack (decodeExprFrom dq) e b"
proof (induction e rule: clone.induct)
  case (1 p a)
  then show ?case using const_reads [of p a] by simp
next
  case (2 n a)
  then show ?case using node_reads [of a "Var n None" 9 "writeString n"] by (simp add: reads)
next
  case (3 n e b a)
  then obtain x y where "encodeExpr w e = Inr x" "readsBack (decodeExprFrom dq) e x"
      "encodeExpr w b = Inr y" "readsBack (decodeExprFrom dq) b y" by auto
  then show ?case using 3 node_reads [of a "LetE n e b None" 10 "writeString n @ x @ y"]
    by (simp add: reads decodeLet_def)
next
  case (4 bs e a)
  then obtain x where "encodeExpr w e = Inr x" "readsBack (decodeExprFrom dq) e x" by auto
  moreover obtain y where "vecE (\<lambda>b. catE [Inr (writeString (fst b)), encodeExpr w (snd b)]) bs = Inr y"
      "readsBack (\<lambda>k. readVector (decodePair (decodeExprFrom dq k))) bs y"
    using vecE_reads [OF _ field_reads, of bs] 4 by auto
  ultimately show ?case using 4 node_reads [of a "LetRec bs e None" 11 "y @ x"]
    by (simp add: reads decodeLetRec_def readsBackD [of "\<lambda>k. readVector (decodePair (decodeExprFrom dq k))"])
next
  case (5 vs e a)
  then obtain x where "encodeExpr w e = Inr x" "readsBack (decodeExprFrom dq) e x" by auto
  then show ?case using 5 node_reads [of a "Fn vs e None" 12 "writeVector writeString vs @ x"]
    by (simp add: reads decodeFn_def readStrings)
next
  case (6 f as a)
  then obtain x where "encodeExpr w f = Inr x" "readsBack (decodeExprFrom dq) f x" by auto
  moreover obtain y where "vecE (encodeExpr w) as = Inr y" "readsBack (\<lambda>k. readVector (decodeExprFrom dq k)) as y"
    using vecE_reads [of as "encodeExpr w" "decodeExprFrom dq"] 6 by auto
  ultimately show ?case using 6 node_reads [of a "App f as None" 13 "x @ y"]
    by (simp add: reads decodeApp_def readsBackD [of "\<lambda>k. readVector (decodeExprFrom dq k)"])
next
  case (7 l r a)
  then obtain x y where "encodeExpr w l = Inr x" "readsBack (decodeExprFrom dq) l x"
      "encodeExpr w r = Inr y" "readsBack (decodeExprFrom dq) r y" by auto
  then show ?case using 7 node_reads [of a "Assign l r None" 14 "x @ y"] by (simp add: reads decodeAssign_def)
next
  case (8 es a)
  then obtain y where "vecE (encodeExpr w) es = Inr y" "readsBack (\<lambda>k. readVector (decodeExprFrom dq k)) es y"
    using vecE_reads [of es "encodeExpr w" "decodeExprFrom dq"] by auto
  then show ?case using 8 node_reads [of a "MkArray es None" 15 y]
    by (simp add: reads decodeMkArray_def readsBackD [of "\<lambda>k. readVector (decodeExprFrom dq k)"])
next
  case (9 l e a)
  then obtain x where "encodeExpr w e = Inr x" "readsBack (decodeExprFrom dq) e x" by auto
  then show ?case using 9 node_reads [of a "MkVariant l e None" 16 "writeString l @ x"]
    by (simp add: reads decodeMkVariant_def)
next
  case (10 fs a)
  then obtain y where "vecE (\<lambda>b. catE [Inr (writeString (fst b)), encodeExpr w (snd b)]) fs = Inr y"
      "readsBack (\<lambda>k. readVector (decodePair (decodeExprFrom dq k))) fs y"
    using vecE_reads [OF _ field_reads, of fs] by auto
  then show ?case using 10 node_reads [of a "MkRecord fs None" 17 y]
    by (simp add: reads decodeMkRecord_def readsBackD [of "\<lambda>k. readVector (decodePair (decodeExprFrom dq k))"])
next
  case (11 e i a)
  then obtain x y where "encodeExpr w e = Inr x" "readsBack (decodeExprFrom dq) e x"
      "encodeExpr w i = Inr y" "readsBack (decodeExprFrom dq) i y" by auto
  then show ?case using 11 node_reads [of a "AIndex e i None" 18 "x @ y"] by (simp add: reads decodeAIndex_def)
next
  case (12 v bs d a)
  then obtain x where "encodeExpr w v = Inr x" "readsBack (decodeExprFrom dq) v x" by auto
  moreover obtain y where
      "vecE (\<lambda>b. catE [Inr (writeString (fst b) @ writeString (fst (snd b))), encodeExpr w (snd (snd b))]) bs = Inr y"
      "readsBack (\<lambda>k. readVector (decodeCaseBinding (decodeExprFrom dq k))) bs y"
    using vecE_reads [OF _ arm_reads, of bs] 12 by auto
  moreover obtain z where "defE (encodeExpr w) d = Inr z" "readsBack (\<lambda>k. decodeDefault (decodeExprFrom dq k)) d z"
    using default_reads [of d "encodeExpr w" "decodeExprFrom dq"] 12(3,4) by (cases d) auto
  ultimately show ?case using 12(4) node_reads [of a "Case v bs d None" 19 "x @ y @ z"]
    by (simp add: reads decodeCase_def readsBackD [of "\<lambda>k. readVector (decodeCaseBinding (decodeExprFrom dq k))"]
        readsBackD [of "\<lambda>k. decodeDefault (decodeExprFrom dq k)"])
next
  case (13 v bs d a)
  then obtain x where "encodeExpr w v = Inr x" "readsBack (decodeExprFrom dq) v x" by auto
  moreover obtain y where "vecE (\<lambda>b. catE [encodePrimitive w (fst b), encodeExpr w (snd b)]) bs = Inr y"
      "readsBack (\<lambda>k. readVector (decodeSwitchBinding (decodeExprFrom dq k))) bs y"
    using vecE_reads [OF _ branch_reads, of bs] 13 by auto
  moreover obtain z where "defE (encodeExpr w) d = Inr z" "readsBack (\<lambda>k. decodeDefault (decodeExprFrom dq k)) d z"
    using default_reads [of d "encodeExpr w" "decodeExprFrom dq"] 13(3,4) by (cases d) auto
  ultimately show ?case using 13(4) node_reads [of a "Switch v bs d None" 20 "x @ y @ z"]
    by (simp add: reads decodeSwitch_def mkSwitch_def readsBackD [of "\<lambda>k. readVector (decodeSwitchBinding (decodeExprFrom dq k))"]
        readsBackD [of "\<lambda>k. decodeDefault (decodeExprFrom dq k)"])
next
  case (14 r f a)
  then obtain x where "encodeExpr w r = Inr x" "readsBack (decodeExprFrom dq) r x" by auto
  then show ?case using 14 node_reads [of a "Proj r f None" 21 "x @ writeString f"] by (simp add: reads decodeProj_def)
next
  case (15 e t a)
  then obtain x where "encodeExpr w e = Inr x" "readsBack (decodeExprFrom dq) e x" by auto
  moreover obtain y where "encodeStreamQ w t = Inr y" "\<And>r. dq (y @ r) = Inr (t, r)"
    using qual_read_back [of t] 15 by auto
  ultimately show ?case using 15 node_reads [of a "Assump e t None" 22 "x @ y"] by (simp add: reads decodeAssump_def)
next
  case (16 e a)
  then obtain x where "encodeExpr w e = Inr x" "readsBack (decodeExprFrom dq) e x" by auto
  then show ?case using 16 node_reads [of a "Pack e None" 23 x] by (simp add: reads decodePack_def)
next
  case (17 n p e a)
  then obtain x y where "encodeExpr w p = Inr x" "readsBack (decodeExprFrom dq) p x"
      "encodeExpr w e = Inr y" "readsBack (decodeExprFrom dq) e y" by auto
  then show ?case using 17 node_reads [of a "Unpack n p e None" 24 "writeString n @ x @ y"]
    by (simp add: reads decodeUnpack_def)
qed

end

text \<open>The codec of types, on qualified types without constraints.\<close>

definition codableQ :: "'e beta \<Rightarrow> ('e \<Rightarrow> bytes) \<Rightarrow> (bytes \<Rightarrow> 'e option) \<Rightarrow> 'e qual_type \<Rightarrow> bool" where
  "codableQ bt w decE t \<longleftrightarrow>
     qconstraints t = [] \<and> codable bt w decE (qmono t) \<and> length (encodeMT w (qmono t)) < 2 ^ 64"

interpretation typeq: qual_codec w "decodeStreamQ bt decE" "codableQ bt w decE" for w bt decE
proof
  fix t assume t: "codableQ bt w decE t"
  then have q: "qualtype [] (qmono t) = t" by (simp add: codableQ_def qualtype_def)
  then obtain bs where "encodeStreamQ w (qualtype [] (qmono t)) = Inr bs"
    using t by (simp add: encodeStreamQ_def codableQ_def isMonotypeQ_def)
  then show "\<exists>bs. encodeStreamQ w t = Inr bs \<and> (\<forall>r. decodeStreamQ bt decE (bs @ r) = Inr (t, r))"
    using decodeStreamQ_encode [of bt w decE "qmono t"] t q by (auto simp: codableQ_def)
qed


definition typed_switch :: "unit expr" where
  "typed_switch =
     Switch (Var ''b'' (Some (qualtype [] (primty ''bool''))))
       [((BoolE True, None), Const (ShortE 7) None), ((BoolE False, None), Var ''x'' None)] None None"


text \<open>
  Constants of type \<open>float\<close> are written and cannot be read: \<open>decode\<close> has no case for their class.
\<close>

theorem float_not_decodable:
  "\<exists>bs. encodeExpr w (Const (FloatE x) None) = Inr bs \<and> decodeExpr bt decE bs = Inl (UnknownExpr 7)"
  by (simp add: encodePrimitive_def encodeAnn_def decodeExpr_def thenR_def codec decodeShape_def decodeConst_def failR_def)

section \<open>Termination\<close>

lemma readWord_readers [readers]: "shrinks (readWord n)" "safe k (readWord n)"
  unfolding readWord_def by (intro readers)+

lemma failR_readers [readers]: "shrinks (failR err)" "err \<noteq> DecodeFuel \<Longrightarrow> safe k (failR err)"
  by (simp_all add: shrinks_def safe_def failR_def)

lemmas exprReaders = decodeShape_def decodeConst_def decodeLet_def decodeLetRec_def decodePair_def decodeFn_def
  decodeApp_def decodeAssign_def decodeMkArray_def decodeMkVariant_def decodeMkRecord_def decodeAIndex_def
  decodeCase_def decodeCaseBinding_def decodeDefault_def decodeSwitch_def decodeSwitchBinding_def
  decodeProj_def decodeAssump_def decodePack_def decodeUnpack_def

lemma decodePrimitive_readers:
  "shrinks d \<Longrightarrow> shrinks (decodePrimitive d)" "shrinks d \<Longrightarrow> safe k d \<Longrightarrow> safe k (decodePrimitive d)"
proof -
  have c: "shrinks (case e of Const p a \<Rightarrow> makeR (p, a) | _ \<Rightarrow> failR MalformedExpr)"
    "safe k (case e of Const p a \<Rightarrow> makeR (p, a) | _ \<Rightarrow> failR MalformedExpr)" for e :: "'a expr"
    by (cases e; simp add: readers)+
  show "shrinks d \<Longrightarrow> shrinks (decodePrimitive d)"
    unfolding decodePrimitive_def by (rule thenR_readers(1) [OF _ c(1)])
  show "shrinks d \<Longrightarrow> safe k d \<Longrightarrow> safe k (decodePrimitive d)"
    unfolding decodePrimitive_def by (rule thenR_readers(2) [OF _ _ c(2)])
qed

lemma mkSwitch_readers:
  "shrinks (case mkSwitch v bs df of Inl err \<Rightarrow> failR SwitchRefused | Inr e \<Rightarrow> makeR e)"
  "safe k (case mkSwitch v bs df of Inl err \<Rightarrow> failR SwitchRefused | Inr e \<Rightarrow> makeR e)"
  by (simp_all add: readers split: sum.splits)

lemma decodeStream_readers:
  "shrinks (decodeStream bt decE)" "safe k (decodeStream bt decE)"
proof -
  have c: "shrinks (\<lambda>inp. if cs = [] then Inl StreamCorrupted else mapR (\<lambda>t. (t, inp)) (decode bt decE cs))"
    "safe k (\<lambda>inp. if cs = [] then Inl StreamCorrupted else mapR (\<lambda>t. (t, inp)) (decode bt decE cs))" for cs
    using decodeFrom_safe [of "Suc (length cs)" bt decE]
    by (auto simp: shrinks_def safe_def mapR_def decode_def split: sum.splits simp del: decodeFrom.simps)
  have v: "shrinks (readVector readByte)" "safe k (readVector readByte)" by (intro readers)+
  show "shrinks (decodeStream bt decE)" "safe k (decodeStream bt decE)"
    unfolding decodeStream_def by (rule thenR_readers(1) [OF v(1) c(1)], rule thenR_readers(2) [OF v(2,1) c(2)])
qed

lemma decodeStreamQ_readers:
  "shrinks (decodeStreamQ bt decE)" "safe k (decodeStreamQ bt decE)"
  unfolding decodeStreamQ_def by (intro readers decodeStream_readers)+

lemma decodeAnn_readers:
  "shrinks dq \<Longrightarrow> shrinks (decodeAnn dq e)" "shrinks dq \<Longrightarrow> safe k dq \<Longrightarrow> safe k (decodeAnn dq e)"
  unfolding decodeAnn_def by (intro readers; assumption)+

lemma decodeShape_readers:
  "shrinks dq \<Longrightarrow> shrinks d \<Longrightarrow> shrinks (decodeShape dq d c)"
  "shrinks dq \<Longrightarrow> safe k dq \<Longrightarrow> shrinks d \<Longrightarrow> safe k d \<Longrightarrow> safe k (decodeShape dq d c)"
  unfolding exprReaders
  by (intro readers decodePrimitive_readers mkSwitch_readers; (assumption | simp))+

lemma decodeExprFrom_readers:
  "shrinks dq \<Longrightarrow> shrinks (decodeExprFrom dq k)"
  "shrinks dq \<Longrightarrow> (\<And>k. safe k dq) \<Longrightarrow> safe k (decodeExprFrom dq k)"
proof -
  show s: "shrinks dq \<Longrightarrow> shrinks (decodeExprFrom dq k)" for k
  proof (induction k)
    case (Suc k)
    then show ?case unfolding decodeExprFrom.simps by (intro readers decodeShape_readers decodeAnn_readers; simp)
  qed (simp add: shrinks_def)
  show "shrinks dq \<Longrightarrow> (\<And>k. safe k dq) \<Longrightarrow> safe k (decodeExprFrom dq k)"
  proof (induction k)
    case (Suc k)
    then show ?case unfolding decodeExprFrom.simps
      by (intro thenR_readInt_safe readers decodeShape_readers decodeAnn_readers s) simp_all
  qed (simp add: safe_def)
qed

text \<open>
  Decoding an expression ends on every input: it gives an expression or says what is wrong.
\<close>

theorem decodeExpr_ends: "decodeExpr bt decE inp \<noteq> Inl DecodeFuel"
  using decodeExprFrom_readers(2) [OF decodeStreamQ_readers, of "Suc (length inp)" bt decE]
  by (cases "decodeExprFrom (decodeStreamQ bt decE) (Suc (length inp)) inp")
    (auto simp: decodeExpr_def safe_def simp del: decodeExprFrom.simps)

end
