(* ===== verification/Macro_Expand.thy ===== *)
theory Macro_Expand
  imports Expr_Laws
begin

text \<open>
  Macro expansion, \<^verbatim>\<open>lib/hobbes/lang/macroexpand.C\<close>: after type inference the short circuit operators
  \<open>and\<close> and \<open>or\<close> become uses of \<open>if\<close>. New nodes are annotated, and the other nodes keep their annotation.
  The arguments of an operator are read by index: fewer than two are read outside the vector, which has
  no meaning in C++ (\<open>OutOfBounds\<close> in the model).
\<close>

section \<open>The operators\<close>

abbreviation boolTy :: "'e mono_type" where
  "boolTy \<equiv> Prim ''bool'' None"

abbreviation ofBool :: "'e expr \<Rightarrow> 'e expr" where
  "ofBool e \<equiv> setType (Some (qualtype [] boolTy)) e"

definition boolFn :: "'e beta \<Rightarrow> nat \<Rightarrow> expr_error + 'e qual_type" where
  "boolFn bt n =
     (case tuple bt (replicate n boolTy) of Inl err \<Rightarrow> Inl (TypeErr err) | Inr t \<Rightarrow> Inr (qualtype [] (Func t boolTy)))"

definition macroIf :: "'e beta \<Rightarrow> 'e expr \<Rightarrow> 'e expr \<Rightarrow> 'e expr \<Rightarrow> expr_error + 'e expr" where
  "macroIf bt c t e =
     mapR (\<lambda>q. ofBool (mkApp (setType (Some q) (Var ''if'' None)) [c, t, e])) (boolFn bt 3)"

definition macroExpandAnd :: "'e beta \<Rightarrow> 'e expr list \<Rightarrow> expr_error + 'e expr" where
  "macroExpandAnd bt es =
     (case es of x # y # _ \<Rightarrow> macroIf bt x y (ofBool (Const (BoolE False) None)) | _ \<Rightarrow> Inl OutOfBounds)"

definition macroExpandOr :: "'e beta \<Rightarrow> 'e expr list \<Rightarrow> expr_error + 'e expr" where
  "macroExpandOr bt es =
     (case es of x # y # _ \<Rightarrow> macroIf bt x (ofBool (Const (BoolE True) None)) y | _ \<Rightarrow> Inl OutOfBounds)"

text \<open>An operator that is not applied becomes a function of two parameters.\<close>

definition macroEtaLift :: "'e beta \<Rightarrow> ('e beta \<Rightarrow> 'e expr list \<Rightarrow> expr_error + 'e expr) \<Rightarrow> expr_error + 'e expr" where
  "macroEtaLift bt f =
     bindE (f bt [ofBool (Var ''x'' None), ofBool (Var ''y'' None)]) (\<lambda>b.
       mapR (\<lambda>q. setType (Some q) (mkFn [''x'', ''y''] b)) (boolFn bt 2))"

definition macroEtaLiftAnd :: "'e beta \<Rightarrow> expr_error + 'e expr" where
  "macroEtaLiftAnd bt = macroEtaLift bt macroExpandAnd"

definition macroEtaLiftOr :: "'e beta \<Rightarrow> expr_error + 'e expr" where
  "macroEtaLiftOr bt = macroEtaLift bt macroExpandOr"

section \<open>The pass\<close>

text \<open>The name that is applied, if the function is a variable.\<close>

definition appliedVar :: "'e expr \<Rightarrow> string option" where
  "appliedVar f = (case f of Var n _ \<Rightarrow> Some n | _ \<Rightarrow> None)"

fun macroExpand :: "'e beta \<Rightarrow> 'e expr \<Rightarrow> expr_error + 'e expr" where
  "macroExpand bt (Const p a) = Inr (setType a (clone (Const p a)))"
| "macroExpand bt (Var n a) =
     (if n = ''and'' then macroEtaLiftAnd bt
      else if n = ''or'' then macroEtaLiftOr bt
      else Inr (setType a (clone (Var n a))))"
| "macroExpand bt (LetE n e b a) =
     bindE (macroExpand bt e) (\<lambda>e'. mapR (\<lambda>b'. LetE n e' b' a) (macroExpand bt b))"
| "macroExpand bt (LetRec bs e a) =
     bindE (mapE (\<lambda>b. mapR (Pair (fst b)) (macroExpand bt (snd b))) bs) (\<lambda>bs'.
       mapR (\<lambda>e'. LetRec bs' e' a) (macroExpand bt e))"
| "macroExpand bt (Fn vs e a) = mapR (\<lambda>e'. setType a (mkFn vs e')) (macroExpand bt e)"
| "macroExpand bt (App f as a) =
     (if appliedVar f = Some ''and'' then bindE (mapE (macroExpand bt) as) (macroExpandAnd bt)
      else if appliedVar f = Some ''or'' then bindE (mapE (macroExpand bt) as) (macroExpandOr bt)
      else bindE (macroExpand bt f) (\<lambda>f'. mapR (\<lambda>as'. setType a (mkApp f' as')) (mapE (macroExpand bt) as)))"
| "macroExpand bt (Assign l r a) =
     bindE (macroExpand bt l) (\<lambda>l'. mapR (\<lambda>r'. Assign l' r' a) (macroExpand bt r))"
| "macroExpand bt (MkArray es a) = mapR (\<lambda>es'. MkArray es' a) (mapE (macroExpand bt) es)"
| "macroExpand bt (MkVariant l e a) = mapR (\<lambda>e'. MkVariant l e' a) (macroExpand bt e)"
| "macroExpand bt (MkRecord fs a) =
     mapR (\<lambda>fs'. MkRecord fs' a) (mapE (\<lambda>b. mapR (Pair (fst b)) (macroExpand bt (snd b))) fs)"
| "macroExpand bt (AIndex e i a) =
     bindE (macroExpand bt e) (\<lambda>e'. mapR (\<lambda>i'. AIndex e' i' a) (macroExpand bt i))"
| "macroExpand bt (Case c bs d a) =
     bindE (optR (macroExpand bt) d) (\<lambda>d'. bindE (macroExpand bt c) (\<lambda>c'.
       mapR (\<lambda>bs'. Case c' bs' d' a)
         (mapE (\<lambda>b. mapR (\<lambda>e. (fst b, fst (snd b), e)) (macroExpand bt (snd (snd b)))) bs)))"
| "macroExpand bt (Switch c bs d a) =
     bindE (optR (macroExpand bt) d) (\<lambda>d'. bindE (macroExpand bt c) (\<lambda>c'.
       mapR (\<lambda>bs'. Switch c' bs' d' a) (mapE (\<lambda>b. mapR (Pair (fst b)) (macroExpand bt (snd b))) bs)))"
| "macroExpand bt (Proj r f a) = mapR (\<lambda>r'. Proj r' f a) (macroExpand bt r)"
| "macroExpand bt (Assump e t a) = mapR (\<lambda>e'. Assump e' t a) (macroExpand bt e)"
| "macroExpand bt (Pack e a) = mapR (\<lambda>e'. Pack e' a) (macroExpand bt e)"
| "macroExpand bt (Unpack n p e a) =
     bindE (macroExpand bt p) (\<lambda>p'. mapR (\<lambda>e'. Unpack n p' e' a) (macroExpand bt e))"

section \<open>What it does to variables\<close>

abbreviation macroNames :: "string set" where
  "macroNames \<equiv> {''and'', ''or''}"

text \<open>The operators are applied to two arguments, as type inference ensures for the ones of the root environment.\<close>

fun binaryMacros :: "'e expr \<Rightarrow> bool" where
  "binaryMacros (Const p a) = True"
| "binaryMacros (Var n a) = True"
| "binaryMacros (LetE n e b a) = (binaryMacros e \<and> binaryMacros b)"
| "binaryMacros (LetRec bs e a) = ((\<forall>b \<in> set bs. binaryMacros (snd b)) \<and> binaryMacros e)"
| "binaryMacros (Fn vs e a) = binaryMacros e"
| "binaryMacros (App f as a) =
     ((\<forall>n \<in> macroNames. appliedVar f = Some n \<longrightarrow> length as = 2) \<and> binaryMacros f \<and> (\<forall>e \<in> set as. binaryMacros e))"
| "binaryMacros (Assign l r a) = (binaryMacros l \<and> binaryMacros r)"
| "binaryMacros (MkArray es a) = (\<forall>e \<in> set es. binaryMacros e)"
| "binaryMacros (MkVariant l e a) = binaryMacros e"
| "binaryMacros (MkRecord fs a) = (\<forall>b \<in> set fs. binaryMacros (snd b))"
| "binaryMacros (AIndex e i a) = (binaryMacros e \<and> binaryMacros i)"
| "binaryMacros (Case v bs d a) =
     (binaryMacros v \<and> (\<forall>b \<in> set bs. binaryMacros (snd (snd b))) \<and> (case d of None \<Rightarrow> True | Some e \<Rightarrow> binaryMacros e))"
| "binaryMacros (Switch v bs d a) =
     (binaryMacros v \<and> (\<forall>b \<in> set bs. binaryMacros (snd b)) \<and> (case d of None \<Rightarrow> True | Some e \<Rightarrow> binaryMacros e))"
| "binaryMacros (Proj r f a) = binaryMacros r"
| "binaryMacros (Assump e t a) = binaryMacros e"
| "binaryMacros (Pack e a) = binaryMacros e"
| "binaryMacros (Unpack n p e a) = (binaryMacros p \<and> binaryMacros e)"

text \<open>The set of free variables between the bounds.\<close>

definition expandedVars :: "string set \<Rightarrow> string set \<Rightarrow> bool" where
  "expandedVars A B \<longleftrightarrow> A - macroNames \<subseteq> B \<and> B \<subseteq> (A - macroNames) \<union> {''if''}"

lemma expandedVars_Un: "expandedVars A B \<Longrightarrow> expandedVars A' B' \<Longrightarrow> expandedVars (A \<union> A') (B \<union> B')"
  unfolding expandedVars_def by blast

lemma expandedVars_Diff: "expandedVars A B \<Longrightarrow> expandedVars (A - N) (B - N)"
  unfolding expandedVars_def by blast

lemma expandedVars_self: "expandedVars {} {}"
  by (simp add: expandedVars_def)

lemma freeVars_setType [simp]: "freeVars (setType a e) = freeVars e"
  by (cases e) simp_all

lemma expandedVars_list:
  assumes "list_all2 (\<lambda>x y. expandedVars (f x) (h y)) xs ys"
  shows "expandedVars (\<Union> (f ` set xs)) (\<Union> (h ` set ys))"
  using assms by (induction) (auto intro: expandedVars_self expandedVars_Un)

lemma mapE_list_all2:
  assumes "mapE f xs = Inr ys" "\<And>x y. x \<in> set xs \<Longrightarrow> f x = Inr y \<Longrightarrow> P x y"
  shows "list_all2 P xs ys"
  using assms(1) unfolding mapE_Inr_iff
  by (rule list.rel_mono_strong) (use assms(2) in blast)

lemma macroIf_vars: "macroIf bt c t e = Inr r \<Longrightarrow> freeVars r = {''if''} \<union> freeVars c \<union> freeVars t \<union> freeVars e"
  by (auto simp: macroIf_def mapR_Inr_iff mkApp_def)

lemma macroExpandAnd_vars: "macroExpandAnd bt [x, y] = Inr r \<Longrightarrow> freeVars r = {''if''} \<union> freeVars x \<union> freeVars y"
  by (auto simp: macroExpandAnd_def dest!: macroIf_vars)

lemma macroExpandOr_vars: "macroExpandOr bt [x, y] = Inr r \<Longrightarrow> freeVars r = {''if''} \<union> freeVars x \<union> freeVars y"
  by (auto simp: macroExpandOr_def dest!: macroIf_vars)

lemma macroEta_vars:
  "macroEtaLiftAnd bt = Inr r \<Longrightarrow> freeVars r = {''if''}" "macroEtaLiftOr bt = Inr r \<Longrightarrow> freeVars r = {''if''}"
  by (auto simp: macroEtaLiftAnd_def macroEtaLiftOr_def macroEtaLift_def bindE_Inr_iff mapR_Inr_iff mkFn_def
      dest!: macroExpandAnd_vars macroExpandOr_vars)

lemma mapE_vars:
  assumes "mapE f xs = Inr ys" "\<And>x y. x \<in> set xs \<Longrightarrow> f x = Inr y \<Longrightarrow> expandedVars (k x) (h y)"
  shows "expandedVars (\<Union> (set (map k xs))) (\<Union> (set (map h ys)))"
  using expandedVars_list [OF mapE_list_all2 [OF assms]] by simp

lemma optR_vars:
  assumes "optR f d = Inr d'" "\<And>x y. x \<in> set_option d \<Longrightarrow> f x = Inr y \<Longrightarrow> expandedVars (freeVars x) (freeVars y)"
  shows "expandedVars (case d of None \<Rightarrow> {} | Some e \<Rightarrow> freeVars e) (case d' of None \<Rightarrow> {} | Some e \<Rightarrow> freeVars e)"
  using assms by (cases d) (auto simp: mapR_Inr_iff expandedVars_self)

lemma letrecNames_mapE:
  "mapE (\<lambda>b. mapR (Pair (fst b)) (f (snd b))) bs = Inr bs' \<Longrightarrow> letrecNames bs' = letrecNames bs"
  unfolding mapE_Inr_iff letrecNames_def
  by (induction rule: list_all2_induct) (auto simp: mapR_Inr_iff)

lemma macroExpand_vars:
  "macroExpand bt e = Inr e' \<Longrightarrow> wfE e \<Longrightarrow> binaryMacros e \<Longrightarrow> expandedVars (freeVars e) (freeVars e')"
proof (induction bt e arbitrary: e' rule: macroExpand.induct)
  case (2 bt n a)
  then show ?case by (auto simp: expandedVars_def dest!: macroEta_vars split: if_splits)
next
  case (3 bt n e b a)
  then obtain x y where r: "macroExpand bt e = Inr x" "macroExpand bt b = Inr y" "e' = LetE n x y a"
    by (auto simp: bindE_Inr_iff mapR_Inr_iff)
  then have "expandedVars (freeVars e) (freeVars x)" "expandedVars (freeVars b) (freeVars y)" using 3 by simp_all
  then show ?case using r(3) by (simp add: expandedVars_Un expandedVars_Diff)
next
  case (4 bt bs e a)
  then obtain bs' r where r: "mapE (\<lambda>b. mapR (Pair (fst b)) (macroExpand bt (snd b))) bs = Inr bs'" "macroExpand bt e = Inr r"
      "e' = LetRec bs' r a" by (auto simp: bindE_Inr_iff mapR_Inr_iff)
  have "expandedVars (\<Union> (set (map (\<lambda>b. freeVars (snd b) - letrecNames bs) bs))) (\<Union> (set (map (\<lambda>b. freeVars (snd b) - letrecNames bs) bs')))"
    by (rule mapE_vars [OF r(1)]) (use 4 in \<open>auto simp: mapR_Inr_iff intro!: expandedVars_Diff\<close>)
  moreover have "expandedVars (freeVars e) (freeVars r)" using 4 r(1,2) by simp
  ultimately show ?case using r(3) letrecNames_mapE [OF r(1)] by (simp add: expandedVars_Un expandedVars_Diff)
next
  case (5 bt vs e a)
  then show ?case by (auto simp: mapR_Inr_iff mkFn_def intro: expandedVars_Diff)
next
  case (6 bt f as a)
  have args: "expandedVars (\<Union> (set (map freeVars as))) (\<Union> (set (map freeVars as')))" if "mapE (macroExpand bt) as = Inr as'" for as'
    by (rule mapE_vars [OF that]) (use 6 in \<open>auto simp: bindE_Inr_iff mapR_Inr_iff split: if_splits\<close>)
  show ?case
  proof (cases "appliedVar f \<in> Some ` macroNames")
    case True
    then obtain n b where f: "f = Var n b" "n \<in> macroNames" by (auto simp: appliedVar_def split: expr.splits)
    then have "length as = 2" using 6(7) by (auto simp: appliedVar_def)
    then obtain x y where as: "as = [x, y]" by (auto simp: numeral_2_eq_2 length_Suc_conv)
    obtain x' y' where e: "mapE (macroExpand bt) as = Inr [x', y']"
        "(n = ''and'' \<and> macroExpandAnd bt [x', y'] = Inr e') \<or> (n = ''or'' \<and> macroExpandOr bt [x', y'] = Inr e')"
      using 6(5) f as by (auto simp: appliedVar_def bindE_Inr_iff mapR_Inr_iff split: if_splits)
    then have "freeVars e' = {''if''} \<union> freeVars x' \<union> freeVars y'" using macroExpandAnd_vars macroExpandOr_vars by blast
    then show ?thesis using args [OF e(1)] f as by (auto simp: expandedVars_def)
  next
    case False
    then have n: "appliedVar f \<noteq> Some ''and''" "appliedVar f \<noteq> Some ''or''" by auto
    then obtain f' as' where r: "macroExpand bt f = Inr f'" "mapE (macroExpand bt) as = Inr as'" "e' = setType a (mkApp f' as')"
      using 6(5) by (auto simp: bindE_Inr_iff mapR_Inr_iff)
    have "expandedVars (freeVars f) (freeVars f')" using 6 n r(1) by (simp split: if_splits)
    then have "expandedVars (freeVars f \<union> \<Union> (set (map freeVars as))) (freeVars f' \<union> \<Union> (set (map freeVars as')))"
      using args [OF r(2)] by (rule expandedVars_Un)
    moreover have "as' \<noteq> []" using mapE_Inr_length [OF r(2)] 6(6) by auto
    ultimately show ?thesis using r(3) by (simp add: mkApp_def)
  qed
next
  case (7 bt l r a)
  then obtain x y where r: "macroExpand bt l = Inr x" "macroExpand bt r = Inr y" "e' = Assign x y a"
    by (auto simp: bindE_Inr_iff mapR_Inr_iff)
  then have "expandedVars (freeVars l) (freeVars x)" "expandedVars (freeVars r) (freeVars y)" using 7 by simp_all
  then show ?case using r(3) by (simp add: expandedVars_Un)
next
  case (8 bt es a)
  then obtain es' where r: "mapE (macroExpand bt) es = Inr es'" "e' = MkArray es' a" by (auto simp: mapR_Inr_iff)
  have "expandedVars (\<Union> (set (map freeVars es))) (\<Union> (set (map freeVars es')))"
    by (rule mapE_vars [OF r(1)]) (use 8 in auto)
  then show ?case using r(2) by simp
next
  case (10 bt fs a)
  then obtain fs' where r: "mapE (\<lambda>b. mapR (Pair (fst b)) (macroExpand bt (snd b))) fs = Inr fs'" "e' = MkRecord fs' a"
    by (auto simp: mapR_Inr_iff)
  have "expandedVars (\<Union> (set (map (\<lambda>b. freeVars (snd b)) fs))) (\<Union> (set (map (\<lambda>b. freeVars (snd b)) fs')))"
    by (rule mapE_vars [OF r(1)]) (use 10 in \<open>auto simp: mapR_Inr_iff\<close>)
  then show ?case using r(2) by simp
next
  case (11 bt e i a)
  then obtain x y where r: "macroExpand bt e = Inr x" "macroExpand bt i = Inr y" "e' = AIndex x y a"
    by (auto simp: bindE_Inr_iff mapR_Inr_iff)
  then have "expandedVars (freeVars e) (freeVars x)" "expandedVars (freeVars i) (freeVars y)" using 11 by simp_all
  then show ?case using r(3) by (simp add: expandedVars_Un)
next
  case (12 bt c bs d a)
  then obtain d' c' bs' where r: "optR (macroExpand bt) d = Inr d'" "macroExpand bt c = Inr c'"
      "mapE (\<lambda>b. mapR (\<lambda>e. (fst b, fst (snd b), e)) (macroExpand bt (snd (snd b)))) bs = Inr bs'" "e' = Case c' bs' d' a"
    by (auto simp: bindE_Inr_iff mapR_Inr_iff)
  have "expandedVars (\<Union> (set (map (\<lambda>b. freeVars (snd (snd b)) - {fst (snd b)}) bs))) (\<Union> (set (map (\<lambda>b. freeVars (snd (snd b)) - {fst (snd b)}) bs')))"
    by (rule mapE_vars [OF r(3)]) (use 12 r(1,2) in \<open>auto simp: mapR_Inr_iff intro!: expandedVars_Diff\<close>)
  moreover have "expandedVars (freeVars c) (freeVars c')" using 12 r(1,2) by simp
  moreover have "expandedVars (case d of None \<Rightarrow> {} | Some e \<Rightarrow> freeVars e) (case d' of None \<Rightarrow> {} | Some e \<Rightarrow> freeVars e)"
    by (rule optR_vars [OF r(1)]) (use 12 in auto)
  ultimately show ?case using r(4) by (simp add: expandedVars_Un)
next
  case (13 bt c bs d a)
  then obtain d' c' bs' where r: "optR (macroExpand bt) d = Inr d'" "macroExpand bt c = Inr c'"
      "mapE (\<lambda>b. mapR (Pair (fst b)) (macroExpand bt (snd b))) bs = Inr bs'" "e' = Switch c' bs' d' a"
    by (auto simp: bindE_Inr_iff mapR_Inr_iff)
  have "expandedVars (\<Union> (set (map (\<lambda>b. freeVars (snd b)) bs))) (\<Union> (set (map (\<lambda>b. freeVars (snd b)) bs')))"
    by (rule mapE_vars [OF r(3)]) (use 13 r(1,2) in \<open>auto simp: mapR_Inr_iff\<close>)
  moreover have "expandedVars (freeVars c) (freeVars c')" using 13 r(1,2) by simp
  moreover have "expandedVars (case d of None \<Rightarrow> {} | Some e \<Rightarrow> freeVars e) (case d' of None \<Rightarrow> {} | Some e \<Rightarrow> freeVars e)"
    by (rule optR_vars [OF r(1)]) (use 13 in auto)
  ultimately show ?case using r(4) by (simp add: expandedVars_Un)
next
  case (17 bt n p e a)
  then obtain x y where r: "macroExpand bt p = Inr x" "macroExpand bt e = Inr y" "e' = Unpack n x y a"
    by (auto simp: bindE_Inr_iff mapR_Inr_iff)
  then have "expandedVars (freeVars p) (freeVars x)" "expandedVars (freeVars e) (freeVars y)" using 17 by simp_all
  then show ?case using r(3) by (simp add: expandedVars_Un expandedVars_Diff)
qed (auto simp: mapR_Inr_iff expandedVars_def)

section \<open>Properties\<close>

text \<open>
  C40. Where the operators are applied to two arguments, macro expansion takes \<open>and\<close> and \<open>or\<close> out of the free
  variables of an expression and leaves the others; nothing is new but \<open>if\<close>.
\<close>

theorem macroExpand_freeVars:
  assumes "wfE e" "binaryMacros e" "macroExpand bt e = Inr e'"
  shows "freeVars e - {''and'', ''or''} \<subseteq> freeVars e' \<and> freeVars e' \<subseteq> (freeVars e - {''and'', ''or''}) \<union> {''if''}"
  using macroExpand_vars [OF assms(3,1,2)] by (simp add: expandedVars_def)

text \<open>The condition x and y, with type functions that are never asked.\<close>

lemma macroExpand_freeVars_witness:
  "\<exists>e. macroExpand (\<lambda>_ _ _. Inl NoSize :: type_error + u32) (App (Var ''and'' None) [Var ''x'' None, Var ''y'' None] (None :: unit ann)) = Inr e \<and>
     {''x'', ''y''} \<subseteq> freeVars e \<and> freeVars e \<subseteq> {''x'', ''y'', ''if''}"
proof -
  let ?bt = "\<lambda>_ _ _. Inl NoSize :: type_error + u32"
  let ?e = "App (Var ''and'' None) [Var ''x'' None, Var ''y'' None] (None :: unit ann)"
  have "case tuple ?bt [boolTy, boolTy, boolTy :: unit mono_type] of Inl err \<Rightarrow> False | Inr t \<Rightarrow> True" by code_simp
  then obtain t where "tuple ?bt [boolTy, boolTy, boolTy :: unit mono_type] = Inr t" by (auto split: sum.splits)
  then obtain r where r: "macroExpand ?bt ?e = Inr r"
    by (auto simp: appliedVar_def macroExpandAnd_def macroIf_def boolFn_def numeral_3_eq_3)
  have "wfE ?e" "binaryMacros ?e" by (simp_all add: appliedVar_def)
  from macroExpand_freeVars [OF this r] show ?thesis using r by auto
qed

text \<open>
  The pass does not know scopes: a parameter that is called \<open>and\<close> is expanded like the operator, so that
  a call of it with one argument reads past the end of the arguments.
\<close>

theorem macroExpand_ignores_scope:
  "macroExpand bt (Fn [''and''] (App (Var ''and'' None) [Var ''z'' None] None) None) = Inl OutOfBounds"
  by (simp add: appliedVar_def macroExpandAnd_def)

end
