(* ===== verification/Grammar.thy ===== *)
theory Grammar
  imports Results "HOL-Library.Product_Lexorder"
begin

text \<open>
  Grammars and their analysis, the first part of the parser generator in \<^verbatim>\<open>lib/hobbes/parse/lalr.C\<close>
  (and \<^verbatim>\<open>include/hobbes/parse/lalr.H\<close>): which symbols a symbol uses, and which can derive the empty
  sequence.

  Terminals are pointers; the model has a linearly ordered type of addresses \<open>'t\<close>, since the sets and maps of the
  code are ordered by address. A grammar is the list of its entries, with the first entry of a key standing for the map.
\<close>

type_synonym 't rule = "'t list"
type_synonym 't rules = "'t rule list"
type_synonym 't grammar = "('t \<times> 't rules) list"

text \<open>What the generator throws. A conflict has its kind instead of the text of its message.\<close>

datatype conflict = ShiftReduce | ReduceReduce

datatype 't lalr_error =
    NoSuchAggregate | NoSuchRule | NoSuchState | NoTransitions | NoSuchSymbol | MapUndefined | NotReduce
  | AmbiguityConflict conflict 't | CompileTableFailure conflict "('t \<times> nat \<times> nat) set" 't

section \<open>Removing symbols\<close>

definition removeRuleDefs :: "'t \<Rightarrow> 't grammar \<Rightarrow> 't grammar" where
  "removeRuleDefs s g = filter (\<lambda>e. fst e \<noteq> s) g"

definition removeRuleRefs :: "'t \<Rightarrow> 't grammar \<Rightarrow> 't grammar" where
  "removeRuleRefs s g = map (\<lambda>e. (fst e, filter (\<lambda>r. s \<notin> set r) (snd e))) g"

definition undefineSymbol :: "'t \<Rightarrow> 't grammar \<Rightarrow> 't grammar" where
  "undefineSymbol s g = removeRuleRefs s (removeRuleDefs s g)"

section \<open>Symbols in use\<close>

definition definedSymbols :: "'t grammar \<Rightarrow> 't set" where
  "definedSymbols g = set (map fst g)"

definition hasRule :: "'t grammar \<Rightarrow> 't \<Rightarrow> bool" where
  "hasRule g t \<longleftrightarrow> map_of g t \<noteq> None"

text \<open>
  \<open>symbolsUsed\<close> walks the rules of a symbol and the symbols in them, and goes on into those that are new to the
  result. Fuel bounds the depth of the recursion.
\<close>

primrec symbolsUsedF :: "nat \<Rightarrow> 't grammar \<Rightarrow> 't \<Rightarrow> 't set \<Rightarrow> 't set option" where
  "symbolsUsedF 0 g s ss = None"
| "symbolsUsedF (Suc k) g s ss =
     (case map_of g s of
        None \<Rightarrow> Some ss
      | Some rs \<Rightarrow>
          foldl (\<lambda>acc t. Option.bind acc (\<lambda>ss.
              if hasRule g t \<and> t \<notin> ss then symbolsUsedF k g t (insert t ss) else Some ss))
            (Some ss) (concat rs))"

definition symbolsUsed :: "'t grammar \<Rightarrow> 't \<Rightarrow> 't set option" where
  "symbolsUsed g s = symbolsUsedF (length g + 2) g s {}"

definition symbolsUsing :: "'t grammar \<Rightarrow> 't \<Rightarrow> 't set" where
  "symbolsUsing g s = {t \<in> definedSymbols g. \<exists>ss. symbolsUsed g t = Some ss \<and> s \<in> ss}"

definition topLevelSymbols :: "'t grammar \<Rightarrow> 't set" where
  "topLevelSymbols g =
     {t \<in> definedSymbols g.
        let users = symbolsUsing g t in card users = 0 \<or> (card users = 1 \<and> t \<in> users)}"

section \<open>Rules\<close>

definition aggRules :: "'t grammar \<Rightarrow> 't \<Rightarrow> 't lalr_error + 't rules" where
  "aggRules g t = (case map_of g t of None \<Rightarrow> Inl NoSuchAggregate | Some rs \<Rightarrow> Inr rs)"

definition nthRule :: "'t rules \<Rightarrow> nat \<Rightarrow> 't lalr_error + 't rule" where
  "nthRule rs n = (if length rs \<le> n then Inl NoSuchRule else Inr (rs ! n))"

definition ruleElement :: "'t rule \<Rightarrow> nat \<Rightarrow> 't option" where
  "ruleElement r i = (if length r \<le> i then None else Some (r ! i))"

section \<open>Symbols that derive the empty sequence\<close>

definition directlyDerivesNullR :: "'t rule \<Rightarrow> bool" where
  "directlyDerivesNullR r \<longleftrightarrow> length r = 0"

definition directlyDerivesNull :: "'t grammar \<Rightarrow> 't \<Rightarrow> 't lalr_error + bool" where
  "directlyDerivesNull g s = mapR (list_ex directlyDerivesNullR) (aggRules g s)"

definition ruleDerivesNull :: "'t set \<Rightarrow> 't rule \<Rightarrow> bool" where
  "ruleDerivesNull nullAggs r = list_all (\<lambda>v. v \<in> nullAggs) r"

definition derivesNull :: "'t grammar \<Rightarrow> 't set \<Rightarrow> 't \<Rightarrow> 't lalr_error + bool" where
  "derivesNull g nullAggs s = mapR (list_ex (ruleDerivesNull nullAggs)) (aggRules g s)"

fun derivesNullAll :: "'t grammar \<Rightarrow> 't set \<Rightarrow> 't list \<Rightarrow> 't lalr_error + bool" where
  "derivesNullAll g nullAggs [] = Inr True"
| "derivesNullAll g nullAggs (s # ss) =
     bindE (derivesNull g nullAggs s) (\<lambda>b. if b then derivesNullAll g nullAggs ss else Inr False)"

text \<open>
  \<open>symbolsDerivingNull\<close> goes over the undecided symbols until a pass adds none. The code erases a symbol from the set
  while it iterates over it, which leaves the iterator invalid; the model goes on with the next symbol.
\<close>

definition nullStep :: "'t grammar \<Rightarrow> 't \<Rightarrow> 't set \<times> 't set \<times> bool \<Rightarrow> 't lalr_error + 't set \<times> 't set \<times> bool" where
  "nullStep g s st =
     (let (nulls, potentials, changed) = st in
      if s \<in> nulls then Inr st
      else bindE (derivesNull g nulls s) (\<lambda>b.
        Inr (if b then (insert s nulls, potentials - {s}, True) else st)))"

definition nullPass :: "'t::linorder grammar \<Rightarrow> 't set \<Rightarrow> 't set \<Rightarrow> 't lalr_error + 't set \<times> 't set \<times> bool" where
  "nullPass g nulls potentials = foldE (nullStep g) (sorted_list_of_set potentials) (nulls, potentials, False)"

lemma nullStep_shrinks:
  "nullStep g s (n, p, c) = Inr (n', p', c') \<Longrightarrow>
    n \<subseteq> n' \<and> p' \<subseteq> p \<and> (c \<longrightarrow> c') \<and> (c' \<longrightarrow> \<not> c \<longrightarrow> s \<in> p \<longrightarrow> p' \<subset> p)"
  by (auto simp: nullStep_def bindE_Inr_iff split: if_splits)

lemma nullPass_shrinks:
  assumes "foldE (nullStep g) xs (n, p, c) = Inr (n', p', c')"
  shows "n \<subseteq> n' \<and> p' \<subseteq> p \<and> (\<not> c' \<longrightarrow> \<not> c) \<and> (c' \<longrightarrow> \<not> c \<longrightarrow> set xs \<subseteq> p \<longrightarrow> p' \<subset> p)"
  using assms
proof (induction xs arbitrary: n p c)
  case (Cons x xs)
  obtain n1 p1 c1 where s: "nullStep g x (n, p, c) = Inr (n1, p1, c1)"
      and r: "foldE (nullStep g) xs (n1, p1, c1) = Inr (n', p', c')"
    using Cons.prems by (auto simp: bindE_Inr_iff)
  have one: "n \<subseteq> n1" "p1 \<subseteq> p" "c \<longrightarrow> c1" "c1 \<longrightarrow> \<not> c \<longrightarrow> x \<in> p \<longrightarrow> p1 \<subset> p" "\<not> c1 \<longrightarrow> p1 = p"
    using nullStep_shrinks [OF s] s by (auto simp: nullStep_def bindE_Inr_iff split: if_splits)
  show ?case using Cons.IH [OF r] one by (cases c1) auto
qed simp

function nullLoop :: "'t::linorder grammar \<Rightarrow> 't set \<Rightarrow> 't set \<Rightarrow> 't lalr_error + 't set" where
  "nullLoop g nulls potentials =
     (case nullPass g nulls potentials of
        Inl e \<Rightarrow> Inl e
      | Inr st \<Rightarrow> if snd (snd st) then nullLoop g (fst st) (fst (snd st)) else Inr (fst st))"
  by pat_completeness auto

termination nullLoop
proof (relation "measure (\<lambda>(g, n, p). card p)")
  fix g :: "'t::linorder grammar" and n p and st :: "'t set \<times> 't set \<times> bool"
  assume r: "nullPass g n p = Inr st" and c: "snd (snd st)"
  obtain n' p' where st: "st = (n', p', True)" using c by (cases st) auto
  have f: "finite p" 
  proof (rule ccontr)
    assume "infinite p"
    then show False using r st by (simp add: nullPass_def)
  qed
  then have "p' \<subset> p" using r st nullPass_shrinks [of g "sorted_list_of_set p" n p False n' p' True]
    by (simp add: nullPass_def)
  then show "((g, fst st, fst (snd st)), g, n, p) \<in> measure (\<lambda>(g, n, p). card p)"
    using f st by (simp add: psubset_card_mono)
qed simp

definition symbolsDerivingNull :: "'t::linorder grammar \<Rightarrow> 't lalr_error + 't set" where
  "symbolsDerivingNull g = nullLoop g {} (definedSymbols g)"

declare nullLoop.simps [simp del]

section \<open>What the analysis computes\<close>

text \<open>The symbols that derive the empty sequence, by derivations.\<close>

inductive nullSymbol :: "'t grammar \<Rightarrow> 't \<Rightarrow> bool" for g where
  "map_of g s = Some rs \<Longrightarrow> r \<in> set rs \<Longrightarrow> \<forall>x \<in> set r. nullSymbol g x \<Longrightarrow> nullSymbol g s"

lemma definedSymbols_iff: "t \<in> definedSymbols g \<longleftrightarrow> hasRule g t"
  by (auto simp: definedSymbols_def hasRule_def map_of_eq_None_iff image_iff)

lemma derivesNull_defined:
  "hasRule g s \<Longrightarrow> derivesNull g n s = Inr (\<exists>r \<in> set (the (map_of g s)). set r \<subseteq> n)"
  by (auto simp: hasRule_def derivesNull_def aggRules_def ruleDerivesNull_def list_ex_iff list_all_iff subset_eq)

lemma nullStep_defined:
  assumes "hasRule g s" "n \<subseteq> Collect (nullSymbol g)" "n \<subseteq> D" "p = D - n" "s \<in> D"
  shows "\<exists>n' c'. nullStep g s (n, p, c) = Inr (n', D - n', c') \<and> n' \<subseteq> Collect (nullSymbol g) \<and> n' \<subseteq> D \<and>
    (\<not> c' \<longrightarrow> n' = n \<and> \<not> c \<and> (s \<in> n \<or> derivesNull g n s = Inr False))"
proof -
  obtain rs where rs: "map_of g s = Some rs" using assms(1) by (auto simp: hasRule_def)
  have "nullSymbol g s" if "r \<in> set rs" "set r \<subseteq> n" for r
    using that assms(2) rs by (intro nullSymbol.intros [of g s rs r]) auto
  then show ?thesis
    using assms rs by (auto simp: nullStep_def derivesNull_defined [OF assms(1)])
qed

lemma nullPass_defined:
  assumes "\<forall>s \<in> set xs. hasRule g s \<and> s \<in> D" "n \<subseteq> Collect (nullSymbol g)" "n \<subseteq> D" "p = D - n"
  shows "\<exists>n' c'. foldE (nullStep g) xs (n, p, c) = Inr (n', D - n', c') \<and> n' \<subseteq> Collect (nullSymbol g) \<and> n' \<subseteq> D \<and>
    (\<not> c' \<longrightarrow> n' = n \<and> \<not> c \<and> (\<forall>s \<in> set xs. s \<in> n \<or> derivesNull g n s = Inr False))"
  using assms
proof (induction xs arbitrary: n p c)
  case (Cons x xs)
  obtain n1 c1 where s: "nullStep g x (n, p, c) = Inr (n1, D - n1, c1)" "n1 \<subseteq> Collect (nullSymbol g)" "n1 \<subseteq> D"
      "\<not> c1 \<longrightarrow> n1 = n \<and> \<not> c \<and> (x \<in> n \<or> derivesNull g n x = Inr False)"
    using nullStep_defined [of g x n D p c] Cons.prems by auto
  obtain n' c' where r: "foldE (nullStep g) xs (n1, D - n1, c1) = Inr (n', D - n', c')" "n' \<subseteq> Collect (nullSymbol g)"
      "n' \<subseteq> D" "\<not> c' \<longrightarrow> n' = n1 \<and> \<not> c1 \<and> (\<forall>s \<in> set xs. s \<in> n1 \<or> derivesNull g n1 s = Inr False)"
    using Cons.IH [of n1 "D - n1" c1] Cons.prems(1) s by auto
  then show ?case using s by auto
qed auto

lemma nullLoop_exact:
  assumes "n \<subseteq> Collect (nullSymbol g)" "n \<subseteq> definedSymbols g" "p = definedSymbols g - n"
  shows "nullLoop g n p = Inr (Collect (nullSymbol g))"
  using assms
proof (induction g n p rule: nullLoop.induct)
  case (1 g n p)
  let ?D = "definedSymbols g"
  have fin: "finite ?D" by (simp add: definedSymbols_def)
  obtain n' c' where r: "nullPass g n p = Inr (n', ?D - n', c')" "n' \<subseteq> Collect (nullSymbol g)" "n' \<subseteq> ?D"
      "\<not> c' \<longrightarrow> n' = n \<and> (\<forall>s \<in> p. s \<in> n \<or> derivesNull g n s = Inr False)"
    using nullPass_defined [of "sorted_list_of_set p" g ?D n p False] 1(2-4) fin
    by (auto simp: nullPass_def definedSymbols_iff)
  show ?case
  proof (cases c')
    case True
    then show ?thesis using 1(1) [OF r(1)] r by (subst nullLoop.simps) simp
  next
    case False
    have "s \<in> n" if "nullSymbol g s" for s
      using that
    proof (induction rule: nullSymbol.induct)
      case (1 s rs r)
      then have h: "hasRule g s" "derivesNull g n s = Inr True"
        by (auto simp: hasRule_def derivesNull_defined)
      then show ?case using r(4) False assms(3) "1.hyps" \<open>p = ?D - n\<close> by (auto simp: definedSymbols_iff)
    qed
    then show ?thesis using r False 1(2) by (subst nullLoop.simps) auto
  qed
qed

text \<open>The symbols with rules that occur in the rules of a symbol.\<close>

definition uses :: "'t grammar \<Rightarrow> ('t \<times> 't) set" where
  "uses g = {(a, b). \<exists>rs. map_of g a = Some rs \<and> b \<in> set (concat rs) \<and> hasRule g b}"

lemma uses_defined: "(a, b) \<in> uses g \<Longrightarrow> b \<in> definedSymbols g"
  by (auto simp: uses_def definedSymbols_iff)

abbreviation useStep :: "nat \<Rightarrow> 't grammar \<Rightarrow> 't set option \<Rightarrow> 't \<Rightarrow> 't set option" where
  "useStep k g acc t \<equiv> Option.bind acc (\<lambda>ss.
     if hasRule g t \<and> t \<notin> ss then symbolsUsedF k g t (insert t ss) else Some ss)"

definition visits :: "'t grammar \<Rightarrow> 't \<Rightarrow> 't set \<Rightarrow> 't set \<Rightarrow> bool" where
  "visits g s ss ss' \<longleftrightarrow> ss \<subseteq> ss' \<and> ss' \<subseteq> definedSymbols g \<and>
     (\<forall>x \<in> ss' - ss. (s, x) \<in> (uses g)\<^sup>+ \<and> uses g `` {x} \<subseteq> ss')"

lemma visits_sub: "visits g s a b \<Longrightarrow> a \<subseteq> b" "visits g s a b \<Longrightarrow> b \<subseteq> definedSymbols g"
  by (simp_all add: visits_def)

lemma finite_defined [simp]: "finite (definedSymbols g)"
  by (simp add: definedSymbols_def)

lemma visits_trans: "visits g s a b \<Longrightarrow> visits g s b c \<Longrightarrow> visits g s a c"
  unfolding visits_def by blast

lemma visits_step:
  assumes "visits g t (insert t ss) ss'" "(s, t) \<in> uses g" "uses g `` {t} \<subseteq> ss'"
  shows "visits g s ss ss'"
  using assms unfolding visits_def by (auto intro: trancl_into_trancl2)

lemma useFold:
  assumes IH: "\<And>t ss. ss \<subseteq> definedSymbols g \<Longrightarrow> card (definedSymbols g - ss) < k \<Longrightarrow>
      \<exists>ss'. symbolsUsedF k g t ss = Some ss' \<and> visits g t ss ss' \<and> uses g `` {t} \<subseteq> ss'"
    and "\<forall>t \<in> set ts. hasRule g t \<longrightarrow> (s, t) \<in> uses g" "ss \<subseteq> definedSymbols g" "card (definedSymbols g - ss) < Suc k"
  shows "\<exists>ss'. foldl (useStep k g) (Some ss) ts = Some ss' \<and> visits g s ss ss' \<and> {t \<in> set ts. hasRule g t} \<subseteq> ss'"
  using assms(2-)
proof (induction ts arbitrary: ss)
  case (Cons t ts)
  have "\<exists>s1. useStep k g (Some ss) t = Some s1 \<and> visits g s ss s1 \<and> (hasRule g t \<longrightarrow> t \<in> s1)"
  proof (cases "hasRule g t \<and> t \<notin> ss")
    case True
    then have t: "t \<in> definedSymbols g" "(s, t) \<in> uses g" using Cons.prems(1) by (simp_all add: definedSymbols_iff)
    have "definedSymbols g - insert t ss \<subset> definedSymbols g - ss" using t True by blast
    then have "card (definedSymbols g - insert t ss) < card (definedSymbols g - ss)" by (simp add: psubset_card_mono)
    then obtain s1 where s1: "symbolsUsedF k g t (insert t ss) = Some s1" "visits g t (insert t ss) s1" "uses g `` {t} \<subseteq> s1"
      using IH [of "insert t ss" t] Cons.prems(2,3) t by auto
    then have "visits g s ss s1" using visits_step t(2) by metis
    moreover have "t \<in> s1" using s1(2) by (auto simp: visits_def)
    ultimately show ?thesis using s1 True by simp
  next
    case False
    then show ?thesis using Cons.prems(2) by (auto simp: visits_def)
  qed
  then obtain s1 where s1: "useStep k g (Some ss) t = Some s1" "visits g s ss s1" "hasRule g t \<longrightarrow> t \<in> s1" by blast
  have "definedSymbols g - s1 \<subseteq> definedSymbols g - ss" "finite (definedSymbols g - ss)"
    using visits_sub(1) [OF s1(2)] by (blast, simp)
  then have "card (definedSymbols g - s1) \<le> card (definedSymbols g - ss)" by (rule card_mono [rotated])
  then have c: "card (definedSymbols g - s1) < Suc k" using Cons.prems(3) by linarith
  obtain s2 where s2: "foldl (useStep k g) (Some s1) ts = Some s2" "visits g s s1 s2" "{t \<in> set ts. hasRule g t} \<subseteq> s2"
    using Cons.IH [of s1] Cons.prems(1) visits_sub(2) [OF s1(2)] c by (meson list.set_intros(2))
  have "t \<in> s2" if "hasRule g t" using s1(3) visits_sub(1) [OF s2(2)] that by blast
  then have "{x \<in> set (t # ts). hasRule g x} \<subseteq> s2" using s2(3) by auto
  moreover have "foldl (useStep k g) (Some ss) (t # ts) = Some s2" by (simp only: foldl_Cons s1(1) s2(1))
  ultimately show ?case using visits_trans [OF s1(2) s2(2)] by blast
qed (auto simp: visits_def)

lemma symbolsUsedF_visits:
  assumes "ss \<subseteq> definedSymbols g" "card (definedSymbols g - ss) < k"
  shows "\<exists>ss'. symbolsUsedF k g s ss = Some ss' \<and> visits g s ss ss' \<and> uses g `` {s} \<subseteq> ss'"
  using assms
proof (induction k arbitrary: s ss)
  case (Suc k)
  show ?case
  proof (cases "map_of g s")
    case None
    then show ?thesis using Suc.prems(1) by (auto simp: visits_def uses_def)
  next
    case (Some rs)
    then have "\<forall>t \<in> set (concat rs). hasRule g t \<longrightarrow> (s, t) \<in> uses g" by (auto simp: uses_def)
    then obtain ss' where f: "foldl (useStep k g) (Some ss) (concat rs) = Some ss'" "visits g s ss ss'"
        "{t \<in> set (concat rs). hasRule g t} \<subseteq> ss'"
      using useFold [OF Suc.IH, of "concat rs" s ss] Suc.prems by blast
    then have "uses g `` {s} \<subseteq> ss'" using Some by (auto simp: uses_def)
    then show ?thesis using f Some by simp
  qed
qed simp

lemma symbolsUsed_reach: "symbolsUsed g s = Some ((uses g)\<^sup>+ `` {s})"
proof -
  have "card (definedSymbols g) \<le> length g" using card_length [of "map fst g"] by (simp add: definedSymbols_def)
  then obtain ss where ss: "symbolsUsed g s = Some ss" "visits g s {} ss" "uses g `` {s} \<subseteq> ss"
    using symbolsUsedF_visits [of "{}" g "length g + 2" s] by (auto simp: symbolsUsed_def)
  have "x \<in> ss" if "(s, x) \<in> (uses g)\<^sup>+" for x
    using that
  proof (induction rule: trancl_induct)
    case (base y)
    then show ?case using ss(3) by blast
  next
    case (step y z)
    then show ?case using ss(2) by (auto simp: visits_def)
  qed
  then show ?thesis using ss by (auto simp: visits_def)
qed

section \<open>Properties\<close>


end
