(* ===== verification/LR_States.thy ===== *)
theory LR_States
  imports Grammar "HOL-Library.List_Lexorder"
begin

text \<open>
  The LR(0) parser of a grammar, \<^verbatim>\<open>lib/hobbes/parse/lalr.C\<close>: items, the closure of a set of items, and the
  enumeration of the parser's states with their transitions (\<open>lr0parser\<close>).

  An item is a triple of its symbol, read position and rule number, ordered as \<open>item::operator<\<close> orders them. The
  lookahead set in an item takes no part in the order and is filled only when all states are known: it is a separate
  field of the parser. A state's number is its place in the list of states, so the maps \<open>states\<close> and \<open>state_defs\<close> are
  the list, and the map \<open>transitions\<close>, filled from state 0 on, is a list as well.
\<close>

section \<open>Items\<close>

type_synonym 't item = "'t \<times> nat \<times> nat"
type_synonym 't itemset = "'t item set"
type_synonym 't state_transitions = "('t \<times> nat) list"

definition ruleItems :: "'t grammar \<Rightarrow> 't \<Rightarrow> 't itemset \<Rightarrow> 't lalr_error + 't itemset \<times> bool" where
  "ruleItems g t is =
     bindE (aggRules g t) (\<lambda>rs.
       let new = set (map (\<lambda>r. (t, 0, r)) [0..<length rs]) in Inr (is \<union> new, \<not> new \<subseteq> is))"

definition succItem :: "'t item \<Rightarrow> 't item" where
  "succItem i = (case i of (agg, p, r) \<Rightarrow> (agg, p + 1, r))"

definition itemRule :: "'t grammar \<Rightarrow> 't item \<Rightarrow> 't lalr_error + 't rule" where
  "itemRule g i = (case i of (agg, p, r) \<Rightarrow> bindE (aggRules g agg) (\<lambda>rs. nthRule rs r))"

definition nextI :: "'t grammar \<Rightarrow> 't item \<Rightarrow> 't lalr_error + 't option" where
  "nextI g i = mapR (\<lambda>rl. ruleElement rl (fst (snd i))) (itemRule g i)"

definition nextS :: "'t::linorder grammar \<Rightarrow> 't itemset \<Rightarrow> 't lalr_error + 't set" where
  "nextS g is =
     foldE (\<lambda>i r. bindE (nextI g i) (\<lambda>t. Inr (case t of None \<Rightarrow> r | Some t \<Rightarrow> insert t r))) (sorted_list_of_set is) {}"

definition nextPrim :: "'t::linorder grammar \<Rightarrow> 't itemset \<Rightarrow> 't lalr_error + 't set" where
  "nextPrim g is =
     foldE (\<lambda>i r. bindE (nextI g i) (\<lambda>t. Inr (case t of
         None \<Rightarrow> r
       | Some v \<Rightarrow> if \<not> hasRule g v then insert v r else r))) (sorted_list_of_set is) {}"

definition followI :: "'t::linorder grammar \<Rightarrow> 't itemset \<Rightarrow> 't \<Rightarrow> 't lalr_error + 't itemset" where
  "followI g is v =
     foldE (\<lambda>i r. bindE (nextI g i) (\<lambda>t. Inr (if t = Some v then insert (succItem i) r else r))) (sorted_list_of_set is) {}"

definition followAll :: "'t::linorder grammar \<Rightarrow> 't itemset \<Rightarrow> 't list \<Rightarrow> 't lalr_error + 't itemset list" where
  "followAll g is vs = mapE (followI g is) vs"

section \<open>Closure\<close>

definition closureStep :: "'t grammar \<Rightarrow> 't \<Rightarrow> 't itemset \<times> bool \<Rightarrow> 't lalr_error + 't itemset \<times> bool" where
  "closureStep g t st =
     (if hasRule g t then mapR (\<lambda>(is, c). (is, snd st \<or> c)) (ruleItems g t (fst st)) else Inr st)"

definition closurePass :: "'t::linorder grammar \<Rightarrow> 't itemset \<Rightarrow> 't lalr_error + 't itemset \<times> bool" where
  "closurePass g is =
     bindE (nextS g is) (\<lambda>ts. foldE (closureStep g) (sorted_list_of_set ts) (is, False))"

text \<open>The items at the start of the grammar's rules bound what a closure adds.\<close>

definition startItems :: "'t grammar \<Rightarrow> 't itemset" where
  "startItems g = (\<Union>(t, rs) \<in> set g. (\<lambda>r. (t, 0, r)) ` {..<length rs})"

lemma finite_startItems [simp]: "finite (startItems g)"
  by (auto simp: startItems_def)

lemma ruleItems_adds:
  "ruleItems g t is = Inr (is', c) \<Longrightarrow> is \<subseteq> is' \<and> is' \<subseteq> is \<union> startItems g \<and> (c \<longrightarrow> is \<subset> is') \<and> (\<not> c \<longrightarrow> is' = is)"
  by (auto simp: ruleItems_def aggRules_def startItems_def bindE_Inr_iff Let_def dest: map_of_SomeD split: option.splits)

lemma closureFold_adds:
  assumes "foldE (closureStep g) ts (is, b) = Inr (is', c)"
  shows "is \<subseteq> is' \<and> is' \<subseteq> is \<union> startItems g \<and> (b \<longrightarrow> c) \<and> (c \<longrightarrow> \<not> b \<longrightarrow> is \<subset> is') \<and> (\<not> c \<longrightarrow> is' = is)"
  using assms
proof (induction ts arbitrary: "is" b)
  case (Cons t ts)
  show ?case
  proof (cases "hasRule g t")
    case True
    then have "closureStep g t (is, b) = mapR (\<lambda>(is, c). (is, b \<or> c)) (ruleItems g t is)" by (simp add: closureStep_def)
    then obtain i1 c1 where r: "ruleItems g t is = Inr (i1, c1)"
        and f: "foldE (closureStep g) ts (i1, b \<or> c1) = Inr (is', c)"
      using Cons.prems by (auto simp: bindE_Inr_iff mapR_Inr_iff)
    show ?thesis using ruleItems_adds [OF r] Cons.IH [OF f] by auto
  qed (use Cons in \<open>auto simp: closureStep_def\<close>)
qed auto

function closureI :: "'t::linorder grammar \<Rightarrow> 't itemset \<Rightarrow> 't lalr_error + 't itemset" where
  "closureI g is =
     (case closurePass g is of
        Inl e \<Rightarrow> Inl e
      | Inr st \<Rightarrow> if snd st then closureI g (fst st) else Inr (fst st))"
  by pat_completeness auto

termination closureI
proof (relation "measure (\<lambda>(g, is). card (startItems g - is))")
  fix g :: "'t::linorder grammar" and "is" and st :: "'t itemset \<times> bool"
  assume r: "closurePass g is = Inr st" and c: "snd st"
  then obtain ts where "foldE (closureStep g) (sorted_list_of_set ts) (is, False) = Inr (fst st, snd st)"
    unfolding closurePass_def bindE_Inr_iff prod.collapse by blast
  from closureFold_adds [OF this] have "is \<subset> fst st" "fst st \<subseteq> is \<union> startItems g" using c by simp_all
  then have "startItems g - fst st \<subset> startItems g - is" by blast
  then show "((g, fst st), g, is) \<in> measure (\<lambda>(g, is). card (startItems g - is))"
    by (simp add: psubset_card_mono)
qed simp

declare closureI.simps [simp del]

section \<open>The LR(0) parser\<close>

record 't parserdef =
  pdG :: "'t grammar"
  pdS :: 't
  pdStates :: "'t itemset list"
  pdTrans :: "'t state_transitions list"
  pdNullable :: "'t set"
  pdLa :: "nat \<Rightarrow> 't item \<Rightarrow> 't set"

fun indexOf :: "'a \<Rightarrow> 'a list \<Rightarrow> nat option" where
  "indexOf x [] = None"
| "indexOf x (y # ys) = (if x = y then Some 0 else map_option Suc (indexOf x ys))"

definition parserState :: "'t itemset \<Rightarrow> 't parserdef \<Rightarrow> nat \<times> 't parserdef" where
  "parserState s p =
     (case indexOf s (pdStates p) of
        Some n \<Rightarrow> (n, p)
      | None \<Rightarrow> (length (pdStates p), p\<lparr>pdStates := pdStates p @ [s]\<rparr>))"

definition parserStateDef :: "'t parserdef \<Rightarrow> nat \<Rightarrow> 't lalr_error + 't itemset" where
  "parserStateDef p n = (if n < length (pdStates p) then Inr (pdStates p ! n) else Inl NoSuchState)"

definition followStep :: "'t::linorder grammar \<Rightarrow> 't \<Rightarrow> 't itemset \<Rightarrow> 't \<Rightarrow>
    't state_transitions \<times> 't parserdef \<Rightarrow> 't lalr_error + 't state_transitions \<times> 't parserdef" where
  "followStep g eof is v st =
     (case st of (r, p) \<Rightarrow>
        if v \<noteq> eof then
          bindE (followI g is v) (\<lambda>f. bindE (closureI g f) (\<lambda>s.
            case parserState s p of (n, p') \<Rightarrow> Inr (r @ [(v, n)], p')))
        else Inr (r, p))"

definition followStates :: "'t::linorder grammar \<Rightarrow> 't \<Rightarrow> 't itemset \<Rightarrow> 't set \<Rightarrow> 't parserdef \<Rightarrow>
    't lalr_error + 't state_transitions \<times> 't parserdef" where
  "followStates g eof is vs p = foldE (followStep g eof is) (sorted_list_of_set vs) ([], p)"

text \<open>
  The loop of \<open>lr0parser\<close> goes over the states while it adds new ones. It is a partial function: \<open>None\<close> is a loop that
  never ends.
\<close>

partial_function (option) lr0loop ::
    "'t::linorder \<Rightarrow> nat \<Rightarrow> 't parserdef \<Rightarrow> ('t lalr_error + 't parserdef) option" where
  "lr0loop eof n p =
     (if n < length (pdStates p) then
        (case bindE (parserStateDef p n) (\<lambda>nis. bindE (nextS (pdG p) nis) (\<lambda>vs. followStates (pdG p) eof nis vs p)) of
           Inl e \<Rightarrow> Some (Inl e)
         | Inr (tr, p') \<Rightarrow> lr0loop eof (n + 1) (p'\<lparr>pdTrans := pdTrans p' @ [tr]\<rparr>))
      else Some (Inr p))"

declare lr0loop.simps [code]

text \<open>\<open>p.g[boot].push_back(br)\<close>: the rule of the start symbol, which has a terminal of its own.\<close>

definition addRule :: "'t \<Rightarrow> 't rule \<Rightarrow> 't grammar \<Rightarrow> 't grammar" where
  "addRule t r g =
     (if hasRule g t then map (\<lambda>e. if fst e = t then (t, snd e @ [r]) else e) g else g @ [(t, [r])])"

definition lr0parser :: "'t::linorder \<Rightarrow> 't \<Rightarrow> 't grammar \<Rightarrow> 't \<Rightarrow> ('t lalr_error + 't parserdef) option" where
  "lr0parser boot eof g s =
     (let g' = addRule boot [s, eof] g;
          p = \<lparr>pdG = g', pdS = s, pdStates = [], pdTrans = [], pdNullable = {}, pdLa = \<lambda>_ _. {}\<rparr> in
      case bindE (ruleItems g' boot {}) (\<lambda>(is, _). closureI g' is) of
        Inl e \<Rightarrow> Some (Inl e)
      | Inr c \<Rightarrow>
          (case parserState c p of (n, p1) \<Rightarrow>
             map_option (\<lambda>res. bindE res (\<lambda>p2. mapR (\<lambda>ns. p2\<lparr>pdNullable := ns\<rparr>) (symbolsDerivingNull (pdG p2))))
               (lr0loop eof n p1)))"

section \<open>Items of a grammar\<close>

definition validItem :: "'t grammar \<Rightarrow> 't item \<Rightarrow> bool" where
  "validItem g i \<longleftrightarrow> (case i of (agg, p, r) \<Rightarrow> \<exists>rs. map_of g agg = Some rs \<and> r < length rs \<and> p \<le> length (rs ! r))"

definition ruleOf :: "'t grammar \<Rightarrow> 't item \<Rightarrow> 't rule" where
  "ruleOf g i = the (map_of g (fst i)) ! snd (snd i)"

definition itemNext :: "'t grammar \<Rightarrow> 't item \<Rightarrow> 't option" where
  "itemNext g i = ruleElement (ruleOf g i) (fst (snd i))"

definition validSet :: "'t grammar \<Rightarrow> 't itemset \<Rightarrow> bool" where
  "validSet g is \<longleftrightarrow> is \<subseteq> Collect (validItem g)"

definition nexts :: "'t grammar \<Rightarrow> 't itemset \<Rightarrow> 't set" where
  "nexts g is = {t. \<exists>i \<in> is. itemNext g i = Some t}"

lemma finite_validItems [simp]: "finite (Collect (validItem g))"
proof -
  let ?m = "Suc (Max (insert 0 (length ` set (concat (map snd g)))))"
  have "Collect (validItem g) \<subseteq> (\<Union>(a, rs) \<in> set g. (\<lambda>(p, r). (a, p, r)) ` ({..<?m} \<times> {..<length rs}))"
  proof
    fix i assume "i \<in> Collect (validItem g)"
    then obtain a p r rs where i: "i = (a, p, r)" "(a, rs) \<in> set g" "r < length rs" "p \<le> length (rs ! r)"
      by (auto simp: validItem_def dest: map_of_SomeD)
    have "rs ! r \<in> set (concat (map snd g))" using nth_mem [OF i(3)] by (auto intro!: bexI [OF _ i(2)])
    then have "length (rs ! r) \<le> Max (insert 0 (length ` set (concat (map snd g))))" by simp
    then have "p < ?m" using i(4) by linarith
    then show "i \<in> (\<Union>(a, rs) \<in> set g. (\<lambda>(p, r). (a, p, r)) ` ({..<?m} \<times> {..<length rs}))" using i by force
  qed
  then show ?thesis by (rule finite_subset) auto
qed

lemma validSet_finite: "validSet g is \<Longrightarrow> finite is"
  unfolding validSet_def by (rule finite_subset [OF _ finite_validItems])

lemma nextI_valid: "validItem g i \<Longrightarrow> nextI g i = Inr (itemNext g i)"
  by (auto simp: validItem_def nextI_def itemRule_def aggRules_def nthRule_def itemNext_def ruleOf_def)

lemma itemNext_Some:
  assumes "validItem g i" "itemNext g i = Some t"
  shows "validItem g (succItem i)" "ruleOf g (succItem i) = ruleOf g i" "fst (snd i) < length (ruleOf g i)"
    "ruleOf g i ! fst (snd i) = t"
  using assms by (auto simp: validItem_def itemNext_def ruleOf_def succItem_def ruleElement_def split: if_splits)

text \<open>A loop over a set that collects elements.\<close>

lemma foldE_collect:
  assumes "\<forall>x \<in> set xs. \<forall>r. h x r = Inr (r \<union> F x)"
  shows "foldE h xs r = Inr (r \<union> \<Union> (F ` set xs))"
  using assms by (induction xs arbitrary: r) (auto simp: Un_assoc)

lemma nextS_valid:
  assumes "validSet g is"
  shows "nextS g is = Inr (nexts g is)"
proof -
  let ?F = "\<lambda>i. set_option (itemNext g i)"
  have "\<forall>i \<in> set (sorted_list_of_set is). \<forall>r. bindE (nextI g i) (\<lambda>t. Inr (case t of None \<Rightarrow> r | Some t \<Rightarrow> insert t r)) =
      (Inr (r \<union> ?F i) :: 'a lalr_error + 'a set)"
    using assms validSet_finite [OF assms] by (auto simp: validSet_def nextI_valid subset_iff split: option.splits)
  moreover have "\<Union> (?F ` is) = nexts g is" by (auto simp: nexts_def)
  ultimately show ?thesis
    using foldE_collect validSet_finite [OF assms] unfolding nextS_def by (metis (no_types, lifting) set_sorted_list_of_set sup_bot_left)
qed

lemma nextPrim_valid:
  assumes "validSet g is"
  shows "nextPrim g is = Inr {t \<in> nexts g is. \<not> hasRule g t}"
proof -
  let ?F = "\<lambda>i. {t \<in> set_option (itemNext g i). \<not> hasRule g t}"
  have "\<forall>i \<in> set (sorted_list_of_set is). \<forall>r. bindE (nextI g i) (\<lambda>t. Inr (case t of None \<Rightarrow> r | Some v \<Rightarrow>
        if \<not> hasRule g v then insert v r else r)) = (Inr (r \<union> ?F i) :: 'a lalr_error + 'a set)"
    using assms validSet_finite [OF assms] by (auto simp: validSet_def nextI_valid subset_iff split: option.splits)
  moreover have "\<Union> (?F ` is) = {t \<in> nexts g is. \<not> hasRule g t}" by (auto simp: nexts_def)
  ultimately show ?thesis
    using foldE_collect validSet_finite [OF assms] unfolding nextPrim_def by (metis (no_types, lifting) set_sorted_list_of_set sup_bot_left)
qed

definition advance :: "'t grammar \<Rightarrow> 't itemset \<Rightarrow> 't \<Rightarrow> 't itemset" where
  "advance g is v = succItem ` {i \<in> is. itemNext g i = Some v}"

lemma followI_valid:
  assumes "validSet g is"
  shows "followI g is v = Inr (advance g is v)" "validSet g (advance g is v)"
proof -
  let ?F = "\<lambda>i. if itemNext g i = Some v then {succItem i} else {}"
  have "\<forall>i \<in> set (sorted_list_of_set is). \<forall>r. bindE (nextI g i) (\<lambda>t. Inr (if t = Some v then insert (succItem i) r else r)) =
      (Inr (r \<union> ?F i) :: 'a lalr_error + 'a itemset)"
    using assms validSet_finite [OF assms] by (auto simp: validSet_def nextI_valid subset_iff)
  moreover have "\<Union> (?F ` is) = advance g is v" by (auto simp: advance_def)
  ultimately show "followI g is v = Inr (advance g is v)"
    using foldE_collect validSet_finite [OF assms] unfolding followI_def by (metis (no_types, lifting) set_sorted_list_of_set sup_bot_left)
  have "validItem g (succItem i)" if "i \<in> is" "itemNext g i = Some v" for i
    by (rule itemNext_Some(1) [OF _ that(2)]) (use that(1) assms in \<open>auto simp only: validSet_def\<close>)
  then show "validSet g (advance g is v)" unfolding validSet_def advance_def by blast
qed

section \<open>Closure, by rules\<close>

inductive_set closed :: "'t grammar \<Rightarrow> 't itemset \<Rightarrow> 't itemset" for g "is" where
  base: "i \<in> is \<Longrightarrow> i \<in> closed g is"
| rule: "i \<in> closed g is \<Longrightarrow> itemNext g i = Some t \<Longrightarrow> map_of g t = Some rs \<Longrightarrow> r < length rs \<Longrightarrow> (t, 0, r) \<in> closed g is"

lemma closed_least:
  assumes "is \<subseteq> A" "\<And>i t rs r. i \<in> A \<Longrightarrow> itemNext g i = Some t \<Longrightarrow> map_of g t = Some rs \<Longrightarrow> r < length rs \<Longrightarrow> (t, 0, r) \<in> A"
  shows "closed g is \<subseteq> A"
proof
  fix i assume "i \<in> closed g is"
  then show "i \<in> A" by (induction) (use assms in blast)+
qed

lemma closed_valid: "validSet g is \<Longrightarrow> validSet g (closed g is)"
  unfolding validSet_def by (rule closed_least) (auto simp: validItem_def)

lemma ruleItems_defined:
  "map_of g t = Some rs \<Longrightarrow>
    ruleItems g t is = Inr (is \<union> (\<lambda>r. (t, 0, r)) ` {..<length rs}, \<not> (\<lambda>r. (t, 0, r)) ` {..<length rs} \<subseteq> is)"
  by (auto simp: ruleItems_def aggRules_def Let_def)

lemma closureFold_valid:
  assumes "set ts \<subseteq> nexts g (closed g is0)" "is \<subseteq> closed g is0"
  shows "\<exists>is' c. foldE (closureStep g) ts (is, b) = Inr (is', c) \<and> is' \<subseteq> closed g is0 \<and>
    (\<not> c \<longrightarrow> (\<forall>t \<in> set ts. \<forall>rs. map_of g t = Some rs \<longrightarrow> (\<forall>r < length rs. (t, 0, r) \<in> is)))"
  using assms
proof (induction ts arbitrary: "is" b)
  case (Cons t ts)
  obtain i where i: "i \<in> closed g is0" "itemNext g i = Some t" using Cons.prems(1) by (auto simp: nexts_def)
  have "\<exists>i1 c1. closureStep g t (is, b) = Inr (i1, c1) \<and> i1 \<subseteq> closed g is0 \<and>
      (\<not> c1 \<longrightarrow> i1 = is \<and> (\<forall>rs. map_of g t = Some rs \<longrightarrow> (\<forall>r < length rs. (t, 0, r) \<in> is)))"
  proof (cases "map_of g t")
    case None
    then show ?thesis using Cons.prems(2) by (simp add: closureStep_def hasRule_def)
  next
    case (Some rs)
    then have "(\<lambda>r. (t, 0, r)) ` {..<length rs} \<subseteq> closed g is0" using closed.rule [OF i] by auto
    then show ?thesis using Some Cons.prems(2) by (auto simp: closureStep_def hasRule_def ruleItems_defined)
  qed
  then obtain i1 c1 where s: "closureStep g t (is, b) = Inr (i1, c1)" "i1 \<subseteq> closed g is0"
      "\<not> c1 \<longrightarrow> i1 = is \<and> (\<forall>rs. map_of g t = Some rs \<longrightarrow> (\<forall>r < length rs. (t, 0, r) \<in> is))" by blast
  obtain is' c where f: "foldE (closureStep g) ts (i1, c1) = Inr (is', c)" "is' \<subseteq> closed g is0"
      "\<not> c \<longrightarrow> (\<forall>t \<in> set ts. \<forall>rs. map_of g t = Some rs \<longrightarrow> (\<forall>r < length rs. (t, 0, r) \<in> i1))"
    using Cons.IH [of i1 c1] Cons.prems(1) s(2) by auto
  have "c1 \<longrightarrow> c" using closureFold_adds [OF f(1)] by simp
  then show ?case using s f by auto
qed auto

lemma nexts_mono: "A \<subseteq> B \<Longrightarrow> nexts g A \<subseteq> nexts g B"
  by (auto simp: nexts_def)

lemma nexts_finite: "finite is \<Longrightarrow> finite (nexts g is)"
proof -
  assume "finite is"
  moreover have "nexts g is = (\<Union>i \<in> is. set_option (itemNext g i))" by (auto simp: nexts_def)
  ultimately show ?thesis by simp
qed

lemma closureI_closed:
  assumes "validSet g is0" "is0 \<subseteq> is" "is \<subseteq> closed g is0"
  shows "closureI g is = Inr (closed g is0)"
  using assms
proof (induction g "is" rule: closureI.induct)
  case (1 g "is")
  have v: "validSet g is" using closed_valid [OF 1(2)] 1(4) by (auto simp: validSet_def)
  then have fin: "finite (nexts g is)" using validSet_finite nexts_finite by blast
  obtain is' c where f: "foldE (closureStep g) (sorted_list_of_set (nexts g is)) (is, False) = Inr (is', c)" "is' \<subseteq> closed g is0"
      "\<not> c \<longrightarrow> (\<forall>t \<in> nexts g is. \<forall>rs. map_of g t = Some rs \<longrightarrow> (\<forall>r < length rs. (t, 0, r) \<in> is))"
    using closureFold_valid [of "sorted_list_of_set (nexts g is)" g is0 "is" False] 1(4) fin nexts_mono [OF 1(4)] by auto
  have p: "closurePass g is = Inr (is', c)" using f(1) v by (simp add: closurePass_def nextS_valid)
  have m: "is \<subseteq> is'" "\<not> c \<longrightarrow> is' = is" using closureFold_adds [OF f(1)] by simp_all
  show ?case
  proof (cases c)
    case True
    then show ?thesis using 1(1) [OF p] m(1) f(2) 1(2,3) by (subst closureI.simps) (auto simp: p)
  next
    case False
    then have "closed g is0 \<subseteq> is" using f(3) 1(3) by (intro closed_least) (auto simp: nexts_def)
    then have "is' = closed g is0" using False m 1(4) by blast
    then show ?thesis using False by (subst closureI.simps) (simp add: p)
  qed
qed

section \<open>The states, by rules\<close>

definition gotoSet :: "'t grammar \<Rightarrow> 't itemset \<Rightarrow> 't \<Rightarrow> 't itemset" where
  "gotoSet g is v = closed g (advance g is v)"

inductive_set lrStates :: "'t grammar \<Rightarrow> 't \<Rightarrow> 't itemset \<Rightarrow> 't itemset set" for g eof start where
  start: "start \<in> lrStates g eof start"
| goto: "s \<in> lrStates g eof start \<Longrightarrow> v \<in> nexts g s \<Longrightarrow> v \<noteq> eof \<Longrightarrow> gotoSet g s v \<in> lrStates g eof start"

text \<open>The transitions of one state: in the order of their symbols, each to the state of the items that follow.\<close>

definition transOK :: "'t::linorder grammar \<Rightarrow> 't \<Rightarrow> 't itemset list \<Rightarrow> 't itemset \<Rightarrow> 't state_transitions \<Rightarrow> bool" where
  "transOK g eof states is tr \<longleftrightarrow>
     map fst tr = filter (\<lambda>v. v \<noteq> eof) (sorted_list_of_set (nexts g is)) \<and>
     (\<forall>(v, m) \<in> set tr. m < length states \<and> states ! m = gotoSet g is v)"

lemma gotoSet_valid: "validSet g is \<Longrightarrow> validSet g (gotoSet g is v)" for g :: "'t::linorder grammar"
  by (simp add: gotoSet_def closed_valid followI_valid(2))

lemma transOK_more: "transOK g eof ss is tr \<Longrightarrow> transOK g eof (ss @ ts) is tr"
  by (auto simp: transOK_def nth_append)

lemma indexOf_Some: "indexOf x xs = Some n \<Longrightarrow> n < length xs \<and> xs ! n = x"
  by (induction xs arbitrary: n) (auto split: if_splits)

lemma indexOf_None: "indexOf x xs = None \<longleftrightarrow> x \<notin> set xs"
  by (induction xs) auto

lemma parserState_adds:
  "\<exists>ts n. parserState s p = (n, p\<lparr>pdStates := pdStates p @ ts\<rparr>) \<and> n < length (pdStates p @ ts) \<and> (pdStates p @ ts) ! n = s \<and>
     set ts \<subseteq> {s} \<and> (distinct (pdStates p) \<longrightarrow> distinct (pdStates p @ ts))"
proof (cases "indexOf s (pdStates p)")
  case None
  then have "parserState s p = (length (pdStates p), p\<lparr>pdStates := pdStates p @ [s]\<rparr>)" by (simp add: parserState_def)
  then show ?thesis using None by (intro exI [of _ "[s]"] exI [of _ "length (pdStates p)"]) (auto simp: indexOf_None)
next
  case (Some n)
  then show ?thesis using indexOf_Some [OF Some] by (intro exI [of _ "[]"] exI [of _ n]) (simp add: parserState_def)
qed

lemma followStep_adds:
  assumes "validSet g is" "v \<noteq> eof"
  shows "\<exists>ts n. followStep g eof is v (r, p) = Inr (r @ [(v, n)], p\<lparr>pdStates := pdStates p @ ts\<rparr>) \<and>
    n < length (pdStates p @ ts) \<and> (pdStates p @ ts) ! n = gotoSet g is v \<and>
    set ts \<subseteq> {gotoSet g is v} \<and> (distinct (pdStates p) \<longrightarrow> distinct (pdStates p @ ts))"
proof -
  have "closureI g (advance g is v) = Inr (gotoSet g is v)"
    unfolding gotoSet_def using followI_valid(2) [OF assms(1)] by (rule closureI_closed) (auto intro: closed.base)
  then show ?thesis using parserState_adds [of "gotoSet g is v" p] assms followI_valid(1) [OF assms(1)]
    by (auto simp: followStep_def)
qed

lemma followFold_adds:
  assumes "validSet g is"
  shows "\<exists>ts tr. foldE (followStep g eof is) vs (r, p) = Inr (r @ tr, p\<lparr>pdStates := pdStates p @ ts\<rparr>) \<and>
    map fst tr = filter (\<lambda>v. v \<noteq> eof) vs \<and>
    (\<forall>(v, m) \<in> set tr. m < length (pdStates p @ ts) \<and> (pdStates p @ ts) ! m = gotoSet g is v) \<and>
    set ts \<subseteq> gotoSet g is ` {v \<in> set vs. v \<noteq> eof} \<and> (distinct (pdStates p) \<longrightarrow> distinct (pdStates p @ ts))"
proof (induction vs arbitrary: r p)
  case Nil
  then show ?case by (intro exI [of _ "[]"]) simp
next
  case (Cons v vs)
  show ?case
  proof (cases "v = eof")
    case True
    then have "followStep g eof is v (r, p) = Inr (r, p)" by (simp add: followStep_def)
    moreover have "{x \<in> set (v # vs). x \<noteq> eof} = {x \<in> set vs. x \<noteq> eof}" using True by auto
    ultimately show ?thesis using Cons.IH [of r p] True by simp
  next
    case False
    obtain t1 n where s: "followStep g eof is v (r, p) = Inr (r @ [(v, n)], p\<lparr>pdStates := pdStates p @ t1\<rparr>)"
        "n < length (pdStates p @ t1)" "(pdStates p @ t1) ! n = gotoSet g is v" "set t1 \<subseteq> {gotoSet g is v}"
        "distinct (pdStates p) \<longrightarrow> distinct (pdStates p @ t1)"
      using followStep_adds [OF assms False] by blast
    let ?p = "p\<lparr>pdStates := pdStates p @ t1\<rparr>"
    obtain ts tr where f: "foldE (followStep g eof is) vs (r @ [(v, n)], ?p) = Inr ((r @ [(v, n)]) @ tr, ?p\<lparr>pdStates := pdStates ?p @ ts\<rparr>)"
        "map fst tr = filter (\<lambda>v. v \<noteq> eof) vs"
        "\<forall>(v, m) \<in> set tr. m < length (pdStates ?p @ ts) \<and> (pdStates ?p @ ts) ! m = gotoSet g is v"
        "set ts \<subseteq> gotoSet g is ` {v \<in> set vs. v \<noteq> eof}" "distinct (pdStates ?p) \<longrightarrow> distinct (pdStates ?p @ ts)"
      using Cons.IH [of "r @ [(v, n)]" ?p] by blast
    have "(pdStates p @ t1 @ ts) ! n = gotoSet g is v" using s(2,3) nth_append [of "pdStates p @ t1" ts n] by simp
    then show ?thesis using s f False
      by (intro exI [of _ "t1 @ ts"] exI [of _ "(v, n) # tr"]) auto
  qed
qed

lemma followStates_adds:
  assumes "validSet g is"
  shows "\<exists>ts tr. followStates g eof is (nexts g is) p = Inr (tr, p\<lparr>pdStates := pdStates p @ ts\<rparr>) \<and>
    transOK g eof (pdStates p @ ts) is tr \<and>
    set ts \<subseteq> gotoSet g is ` {v \<in> nexts g is. v \<noteq> eof} \<and> (distinct (pdStates p) \<longrightarrow> distinct (pdStates p @ ts))"
  using followFold_adds [OF assms, of eof "sorted_list_of_set (nexts g is)" "[]" p] validSet_finite [OF assms]
  by (simp add: followStates_def transOK_def nexts_finite)

definition lrInv :: "'t::linorder \<Rightarrow> 't itemset \<Rightarrow> nat \<Rightarrow> 't parserdef \<Rightarrow> bool" where
  "lrInv eof start n p \<longleftrightarrow> distinct (pdStates p) \<and> (\<forall>s \<in> set (pdStates p). validSet (pdG p) s) \<and>
     set (pdStates p) \<subseteq> lrStates (pdG p) eof start \<and> length (pdTrans p) = n \<and> n \<le> length (pdStates p) \<and>
     pdStates p \<noteq> [] \<and> pdStates p ! 0 = start \<and>
     (\<forall>k < n. transOK (pdG p) eof (pdStates p) (pdStates p ! k) (pdTrans p ! k))"

lemma lrInv_bound:
  assumes "lrInv eof start n p"
  shows "length (pdStates p) \<le> card (Pow (Collect (validItem (pdG p))))"
proof -
  have "set (pdStates p) \<subseteq> Pow (Collect (validItem (pdG p)))" using assms by (auto simp: lrInv_def validSet_def)
  then show ?thesis using assms card_mono [of "Pow (Collect (validItem (pdG p)))" "set (pdStates p)"]
    by (simp add: lrInv_def distinct_card)
qed

lemma lrInv_step:
  assumes I: "lrInv eof start n p" and n: "n < length (pdStates p)"
  shows "\<exists>p' tr. bindE (parserStateDef p n) (\<lambda>nis. bindE (nextS (pdG p) nis) (\<lambda>vs. followStates (pdG p) eof nis vs p)) = Inr (tr, p') \<and>
    pdG p' = pdG p \<and> pdS p' = pdS p \<and> pdLa p' = pdLa p \<and> lrInv eof start (n + 1) (p'\<lparr>pdTrans := pdTrans p' @ [tr]\<rparr>)"
proof -
  let ?is = "pdStates p ! n" and ?g = "pdG p"
  have "?is \<in> set (pdStates p)" using n by simp
  then have v: "validSet ?g ?is" "?is \<in> lrStates ?g eof start" using I unfolding lrInv_def by blast+
  obtain ts tr where f: "followStates ?g eof ?is (nexts ?g ?is) p = Inr (tr, p\<lparr>pdStates := pdStates p @ ts\<rparr>)"
      "transOK ?g eof (pdStates p @ ts) ?is tr" "set ts \<subseteq> gotoSet ?g ?is ` {v \<in> nexts ?g ?is. v \<noteq> eof}"
      "distinct (pdStates p @ ts)"
    using followStates_adds [OF v(1), of eof p] I unfolding lrInv_def by auto
  let ?p = "p\<lparr>pdStates := pdStates p @ ts, pdTrans := pdTrans p @ [tr]\<rparr>"
  have "set ts \<subseteq> lrStates ?g eof start" using f(3) lrStates.goto [OF v(2)] by auto
  moreover have "\<forall>s \<in> set ts. validSet ?g s" using f(3) gotoSet_valid [OF v(1)] by auto
  moreover have "transOK ?g eof (pdStates p @ ts) ((pdStates p @ ts) ! k) ((pdTrans p @ [tr]) ! k)" if "k < n + 1" for k
    using that I n f(2) by (cases "k = n") (auto simp: lrInv_def nth_append intro: transOK_more)
  ultimately have "lrInv eof start (n + 1) ?p" using I n f(4) by (auto simp: lrInv_def nth_append)
  moreover have "parserStateDef p n = Inr ?is" using n by (simp add: parserStateDef_def)
  ultimately show ?thesis using f(1) nextS_valid [OF v(1)] by auto
qed

lemma lr0loop_ends:
  assumes "lrInv eof start n p"
  shows "\<exists>p'. lr0loop eof n p = Some (Inr p') \<and> lrInv eof start (length (pdStates p')) p' \<and> pdG p' = pdG p \<and> pdS p' = pdS p \<and> pdLa p' = pdLa p"
  using assms
proof (induction "card (Pow (Collect (validItem (pdG p)))) - n" arbitrary: n p rule: less_induct)
  case less
  show ?case
  proof (cases "n < length (pdStates p)")
    case False
    then show ?thesis using less.prems by (subst lr0loop.simps) (auto simp: lrInv_def)
  next
    case True
    obtain p' tr where s: "bindE (parserStateDef p n) (\<lambda>nis. bindE (nextS (pdG p) nis) (\<lambda>vs. followStates (pdG p) eof nis vs p)) = Inr (tr, p')"
        "pdG p' = pdG p" "pdS p' = pdS p" "pdLa p' = pdLa p" "lrInv eof start (n + 1) (p'\<lparr>pdTrans := pdTrans p' @ [tr]\<rparr>)"
      using lrInv_step [OF less.prems True] by blast
    have "n < card (Pow (Collect (validItem (pdG p))))" using True lrInv_bound [OF less.prems] by linarith
    then show ?thesis using less.hyps [OF _ s(5)] True s(1-4) by (subst lr0loop.simps) simp
  qed
qed

section \<open>Rules and prefixes\<close>

text \<open>The word that leads to a state along the transitions of the parser, from state 0.\<close>

inductive lrPath :: "'t parserdef \<Rightarrow> 't list \<Rightarrow> nat \<Rightarrow> bool" for p where
  start: "lrPath p [] 0"
| trans: "lrPath p w n \<Longrightarrow> n < length (pdTrans p) \<Longrightarrow> (t, m) \<in> set (pdTrans p ! n) \<Longrightarrow> lrPath p (w @ [t]) m"

lemma advance_rule:
  assumes "validSet g is" "j \<in> advance g is v"
  shows "\<exists>i \<in> is. itemNext g i = Some v \<and> ruleOf g j = ruleOf g i \<and> fst j = fst i \<and>
    take (fst (snd j)) (ruleOf g j) = take (fst (snd i)) (ruleOf g i) @ [v]"
proof -
  obtain i where i: "i \<in> is" "itemNext g i = Some v" "j = succItem i" using assms(2) by (auto simp: advance_def)
  have n: "ruleOf g j = ruleOf g i" "fst (snd i) < length (ruleOf g i)" "ruleOf g i ! fst (snd i) = v"
    using itemNext_Some(2-4) [OF _ i(2)] i(1,3) assms(1) by (auto simp only: validSet_def)
  have "fst (snd j) = Suc (fst (snd i))" "fst j = fst i" by (simp_all add: i(3) succItem_def split: prod.splits)
  then show ?thesis using i(1,2) n by (auto simp: take_Suc_conv_app_nth)
qed

text \<open>What an item has read is the end of any word that leads to its state.\<close>

lemma lrPath_reads:
  assumes I: "lrInv eof start (length (pdTrans p)) p" and st: "\<forall>i \<in> start. fst (snd i) = 0"
    and "lrPath p w n"
  shows "n < length (pdStates p) \<and> (\<forall>i \<in> pdStates p ! n. \<exists>u. w = u @ take (fst (snd i)) (ruleOf (pdG p) i))"
  using assms(3)
proof induction
  case start
  then show ?case using I st by (auto simp: lrInv_def)
next
  case (trans w n t m)
  let ?g = "pdG p" and ?is = "pdStates p ! n"
  have ok: "transOK ?g eof (pdStates p) ?is (pdTrans p ! n)" and v: "validSet ?g ?is"
    using I trans.hyps(2) trans.IH by (auto simp: lrInv_def)
  have m: "m < length (pdStates p)" "pdStates p ! m = gotoSet ?g ?is t" using ok trans.hyps(3) by (auto simp: transOK_def)
  have "closed ?g (advance ?g ?is t) \<subseteq> {j. \<exists>u. w @ [t] = u @ take (fst (snd j)) (ruleOf ?g j)}"
  proof (rule closed_least)
    show "advance ?g ?is t \<subseteq> {j. \<exists>u. w @ [t] = u @ take (fst (snd j)) (ruleOf ?g j)}"
    proof
      fix j assume "j \<in> advance ?g ?is t"
      from advance_rule [OF v this] obtain i where i: "i \<in> ?is"
          "take (fst (snd j)) (ruleOf ?g j) = take (fst (snd i)) (ruleOf ?g i) @ [t]" by blast
      then show "j \<in> {j. \<exists>u. w @ [t] = u @ take (fst (snd j)) (ruleOf ?g j)}" using trans.IH by auto
    qed
  qed simp
  then show ?case using m by (auto simp: gotoSet_def)
qed

section \<open>Properties\<close>

text \<open>The grammar with its boot rule, and the first state.\<close>

definition bootGrammar :: "'t \<Rightarrow> 't \<Rightarrow> 't grammar \<Rightarrow> 't \<Rightarrow> 't grammar" where
  "bootGrammar boot eof g s = addRule boot [s, eof] g"

definition startSet :: "'t grammar \<Rightarrow> 't \<Rightarrow> 't itemset" where
  "startSet g boot = closed g {i. validItem g i \<and> fst i = boot \<and> fst (snd i) = 0}"

lemma startSet_closure:
  fixes g :: "'t::linorder grammar"
  assumes "map_of g boot = Some rs"
  shows "\<exists>c. bindE (ruleItems g boot {}) (\<lambda>(is, _). closureI g is) = Inr (startSet g boot)" "validSet g (startSet g boot)"
proof -
  let ?s = "{i. validItem g i \<and> fst i = boot \<and> fst (snd i) = 0}"
  have v: "validSet g ?s" by (auto simp: validSet_def)
  have "(\<lambda>r. (boot, 0, r)) ` {..<length rs} = ?s" using assms by (auto simp: validItem_def)
  then have "ruleItems g boot {} = Inr (?s, \<not> ?s \<subseteq> {})" using ruleItems_defined [OF assms, of "{}"] by simp
  moreover have "closureI g ?s = Inr (startSet g boot)" unfolding startSet_def
    by (rule closureI_closed [OF v]) (auto intro: closed.base)
  ultimately show "\<exists>c. bindE (ruleItems g boot {}) (\<lambda>(is, _). closureI g is) = Inr (startSet g boot)" by simp
  show "validSet g (startSet g boot)" unfolding startSet_def using v by (rule closed_valid)
qed

lemma startSet_start: "i \<in> startSet g boot \<Longrightarrow> fst (snd i) = 0"
proof -
  have "startSet g boot \<subseteq> {i. fst (snd i) = 0}" unfolding startSet_def by (rule closed_least) auto
  then show "i \<in> startSet g boot \<Longrightarrow> fst (snd i) = 0" by auto
qed

lemma addRule_defined: "\<exists>rs. map_of (addRule t r g) t = Some rs"
proof -
  have "t \<in> set (map fst (addRule t r g))"
  proof (cases "hasRule g t")
    case True
    then have "t \<in> set (map fst g)" using definedSymbols_iff [of t g] by (simp add: definedSymbols_def)
    then show ?thesis using True by (force simp: addRule_def)
  qed (simp add: addRule_def)
  then show ?thesis by (metis map_of_eq_None_iff not_Some_eq set_map)
qed

lemma lr0parser_run:
  fixes g :: "'t::linorder grammar"
  shows "\<exists>p. lr0parser boot eof g s = Some (Inr p) \<and> pdG p = bootGrammar boot eof g s \<and> pdS p = s \<and> pdLa p = (\<lambda>_ _. {}) \<and>
    pdNullable p = Collect (nullSymbol (pdG p)) \<and>
    lrInv eof (startSet (pdG p) boot) (length (pdStates p)) p"
proof -
  let ?g = "bootGrammar boot eof g s"
  let ?c = "startSet ?g boot"
  let ?p = "\<lparr>pdG = ?g, pdS = s, pdStates = [?c], pdTrans = [], pdNullable = {}, pdLa = \<lambda>_ _. {}\<rparr>"
  obtain rs where rs: "map_of ?g boot = Some rs" using addRule_defined by (metis bootGrammar_def)
  have c: "bindE (ruleItems ?g boot {}) (\<lambda>(is, _). closureI ?g is) = Inr ?c" "validSet ?g ?c"
    using startSet_closure [OF rs] by simp_all
  have "lrInv eof ?c 0 ?p" using c(2) by (auto simp: lrInv_def intro: lrStates.start)
  from lr0loop_ends [OF this] obtain p where p: "lr0loop eof 0 ?p = Some (Inr p)" "lrInv eof ?c (length (pdStates p)) p"
      "pdG p = ?g" "pdS p = s" "pdLa p = (\<lambda>_ _. {})" by auto
  have "symbolsDerivingNull ?g = Inr (Collect (nullSymbol ?g))"
    using nullLoop_exact [of "{}" ?g "definedSymbols ?g"] by (simp add: symbolsDerivingNull_def)
  then have "lr0parser boot eof g s = Some (Inr (p\<lparr>pdNullable := Collect (nullSymbol ?g)\<rparr>))"
    using c(1) p(1,3) by (simp add: lr0parser_def bootGrammar_def [symmetric] parserState_def)
  then show ?thesis using p by (auto simp: lrInv_def)
qed

lemma lrInv_all:
  assumes I: "lrInv eof start (length (pdStates p)) p"
  shows "set (pdStates p) = lrStates (pdG p) eof start"
proof
  show "lrStates (pdG p) eof start \<subseteq> set (pdStates p)"
  proof
    fix s assume "s \<in> lrStates (pdG p) eof start"
    then show "s \<in> set (pdStates p)"
    proof induction
      case start
      then show ?case using I unfolding lrInv_def by (metis length_greater_0_conv nth_mem)
    next
      case (goto s v)
      then obtain k where k: "k < length (pdStates p)" "pdStates p ! k = s" by (auto simp: in_set_conv_nth)
      then have "transOK (pdG p) eof (pdStates p) s (pdTrans p ! k)" "validSet (pdG p) s" using I by (auto simp: lrInv_def)
      then have t: "map fst (pdTrans p ! k) = filter (\<lambda>v. v \<noteq> eof) (sorted_list_of_set (nexts (pdG p) s))"
          "\<forall>(v, m) \<in> set (pdTrans p ! k). m < length (pdStates p) \<and> pdStates p ! m = gotoSet (pdG p) s v"
        "finite (nexts (pdG p) s)" by (simp_all add: transOK_def nexts_finite validSet_finite)
      have "v \<in> fst ` set (pdTrans p ! k)" using goto.hyps t(1,3)
        by (metis (mono_tags, lifting) mem_Collect_eq set_filter set_map set_sorted_list_of_set)
      then show ?case using t(2) by (fastforce simp: in_set_conv_nth)
    qed
  qed
qed (use I in \<open>simp add: lrInv_def\<close>)

text \<open>
  C4. \<open>lr0parser\<close> ends without an error for every grammar and start symbol. Its states are, each once, the item sets
  that can be reached from the closed items of the boot rule; state 0 is these items; and the transitions of a state are
  its next symbols in order, without the end of the file, each to the closure of the items that follow on the symbol.
\<close>

theorem lr0parser_exact:
  "\<exists>p. lr0parser boot eof g s = Some (Inr p) \<and> pdG p = bootGrammar boot eof g s \<and>
     distinct (pdStates p) \<and> set (pdStates p) = lrStates (pdG p) eof (startSet (pdG p) boot) \<and>
     pdStates p ! 0 = startSet (pdG p) boot \<and> length (pdTrans p) = length (pdStates p) \<and>
     (\<forall>n < length (pdStates p). transOK (pdG p) eof (pdStates p) (pdStates p ! n) (pdTrans p ! n))"
proof -
  obtain p where p: "lr0parser boot eof g s = Some (Inr p)" "pdG p = bootGrammar boot eof g s"
      "lrInv eof (startSet (pdG p) boot) (length (pdStates p)) p"
    using lr0parser_run [of boot eof g s] by auto
  then show ?thesis using lrInv_all [OF p(3)] by (auto simp: lrInv_def)
qed

text \<open>The grammar with the one rule from 5 to a terminal 7, with end 0 and boot symbol 9.\<close>

lemma lr0parser_exact_witness:
  "\<exists>p. lr0parser 9 0 [(5::nat, [[7]])] 5 = Some (Inr p) \<and> distinct (pdStates p)"
  using lr0parser_exact [of 9 0 "[(5::nat, [[7]])]" 5] by blast

text \<open>
  C38. A state's items fit the words that lead to it: what an item has read of its rule is the end of every word along
  whose transitions the parser gets from state 0 to the state. The states that a reduction takes off the stack are thus
  the ones of its rule.
\<close>

theorem lr_reads_prefix:
  assumes "lr0parser boot eof g s = Some (Inr p)" "lrPath p w n" "i \<in> pdStates p ! n"
  shows "\<exists>u. w = u @ take (fst (snd i)) (ruleOf (pdG p) i)"
proof -
  have I: "lrInv eof (startSet (pdG p) boot) (length (pdStates p)) p"
    using lr0parser_run [of boot eof g s] assms(1) by auto
  then have "length (pdTrans p) = length (pdStates p)" by (simp add: lrInv_def)
  moreover have "\<forall>i \<in> startSet (pdG p) boot. fst (snd i) = 0" by (blast intro: startSet_start)
  ultimately show ?thesis using lrPath_reads [of eof "startSet (pdG p) boot" p w n] I assms(2,3) by simp
qed

text \<open>The word 5 leads to state 1, where the boot rule has read it.\<close>

lemma lr_reads_prefix_witness:
  "\<exists>p u. lr0parser 9 0 [(5::nat, [[7]])] 5 = Some (Inr p) \<and> [5] = u @ take 1 (ruleOf (pdG p) (9, 1, 0))"
proof -
  have "map_option (mapR (\<lambda>p. (map (\<lambda>x. x) (pdTrans p), (9, 1, 0) \<in> pdStates p ! 1))) (lr0parser 9 0 [(5::nat, [[7]])] 5) =
      Some (Inr ([[(5, 1), (7, 2)], [], []], True))" by code_simp
  then obtain p where p: "lr0parser 9 0 [(5::nat, [[7]])] 5 = Some (Inr p)" "pdTrans p = [[(5, 1), (7, 2)], [], []]"
      "(9, 1, 0) \<in> pdStates p ! 1" by (auto simp: mapR_Inr_iff)
  have "lrPath p ([] @ [5]) 1" by (rule lrPath.trans [OF lrPath.start]) (simp_all add: p(2))
  then show ?thesis using lr_reads_prefix [of 9 0 "[(5, [[7]])]" 5 p "[5]" 1 "(9, 1, 0)"] p(1,3) by auto
qed

end
