(* ===== verification/Digraph.thy ===== *)
theory Digraph
  imports Grammar
begin

text \<open>
  The graph traversal \<open>digraphF\<close> of \<^verbatim>\<open>include/hobbes/parse/lalr.H\<close>: for a relation on a set of nodes and a value
  at each node, it collects at every node the values of the nodes that can be reached from it. The parser generator
  uses it for the lookahead sets, so the values here are sets and \<open>append\<close> is their union.

  The nodes come in the order of the set. The value of a node and the relation are computed by the caller and may throw;
  \<open>Inl (Some e)\<close> stands for a run that threw, \<open>Inl None\<close> for one that is out of fuel (a bound on the depth of the
  recursion) or pops an empty stack.
\<close>

section \<open>The traversal\<close>

text \<open>The index of a node: 0 before its visit, the depth of the stack, or \<open>inf()\<close>, \<open>(nat)-1\<close>, when it has left the stack.\<close>

datatype dgIndex = IdxAt nat | IdxInf

record ('x, 'v) dgState =
  dgStack :: "'x list"
  dgIdx :: "'x \<Rightarrow> dgIndex"
  dgVal :: "'x \<Rightarrow> 'v set option"

definition freshIdxs :: "'x \<Rightarrow> dgIndex" where
  "freshIdxs = (\<lambda>x. IdxAt 0)"

text \<open>Reading \<open>(*f)[x]\<close> gives the empty set when there is no entry.\<close>

definition dgAt :: "('x, 'v) dgState \<Rightarrow> 'x \<Rightarrow> 'v set" where
  "dgAt st x = (case dgVal st x of None \<Rightarrow> {} | Some v \<Rightarrow> v)"

text \<open>The loop that takes a component off the stack. Popping an empty stack has no defined result in C++ (\<open>None\<close>).\<close>

primrec joinSCC :: "'x \<Rightarrow> 'x list \<Rightarrow> ('x \<Rightarrow> dgIndex) \<Rightarrow> ('x \<Rightarrow> 'v set option) \<Rightarrow> ('x, 'v) dgState option" where
  "joinSCC x [] n f = None"
| "joinSCC x (cx # s) n f =
     (if cx = x then Some \<lparr>dgStack = s, dgIdx = n(cx := IdxInf), dgVal = f\<rparr>
      else joinSCC x s (n(cx := IdxInf)) (f(cx := f x)))"

text \<open>Adding the value of a successor to a node.\<close>

definition dgAdd :: "'x \<Rightarrow> 'x \<Rightarrow> ('x, 'v) dgState \<Rightarrow> ('x, 'v) dgState" where
  "dgAdd x y st = st\<lparr>dgVal := (dgVal st)(x \<mapsto> dgAt st x \<union> dgAt st y)\<rparr>"

definition dgVisit ::
    "('x \<Rightarrow> ('x, 'v) dgState \<Rightarrow> 'e option + ('x, 'v) dgState) \<Rightarrow> ('x \<Rightarrow> 'x \<Rightarrow> 'e + bool) \<Rightarrow> 'x \<Rightarrow> 'x \<Rightarrow>
     ('x, 'v) dgState \<Rightarrow> 'e option + ('x, 'v) dgState" where
  "dgVisit rec r x y st =
     (case r x y of
        Inl e \<Rightarrow> Inl (Some e)
      | Inr b \<Rightarrow>
          if b then
            bindE (if dgIdx st y = IdxAt 0 then rec y st else Inr st) (\<lambda>st. Inr (dgAdd x y st))
          else Inr st)"

primrec traverseF ::
    "nat \<Rightarrow> 'x list \<Rightarrow> ('x \<Rightarrow> 'e + 'v set) \<Rightarrow> ('x \<Rightarrow> 'x \<Rightarrow> 'e + bool) \<Rightarrow> 'x \<Rightarrow> ('x, 'v) dgState \<Rightarrow>
     'e option + ('x, 'v) dgState" where
  "traverseF 0 xs fp r x st = Inl None"
| "traverseF (Suc k) xs fp r x st =
     (let s = x # dgStack st; d = IdxAt (length s) in
      case fp x of
        Inl e \<Rightarrow> Inl (Some e)
      | Inr v \<Rightarrow>
          bindE (foldE (dgVisit (traverseF k xs fp r) r x) xs
                   \<lparr>dgStack = s, dgIdx = (dgIdx st)(x := d), dgVal = (dgVal st)(x \<mapsto> v)\<rparr>) (\<lambda>st.
            if dgIdx st x = d then
              (case joinSCC x (dgStack st) (dgIdx st) (dgVal st) of
                 None \<Rightarrow> Inl None
               | Some st \<Rightarrow> Inr st)
            else Inr st))"

definition digraphF ::
    "nat \<Rightarrow> 'x list \<Rightarrow> ('x \<Rightarrow> 'e + 'v set) \<Rightarrow> ('x \<Rightarrow> 'x \<Rightarrow> 'e + bool) \<Rightarrow> 'e option + ('x \<Rightarrow> 'v set option)" where
  "digraphF k xs fp r =
     mapR dgVal (foldE (\<lambda>x st. if dgIdx st x = IdxAt 0 then traverseF k xs fp r x st else Inr st) xs
       \<lparr>dgStack = [], dgIdx = freshIdxs, dgVal = Map.empty\<rparr>)"

section \<open>What the traversal keeps\<close>

text \<open>The nodes visited so far, and the values of all nodes reachable from a node, which is the specification.\<close>

definition dgVis :: "('x, 'v) dgState \<Rightarrow> 'x set" where
  "dgVis st = {x. dgIdx st x \<noteq> IdxAt 0}"

definition dgEdges :: "'x list \<Rightarrow> ('x \<Rightarrow> 'x \<Rightarrow> bool) \<Rightarrow> ('x \<times> 'x) set" where
  "dgEdges xs R = {(x, y). x \<in> set xs \<and> y \<in> set xs \<and> R x y}"

definition reachVals :: "('x \<times> 'x) set \<Rightarrow> ('x \<Rightarrow> 'v set) \<Rightarrow> 'x \<Rightarrow> 'v set" where
  "reachVals E v x = (\<Union>y \<in> E\<^sup>* `` {x}. v y)"

definition dgSound :: "('x \<times> 'x) set \<Rightarrow> ('x \<Rightarrow> 'v set) \<Rightarrow> 'x set \<Rightarrow> ('x, 'v) dgState \<Rightarrow> bool" where
  "dgSound E v X st \<longleftrightarrow> (\<forall>y \<in> dgVis st. y \<in> X \<and> dgVal st y \<noteq> None \<and> v y \<subseteq> dgAt st y \<and> dgAt st y \<subseteq> reachVals E v y)"

definition dgKeeps :: "'x set \<Rightarrow> ('x, 'v) dgState \<Rightarrow> ('x, 'v) dgState \<Rightarrow> bool" where
  "dgKeeps A st st' \<longleftrightarrow> dgStack st' = dgStack st \<and> dgVis st \<subseteq> dgVis st' \<and> (\<forall>y \<in> dgVis st. dgIdx st' y = dgIdx st y) \<and>
     (\<forall>y \<in> dgVis st - A. dgVal st' y = dgVal st y)"

definition dgExact :: "('x \<times> 'x) set \<Rightarrow> ('x \<Rightarrow> 'v set) \<Rightarrow> 'x set \<Rightarrow> ('x, 'v) dgState \<Rightarrow> bool" where
  "dgExact E v A st \<longleftrightarrow> (\<forall>y \<in> dgVis st \<inter> A. dgAt st y = reachVals E v y)"

definition dgMore :: "('x \<times> 'x) set \<Rightarrow> ('x \<Rightarrow> 'v set) \<Rightarrow> 'x set \<Rightarrow> 'x set \<Rightarrow> 'x \<Rightarrow> ('x, 'v) dgState \<Rightarrow> ('x, 'v) dgState \<Rightarrow> bool" where
  "dgMore E v X A x st st' \<longleftrightarrow> dgSound E v X st' \<and> dgKeeps A st st' \<and> x \<in> dgVis st' \<and> dgVis st' \<subseteq> dgVis st \<union> E\<^sup>* `` {x} \<and>
     (acyclic (E - Id) \<longrightarrow> dgExact E v (E\<^sup>* `` {x} - A) st \<longrightarrow> dgExact E v (E\<^sup>* `` {x} - A) st')"

lemma dgKeeps_trans: "dgKeeps A s t \<Longrightarrow> dgKeeps A t u \<Longrightarrow> dgKeeps A s u"
  unfolding dgKeeps_def by auto

lemma dgKeeps_mono: "dgKeeps A s t \<Longrightarrow> A \<subseteq> B \<Longrightarrow> dgKeeps B s t"
  unfolding dgKeeps_def by blast

lemma dgMore_trans: "dgMore E v X A x s t \<Longrightarrow> dgMore E v X A x t u \<Longrightarrow> dgMore E v X A x s u"
  unfolding dgMore_def by (meson Un_iff dgKeeps_trans subset_iff)

lemma dgMore_refl: "dgSound E v X s \<Longrightarrow> x \<in> dgVis s \<Longrightarrow> dgMore E v X A x s s"
  by (auto simp: dgMore_def dgKeeps_def)

text \<open>Without cycles, apart from loops at a node, a node is not reachable from its other successors.\<close>

lemma acyclic_back:
  assumes "acyclic (E - Id)" "(x, y) \<in> E" "x \<noteq> y"
  shows "(y, x) \<notin> E\<^sup>*"
proof
  assume "(y, x) \<in> E\<^sup>*"
  then have "(y, x) \<in> (E - Id)\<^sup>*" by (simp add: rtrancl_r_diff_Id)
  moreover have "(x, y) \<in> E - Id" using assms by simp
  ultimately have "(x, x) \<in> (E - Id)\<^sup>+" by (rule rtrancl_into_trancl2 [rotated])
  then show False using assms(1) by (simp add: acyclic_def)
qed

lemma reachVals_edge: "(x, y) \<in> E \<Longrightarrow> reachVals E v y \<subseteq> reachVals E v x"
  by (auto simp: reachVals_def intro: converse_rtrancl_into_rtrancl)

lemma reachVals_self: "v x \<subseteq> reachVals E v x"
  by (auto simp: reachVals_def)

lemma reachVals_unfold: "reachVals E v x = v x \<union> (\<Union>y \<in> (E - Id) `` {x}. reachVals E v y)"
proof -
  have "reachVals F v x = v x \<union> (\<Union>y \<in> F `` {x}. reachVals F v y)" for F
    by (auto simp: reachVals_def intro: converse_rtrancl_into_rtrancl elim: converse_rtranclE)
  from this [of "E - Id"] show ?thesis by (simp add: reachVals_def rtrancl_r_diff_Id)
qed

lemma dgAdd_simps [simp]: "dgVis (dgAdd x y st) = dgVis st" "dgAt (dgAdd x y st) x = dgAt st x \<union> dgAt st y"
    "z \<noteq> x \<Longrightarrow> dgAt (dgAdd x y st) z = dgAt st z"
  by (simp_all add: dgVis_def dgAt_def dgAdd_def)

lemma dgAdd_more:
  assumes "dgSound E v X st" "x \<in> dgVis st" "y \<in> dgVis st" "(x, y) \<in> E"
  shows "dgMore E v X {x} x st (dgAdd x y st)"
proof -
  have "dgAt (dgAdd x y st) x \<subseteq> reachVals E v x"
    using assms reachVals_edge [OF assms(4), of v] by (auto simp: dgSound_def)
  moreover have "v x \<subseteq> dgAt (dgAdd x y st) x" using assms by (auto simp: dgSound_def)
  ultimately have "v z \<subseteq> dgAt (dgAdd x y st) z \<and> dgAt (dgAdd x y st) z \<subseteq> reachVals E v z" if "z \<in> dgVis st" for z
    using assms(1) that by (cases "z = x") (auto simp: dgSound_def)
  then have "dgSound E v X (dgAdd x y st)" using assms(1) by (simp add: dgSound_def) (simp add: dgAdd_def)
  moreover have "dgKeeps {x} st (dgAdd x y st)" by (auto simp: dgKeeps_def dgAdd_def dgVis_def)
  moreover have "dgExact E v (A - {x}) (dgAdd x y st) = dgExact E v (A - {x}) st" for A
    by (auto simp: dgExact_def)
  ultimately show ?thesis using assms(2) by (auto simp: dgMore_def)
qed

lemma dgMore_visit:
  assumes m: "dgMore E v X {} y st st'" and e: "(x, y) \<in> E" and s: "x \<in> dgVis st" "y \<notin> dgVis st"
  shows "dgMore E v X {x} x st st'"
proof -
  have ne: "x \<noteq> y" using s by auto
  have below: "E\<^sup>* `` {y} \<subseteq> E\<^sup>* `` {x}" using e by (auto intro: converse_rtrancl_into_rtrancl)
  have k: "dgKeeps {} st st'" using m by (simp add: dgMore_def)
  then have at: "\<forall>z \<in> dgVis st. dgAt st' z = dgAt st z" by (simp add: dgKeeps_def dgAt_def)
  have "dgExact E v (E\<^sup>* `` {x} - {x}) st'" if ac: "acyclic (E - Id)" and ex: "dgExact E v (E\<^sup>* `` {x} - {x}) st"
  proof -
    have "x \<notin> E\<^sup>* `` {y}" using acyclic_back [OF ac e ne] by simp
    then have "dgExact E v (E\<^sup>* `` {y} - {}) st" using ex below unfolding dgExact_def by blast
    then have new: "dgExact E v (E\<^sup>* `` {y} - {}) st'" using m ac by (simp add: dgMore_def)
    have "dgVis st' \<subseteq> dgVis st \<union> E\<^sup>* `` {y}" using m by (simp add: dgMore_def)
    moreover have "dgAt st' z = reachVals E v z" if "z \<in> dgVis st" "z \<in> E\<^sup>* `` {x} - {x}" for z
      using that ex at by (simp add: dgExact_def)
    moreover have "dgAt st' z = reachVals E v z" if "z \<in> dgVis st'" "z \<in> E\<^sup>* `` {y}" for z
      using that new by (simp add: dgExact_def)
    ultimately show ?thesis unfolding dgExact_def by blast
  qed
  moreover have "dgVis st' \<subseteq> dgVis st \<union> E\<^sup>* `` {x}" "x \<in> dgVis st'" "dgSound E v X st'"
    using m below s by (auto simp: dgMore_def dgKeeps_def)
  ultimately show ?thesis using dgKeeps_mono [OF k, of "{x}"] by (simp add: dgMore_def)
qed

lemma dgVis_shrinks: "dgKeeps A st st' \<Longrightarrow> finite X \<Longrightarrow> card (X - dgVis st') \<le> card (X - dgVis st)"
  by (rule card_mono) (auto simp: dgKeeps_def)

lemma dgVisit_loop:
  assumes IH: "\<And>y st. y \<in> X \<Longrightarrow> y \<notin> dgVis st \<Longrightarrow> dgSound E v X st \<Longrightarrow> card (X - dgVis st) \<le> k \<Longrightarrow>
      \<exists>st'. rec y st = Inr st' \<and> dgMore E v X {} y st st'"
    and r: "\<forall>y \<in> X. r x y = Inr (R x y)" and E: "\<forall>y \<in> X. (x, y) \<in> E \<longleftrightarrow> R x y" and X: "finite X"
    and "set ys \<subseteq> X" "x \<in> dgVis st" "dgSound E v X st" "card (X - dgVis st) \<le> k"
  shows "\<exists>st'. foldE (dgVisit rec r x) ys st = Inr st' \<and> dgMore E v X {x} x st st' \<and> dgAt st x \<subseteq> dgAt st' x \<and>
    (\<forall>y \<in> set ys. R x y \<longrightarrow> y \<in> dgVis st' \<and> dgAt st' y \<subseteq> dgAt st' x)"
  using assms(5-)
proof (induction ys arbitrary: st)
  case Nil
  then show ?case by (simp add: dgMore_refl)
next
  case (Cons y ys)
  have y: "y \<in> X" using Cons.prems(1) by simp
  have "\<exists>s1. dgVisit rec r x y st = Inr s1 \<and> dgMore E v X {x} x st s1 \<and> dgAt st x \<subseteq> dgAt s1 x \<and>
      (R x y \<longrightarrow> y \<in> dgVis s1 \<and> dgAt s1 y \<subseteq> dgAt s1 x)"
  proof (cases "R x y")
    case False
    then show ?thesis using r y Cons.prems by (simp add: dgVisit_def dgMore_refl)
  next
    case True
    then have e: "(x, y) \<in> E" using E y by simp
    obtain s0 where s0: "(if dgIdx st y = IdxAt 0 then rec y st else Inr st) = Inr s0" "dgMore E v X {x} x st s0"
        "y \<in> dgVis s0" "dgAt s0 x = dgAt st x"
    proof (cases "y \<in> dgVis st")
      case True
      then show thesis using that [of st] Cons.prems by (simp add: dgMore_refl dgVis_def)
    next
      case False
      then obtain s0 where "rec y st = Inr s0" "dgMore E v X {} y st s0" using IH [of y st] y Cons.prems by auto
      moreover from this have "dgMore E v X {x} x st s0" using dgMore_visit e False Cons.prems(2) by metis
      ultimately show thesis using that [of s0] False Cons.prems(2) by (simp add: dgMore_def dgVis_def dgKeeps_def dgAt_def)
    qed
    have a: "dgMore E v X {x} x s0 (dgAdd x y s0)" using dgAdd_more [of E v X s0 x y] s0(2,3) e by (simp add: dgMore_def)
    have "dgAt (dgAdd x y s0) y \<subseteq> dgAt (dgAdd x y s0) x" by (cases "y = x") auto
    then have "dgVisit rec r x y st = Inr (dgAdd x y s0) \<and> dgMore E v X {x} x st (dgAdd x y s0) \<and>
        dgAt st x \<subseteq> dgAt (dgAdd x y s0) x \<and> y \<in> dgVis (dgAdd x y s0) \<and> dgAt (dgAdd x y s0) y \<subseteq> dgAt (dgAdd x y s0) x"
      using r y True s0 dgMore_trans [OF s0(2) a] by (simp add: dgVisit_def)
    then show ?thesis by blast
  qed
  then obtain s1 where s1: "dgVisit rec r x y st = Inr s1" "dgMore E v X {x} x st s1" "dgAt st x \<subseteq> dgAt s1 x"
      "R x y \<longrightarrow> y \<in> dgVis s1 \<and> dgAt s1 y \<subseteq> dgAt s1 x" by blast
  have k1: "dgKeeps {x} st s1" "dgSound E v X s1" "x \<in> dgVis s1" using s1(2) by (simp_all add: dgMore_def)
  obtain s2 where s2: "foldE (dgVisit rec r x) ys s1 = Inr s2" "dgMore E v X {x} x s1 s2" "dgAt s1 x \<subseteq> dgAt s2 x"
      "\<forall>y \<in> set ys. R x y \<longrightarrow> y \<in> dgVis s2 \<and> dgAt s2 y \<subseteq> dgAt s2 x"
    using Cons.IH [of s1] Cons.prems(1,4) k1 dgVis_shrinks [OF k1(1) X] by auto
  have "R x y \<longrightarrow> y \<in> dgVis s2 \<and> dgAt s2 y \<subseteq> dgAt s2 x"
  proof
    assume "R x y"
    then have y1: "y \<in> dgVis s1" "dgAt s1 y \<subseteq> dgAt s1 x" using s1(4) by auto
    have k2: "dgKeeps {x} s1 s2" using s2(2) by (simp add: dgMore_def)
    then show "y \<in> dgVis s2 \<and> dgAt s2 y \<subseteq> dgAt s2 x"
      using y1 s2(3) by (cases "y = x") (auto simp: dgKeeps_def dgAt_def)
  qed
  then show ?case using s1 s2 dgMore_trans [OF s1(2) s2(2)] by auto
qed

text \<open>A node is alone when the traversal takes it off the stack, since nothing lowers its index.\<close>

lemma traverseF_more:
  assumes f: "\<forall>x \<in> set xs. fp x = Inr (v x)" and r: "\<forall>x \<in> set xs. \<forall>y \<in> set xs. r x y = Inr (R x y)"
    and "x \<in> set xs" "x \<notin> dgVis st" "dgSound (dgEdges xs R) v (set xs) st" "card (set xs - dgVis st) \<le> k"
  shows "\<exists>st'. traverseF k xs fp r x st = Inr st' \<and> dgMore (dgEdges xs R) v (set xs) {} x st st'"
  using assms(3-)
proof (induction k arbitrary: x st)
  case 0
  then show ?case by auto
next
  case (Suc k)
  let ?E = "dgEdges xs R" and ?X = "set xs" and ?d = "IdxAt (length (x # dgStack st))"
  let ?s0 = "\<lparr>dgStack = x # dgStack st, dgIdx = (dgIdx st)(x := ?d), dgVal = (dgVal st)(x \<mapsto> v x)\<rparr>"
  have s0: "dgVis ?s0 = insert x (dgVis st)" "dgAt ?s0 x = v x" "\<And>z. z \<noteq> x \<Longrightarrow> dgAt ?s0 z = dgAt st z"
    by (auto simp: dgVis_def dgAt_def)
  have fx: "fp x = Inr (v x)" using f Suc.prems(1) by simp
  have E: "\<forall>y \<in> ?X. (x, y) \<in> ?E \<longleftrightarrow> R x y" using Suc.prems(1) by (simp add: dgEdges_def)
  have "y \<in> ?X \<and> dgVal ?s0 y \<noteq> None \<and> v y \<subseteq> dgAt ?s0 y \<and> dgAt ?s0 y \<subseteq> reachVals ?E v y"
    if "y = x \<or> y \<in> dgVis st" for y
  proof (cases "y = x")
    case True
    then show ?thesis using Suc.prems(1) reachVals_self [of v x ?E] s0(2) by simp
  next
    case False
    then show ?thesis using Suc.prems(3) that s0(3) [OF False] by (simp add: dgSound_def)
  qed
  then have snd0: "dgSound ?E v ?X ?s0" unfolding dgSound_def s0(1) by blast
  have "?X - dgVis ?s0 \<subset> ?X - dgVis st" using Suc.prems(1,2) s0(1) by blast
  then have "card (?X - dgVis ?s0) < card (?X - dgVis st)" by (rule psubset_card_mono [rotated]) simp
  then have c0: "card (?X - dgVis ?s0) \<le> k" using Suc.prems(4) by linarith
  obtain s1 where s1: "foldE (dgVisit (traverseF k xs fp r) r x) xs ?s0 = Inr s1" "dgMore ?E v ?X {x} x ?s0 s1"
      "dgAt ?s0 x \<subseteq> dgAt s1 x" "\<forall>y \<in> ?X. R x y \<longrightarrow> y \<in> dgVis s1 \<and> dgAt s1 y \<subseteq> dgAt s1 x"
    using dgVisit_loop [of ?X ?E v k "traverseF k xs fp r" r x R xs ?s0] Suc.IH r Suc.prems(1) E snd0 c0 s0(1) by auto
  let ?s2 = "\<lparr>dgStack = dgStack st, dgIdx = (dgIdx s1)(x := IdxInf), dgVal = dgVal s1\<rparr>"
  have k1: "dgKeeps {x} ?s0 s1" "dgSound ?E v ?X s1" "x \<in> dgVis s1" "dgVis s1 \<subseteq> dgVis ?s0 \<union> ?E\<^sup>* `` {x}"
    using s1(2) by (simp_all add: dgMore_def)
  then have st1: "dgStack s1 = x # dgStack st" "dgIdx s1 x = ?d" using s0(1) by (auto simp: dgKeeps_def)
  have run: "traverseF (Suc k) xs fp r x st = Inr ?s2" using fx s1(1) st1 by (simp add: Let_def)
  have s2: "dgVis ?s2 = dgVis s1" "\<And>z. dgAt ?s2 z = dgAt s1 z"
    using k1(3) by (auto simp: dgVis_def dgAt_def)
  have kp: "dgKeeps {} st ?s2"
    using k1(1) Suc.prems(2) s0(1) s2(1) unfolding dgKeeps_def by (auto simp: dgVis_def)
  have "dgExact ?E v (?E\<^sup>* `` {x}) ?s2" if ac: "acyclic (?E - Id)" and ex: "dgExact ?E v (?E\<^sup>* `` {x}) st"
  proof -
    have "dgExact ?E v (?E\<^sup>* `` {x} - {x}) ?s0" using ex s0 by (auto simp: dgExact_def)
    then have e1: "dgExact ?E v (?E\<^sup>* `` {x} - {x}) s1" using s1(2) ac by (simp add: dgMore_def)
    have "reachVals ?E v y \<subseteq> dgAt s1 x" if y: "y \<in> (?E - Id) `` {x}" for y
    proof -
      have "y \<in> ?X" "R x y" "y \<noteq> x" "y \<in> ?E\<^sup>* `` {x} - {x}" using y by (auto simp: dgEdges_def)
      then show ?thesis using s1(4) e1 unfolding dgExact_def by auto
    qed
    then have "reachVals ?E v x \<subseteq> dgAt s1 x"
      using reachVals_unfold [of ?E v x] s1(3) s0(2) by blast
    then have "dgAt s1 x = reachVals ?E v x" using k1(2,3) by (auto simp: dgSound_def)
    then show ?thesis using e1 s2 by (auto simp: dgExact_def)
  qed
  moreover have "dgSound ?E v ?X ?s2" using k1(2) s2 by (simp add: dgSound_def)
  moreover have "dgVis ?s2 \<subseteq> dgVis st \<union> ?E\<^sup>* `` {x}" using k1(4) s0(1) s2(1) by auto
  ultimately have "dgMore ?E v ?X {} x st ?s2" using kp k1(3) s2(1) by (simp add: dgMore_def)
  then show ?case using run by blast
qed

lemma digraphF_loop:
  assumes f: "\<forall>x \<in> set xs. fp x = Inr (v x)" and r: "\<forall>x \<in> set xs. \<forall>y \<in> set xs. r x y = Inr (R x y)"
    and k: "length xs \<le> k"
    and "set ys \<subseteq> set xs" "dgSound (dgEdges xs R) v (set xs) st" "acyclic (dgEdges xs R - Id) \<longrightarrow> dgExact (dgEdges xs R) v UNIV st"
  shows "\<exists>st'. foldE (\<lambda>x st. if dgIdx st x = IdxAt 0 then traverseF k xs fp r x st else Inr st) ys st = Inr st' \<and>
    dgSound (dgEdges xs R) v (set xs) st' \<and> dgVis st \<union> set ys \<subseteq> dgVis st' \<and>
    (acyclic (dgEdges xs R - Id) \<longrightarrow> dgExact (dgEdges xs R) v UNIV st')"
  using assms(4-)
proof (induction ys arbitrary: st)
  case (Cons y ys)
  let ?E = "dgEdges xs R" and ?X = "set xs"
  have "\<exists>s1. (if dgIdx st y = IdxAt 0 then traverseF k xs fp r y st else Inr st) = Inr s1 \<and> dgSound ?E v ?X s1 \<and>
      insert y (dgVis st) \<subseteq> dgVis s1 \<and> (acyclic (?E - Id) \<longrightarrow> dgExact ?E v UNIV s1)"
  proof (cases "y \<in> dgVis st")
    case True
    then show ?thesis using Cons.prems by (simp add: dgVis_def)
  next
    case False
    have "card (?X - dgVis st) \<le> card ?X" by (rule card_mono) auto
    then have "card (?X - dgVis st) \<le> k" using k card_length [of xs] by linarith
    then obtain s1 where s1: "traverseF k xs fp r y st = Inr s1" "dgMore ?E v ?X {} y st s1"
      using traverseF_more [OF f r _ False Cons.prems(2)] Cons.prems(1) by auto
    then have m: "dgKeeps {} st s1" "dgVis s1 \<subseteq> dgVis st \<union> ?E\<^sup>* `` {y}" "dgSound ?E v ?X s1" "y \<in> dgVis s1"
      by (simp_all add: dgMore_def)
    have "dgExact ?E v UNIV s1" if ac: "acyclic (?E - Id)"
    proof -
      have ex: "dgExact ?E v UNIV st" using Cons.prems(3) ac by simp
      then have "dgExact ?E v (?E\<^sup>* `` {y}) st" by (simp add: dgExact_def)
      then have "dgExact ?E v (?E\<^sup>* `` {y}) s1" using s1(2) ac by (simp add: dgMore_def)
      moreover have "\<forall>z \<in> dgVis st. dgAt s1 z = reachVals ?E v z"
        using m(1) ex by (simp add: dgKeeps_def dgExact_def dgAt_def)
      ultimately show ?thesis using m(2) unfolding dgExact_def by blast
    qed
    then show ?thesis using s1(1) m False by (auto simp: dgVis_def dgKeeps_def)
  qed
  then obtain s1 where s1: "(if dgIdx st y = IdxAt 0 then traverseF k xs fp r y st else Inr st) = Inr s1" "dgSound ?E v ?X s1"
      "insert y (dgVis st) \<subseteq> dgVis s1" "acyclic (?E - Id) \<longrightarrow> dgExact ?E v UNIV s1" by blast
  obtain s2 where s2: "foldE (\<lambda>x st. if dgIdx st x = IdxAt 0 then traverseF k xs fp r x st else Inr st) ys s1 = Inr s2"
      "dgSound ?E v ?X s2" "dgVis s1 \<union> set ys \<subseteq> dgVis s2" "acyclic (?E - Id) \<longrightarrow> dgExact ?E v UNIV s2"
    using Cons.IH [of s1] Cons.prems(1) s1(2,4) by auto
  then show ?case using s1(1,3) by auto
qed simp

lemma digraphF_total:
  fixes v :: "'x \<Rightarrow> 'v set"
  assumes "\<forall>x \<in> set xs. fp x = Inr (v x)" "\<forall>x \<in> set xs. \<forall>y \<in> set xs. r x y = Inr (R x y)" "length xs \<le> k"
  shows "\<exists>f. digraphF k xs fp r = Inr f \<and>
    (\<forall>x \<in> set xs. \<exists>w. f x = Some w \<and> v x \<subseteq> w \<and> w \<subseteq> reachVals (dgEdges xs R) v x \<and>
      (acyclic (dgEdges xs R - Id) \<longrightarrow> w = reachVals (dgEdges xs R) v x))"
proof -
  let ?s = "\<lparr>dgStack = [], dgIdx = freshIdxs, dgVal = Map.empty\<rparr> :: ('x, 'v) dgState"
  have "dgVis ?s = {}" by (simp add: dgVis_def freshIdxs_def)
  then have "dgSound (dgEdges xs R) v (set xs) ?s" "dgExact (dgEdges xs R) v UNIV ?s"
    by (simp_all only: dgSound_def dgExact_def ball_empty Int_empty_left)
  then obtain st where st: "foldE (\<lambda>x st. if dgIdx st x = IdxAt 0 then traverseF k xs fp r x st else Inr st) xs ?s = Inr st"
      "dgSound (dgEdges xs R) v (set xs) st" "set xs \<subseteq> dgVis st"
      "acyclic (dgEdges xs R - Id) \<longrightarrow> dgExact (dgEdges xs R) v UNIV st"
    using digraphF_loop [OF assms, of xs ?s] by auto
  have "\<exists>w. dgVal st x = Some w \<and> v x \<subseteq> w \<and> w \<subseteq> reachVals (dgEdges xs R) v x \<and>
      (acyclic (dgEdges xs R - Id) \<longrightarrow> w = reachVals (dgEdges xs R) v x)" if "x \<in> set xs" for x
  proof -
    have x: "x \<in> dgVis st" using that st(3) by blast
    then obtain w where w: "dgVal st x = Some w" using st(2) unfolding dgSound_def by blast
    then have "dgAt st x = w" by (simp add: dgAt_def)
    then show ?thesis using x w st(2,4) unfolding dgSound_def dgExact_def by auto
  qed
  then show ?thesis using st(1) by (simp add: digraphF_def)
qed

section \<open>Properties\<close>

text \<open>
  C17. When the caller's functions do not throw, \<open>digraphF\<close> ends, for any relation, with fuel for as many calls as there
  are nodes; every node has its own value and nothing but values of nodes that can be reached from it; and it has all of
  these if the relation has no cycle of two or more nodes.
\<close>

theorem digraphF_exact:
  fixes v :: "'x \<Rightarrow> 'v set"
  assumes "\<forall>x \<in> set xs. fp x = Inr (v x)" "\<forall>x \<in> set xs. \<forall>y \<in> set xs. r x y = Inr (R x y)" "length xs \<le> k"
  shows "\<exists>f. digraphF k xs fp r = Inr f \<and>
    (\<forall>x \<in> set xs. \<exists>w. f x = Some w \<and> v x \<subseteq> w \<and> w \<subseteq> reachVals (dgEdges xs R) v x \<and>
      (acyclic (dgEdges xs R - Id) \<longrightarrow> w = reachVals (dgEdges xs R) v x))"
  using digraphF_total [OF assms] .

text \<open>A chain of two nodes.\<close>

lemma digraphF_exact_witness:
  "\<exists>f. digraphF 2 [0::nat, 1] (\<lambda>x. Inr {x} :: unit + nat set) (\<lambda>x y. Inr (x < y)) = Inr f \<and> f 0 = Some {0, 1}"
proof -
  let ?E = "dgEdges [0::nat, 1] (<)"
  have E: "?E = {(0, 1)}" by (auto simp: dgEdges_def)
  have ac: "acyclic (?E - Id)" by (rule acyclic_subset [OF wf_acyclic [OF wf_less_than]]) (unfold E, auto)
  have "{(0::nat, 1)}\<^sup>* `` {0} = {0, 1}"
    by (auto elim: rtranclE converse_rtranclE)
  then have "reachVals ?E (\<lambda>x. {x}) 0 = {0, 1}" unfolding reachVals_def E by auto
  then show ?thesis
    using digraphF_exact [of "[0::nat, 1]" "\<lambda>x. Inr {x} :: unit + nat set" "\<lambda>x. {x}" "\<lambda>x y. Inr (x < y)" "(<)" 2] ac by auto
qed

text \<open>
  With a cycle the traversal misses values. It never lowers the index of a node to that of a successor on the stack,
  so the nodes of a cycle are never joined: of the nodes 0, 1 and 2, with edges between 0 and 1 both ways and one from 0
  to 2, the value of 2 does not reach 1.
\<close>

theorem digraphF_misses:
  "\<exists>f. digraphF 3 [0::nat, 1, 2] (\<lambda>x. Inr {x} :: unit + nat set) (\<lambda>x y. Inr ((x, y) \<in> {(0, 1), (1, 0), (0, 2)})) = Inr f \<and>
     f 0 = Some {0, 1, 2} \<and> f 1 = Some {0, 1} \<and>
     2 \<in> reachVals (dgEdges [0::nat, 1, 2] (\<lambda>x y. (x, y) \<in> {(0, 1), (1, 0), (0, 2)})) (\<lambda>x. {x}) 1"
proof -
  have "2 \<in> reachVals (dgEdges [0::nat, 1, 2] (\<lambda>x y. (x, y) \<in> {(0, 1), (1, 0), (0, 2)})) (\<lambda>x. {x}) 1"
    by (simp add: reachVals_def) (rule converse_rtrancl_into_rtrancl [of _ 0], simp add: dgEdges_def,
        rule r_into_rtrancl, simp add: dgEdges_def)
  then show ?thesis
    by (auto simp: digraphF_def numeral_3_eq_3 dgVisit_def dgAdd_def dgAt_def freshIdxs_def Let_def)
qed

end
