(* ===== verification/LALR.thy ===== *)
theory LALR
  imports LR_States Digraph
begin

text \<open>
  The LALR(1) parser of \<^verbatim>\<open>lib/hobbes/parse/lalr.C\<close>: the relations on the transitions of the LR(0) parser, the
  lookahead sets computed from them with \<open>digraphF\<close>, and the table of actions with its conflicts.

  A transition is a state with a symbol that has rules. The maps of the code that are indexed by transitions and items
  are lists in their order or functions.
\<close>

section \<open>Transitions\<close>

type_synonym 't transition = "nat \<times> 't"

definition transitionSet :: "'t parserdef \<Rightarrow> 't transition set" where
  "transitionSet p =
     set (concat (map (\<lambda>n. map (\<lambda>x. (n, fst x)) (filter (\<lambda>x. hasRule (pdG p) (fst x)) (pdTrans p ! n)))
       [0..<length (pdTrans p)]))"

definition transitionsOf :: "'t parserdef \<Rightarrow> nat \<Rightarrow> 't lalr_error + 't state_transitions" where
  "transitionsOf p q = (if q < length (pdTrans p) then Inr (pdTrans p ! q) else Inl NoTransitions)"

definition followsT :: "'t state_transitions \<Rightarrow> 't \<Rightarrow> bool" where
  "followsT st t \<longleftrightarrow> map_of st t \<noteq> None"

definition followT :: "'t state_transitions \<Rightarrow> 't \<Rightarrow> 't lalr_error + nat" where
  "followT st t = (case map_of st t of None \<Rightarrow> Inl NoSuchSymbol | Some n \<Rightarrow> Inr n)"

definition followQ :: "'t parserdef \<Rightarrow> nat \<Rightarrow> 't \<Rightarrow> 't lalr_error + nat" where
  "followQ p q t = bindE (transitionsOf p q) (\<lambda>st. followT st t)"

definition followWord :: "'t parserdef \<Rightarrow> nat \<Rightarrow> 't list \<Rightarrow> 't lalr_error + nat" where
  "followWord p s ts = foldE (\<lambda>t r. followQ p r t) ts s"

section \<open>Relations on transitions\<close>

fun lookWord :: "'t parserdef \<Rightarrow> nat \<Rightarrow> 't list \<Rightarrow> nat \<Rightarrow> 't lalr_error + bool" where
  "lookWord p q [] s = Inr (s = q)"
| "lookWord p q (t # w) s =
     bindE (transitionsOf p s) (\<lambda>st.
       if followsT st t then bindE (followT st t) (lookWord p q w) else Inr False)"

definition lookback :: "'t parserdef \<Rightarrow> nat \<Rightarrow> 't \<Rightarrow> 't rule \<Rightarrow> 't transition \<Rightarrow> 't lalr_error + bool" where
  "lookback p q r w t = (if snd t \<noteq> r then Inr False else lookWord p q w (fst t))"

definition derivesNullP :: "'t parserdef \<Rightarrow> 't \<Rightarrow> bool" where
  "derivesNullP p s \<longleftrightarrow> s \<in> pdNullable p"

primrec endingAtI :: "'t parserdef \<Rightarrow> 't rule \<Rightarrow> 't \<Rightarrow> nat \<Rightarrow> 't list list" where
  "endingAtI p w a 0 = []"
| "endingAtI p w a (Suc i) =
     (if w ! i = a then [take i w] else []) @ (if \<not> derivesNullP p (w ! i) then [] else endingAtI p w a i)"

definition endingAt :: "'t parserdef \<Rightarrow> 't rule \<Rightarrow> 't \<Rightarrow> 't list list" where
  "endingAt p w a = endingAtI p w a (length w)"

text \<open>A loop that returns at the first element that passes.\<close>

fun anyE :: "('a \<Rightarrow> 'e + bool) \<Rightarrow> 'a list \<Rightarrow> 'e + bool" where
  "anyE f [] = Inr False"
| "anyE f (x # xs) = bindE (f x) (\<lambda>b. if b then Inr True else anyE f xs)"

definition includesT :: "'t parserdef \<Rightarrow> 't transition \<Rightarrow> 't transition \<Rightarrow> 't lalr_error + bool" where
  "includesT p x y =
     bindE (aggRules (pdG p) (snd y)) (\<lambda>rs.
       anyE (\<lambda>r. anyE (\<lambda>pfx. mapR (\<lambda>q. q = fst x) (followWord p (fst y) pfx)) (endingAt p r (snd x))) rs)"

definition readsT :: "'t parserdef \<Rightarrow> 't transition \<Rightarrow> 't transition \<Rightarrow> 't lalr_error + bool" where
  "readsT p x y = mapR (\<lambda>q. q = fst y \<and> derivesNullP p (snd y)) (followQ p (fst x) (snd x))"

definition directReads :: "'t::linorder parserdef \<Rightarrow> 't transition \<Rightarrow> 't lalr_error + 't set" where
  "directReads p x = bindE (followQ p (fst x) (snd x)) (\<lambda>q. bindE (parserStateDef p q) (nextPrim (pdG p)))"

section \<open>Lookahead\<close>

text \<open>The fuel of both traversals is the number of transitions.\<close>

definition mapLookup :: "('k \<Rightarrow> 'v option) \<Rightarrow> 'k \<Rightarrow> 't lalr_error + 'v" where
  "mapLookup m k = (case m k of None \<Rightarrow> Inl MapUndefined | Some v \<Rightarrow> Inr v)"

definition ReadsT :: "'t::linorder parserdef \<Rightarrow> 't transition list \<Rightarrow> 't lalr_error option + ('t transition \<Rightarrow> 't set option)" where
  "ReadsT p ts = digraphF (length ts) ts (directReads p) (readsT p)"

definition FollowT :: "'t::linorder parserdef \<Rightarrow> 't transition list \<Rightarrow> 't lalr_error option + ('t transition \<Rightarrow> 't set option)" where
  "FollowT p ts = bindE (ReadsT p ts) (\<lambda>r. digraphF (length ts) ts (mapLookup r) (includesT p))"

text \<open>
  \<open>apply\<close> adds the lookahead of the transitions that a completed item looks back to. It goes over the states in the order
  of their item sets; the model has them by number, which only matters for the order of insertions into separate sets.
\<close>

definition applyItem :: "'t parserdef \<Rightarrow> ('t transition \<times> 't set) list \<Rightarrow> nat \<times> 't item \<Rightarrow> (nat \<Rightarrow> 't item \<Rightarrow> 't set) \<Rightarrow>
    't lalr_error + (nat \<Rightarrow> 't item \<Rightarrow> 't set)" where
  "applyItem p tla ni la =
     (case ni of (n, i) \<Rightarrow>
        bindE (nextI (pdG p) i) (\<lambda>t.
          if t = None then
            bindE (itemRule (pdG p) i) (\<lambda>w.
              foldE (\<lambda>x la. mapR (\<lambda>b. if b then la(n := (la n)(i := la n i \<union> snd x)) else la)
                              (lookback p n (fst i) w (fst x))) tla la)
          else Inr la))"

definition applyLa :: "('t::linorder transition \<times> 't set) list \<Rightarrow> 't parserdef \<Rightarrow> 't lalr_error + 't parserdef" where
  "applyLa tla p =
     mapR (\<lambda>la. p\<lparr>pdLa := la\<rparr>)
       (foldE (applyItem p tla)
          (concat (map (\<lambda>n. map (Pair n) (sorted_list_of_set (pdStates p ! n))) [0..<length (pdStates p)])) (pdLa p))"

definition laParser :: "'t::linorder parserdef \<Rightarrow> 't lalr_error option + 't parserdef" where
  "laParser p =
     (let ts = sorted_list_of_set (transitionSet p) in
      bindE (FollowT p ts) (\<lambda>f.
        case applyLa (map (\<lambda>x. (x, the (f x))) ts) p of Inl e \<Rightarrow> Inl (Some e) | Inr q \<Rightarrow> Inr q))"

definition lalr1parser :: "'t::linorder \<Rightarrow> 't \<Rightarrow> 't grammar \<Rightarrow> 't \<Rightarrow> ('t lalr_error option + 't parserdef) option" where
  "lalr1parser boot eof g s =
     map_option (\<lambda>r. case r of Inl e \<Rightarrow> Inl (Some e) | Inr p \<Rightarrow> laParser p) (lr0parser boot eof g s)"

section \<open>The table\<close>

datatype 't action = GoTo nat | Shift nat | Reduce 't nat nat | Accept

type_synonym 't lrstate = "'t \<Rightarrow> 't action option"

datatype pref = AssocNon | AssocLeft | AssocRight

record prec =
  precLevel :: nat
  precAsc :: pref

text \<open>The last symbol of the rule that has no rules. The fields of an action that is no reduction have no rule to read.\<close>

definition reduceOpTerminal :: "'t parserdef \<Rightarrow> 't action \<Rightarrow> 't lalr_error + 't option" where
  "reduceOpTerminal p a =
     (case a of
        Reduce x r n \<Rightarrow> bindE (aggRules (pdG p) x) (\<lambda>rs. mapR (\<lambda>w. find (\<lambda>e. \<not> hasRule (pdG p) e) (rev w)) (nthRule rs r))
      | _ \<Rightarrow> Inl NotReduce)"

definition shiftInstead :: "'t parserdef \<Rightarrow> ('t \<Rightarrow> prec option) \<Rightarrow> 't \<Rightarrow> 't action \<Rightarrow> 't lalr_error + bool" where
  "shiftInstead p px t a =
     bindE (reduceOpTerminal p a) (\<lambda>u.
       case u of
         None \<Rightarrow> Inl (AmbiguityConflict ShiftReduce t)
       | Some u \<Rightarrow>
           (case (px t, px u) of
              (Some tp, Some up) \<Rightarrow>
                if precLevel tp < precLevel up then Inr False
                else if precLevel up < precLevel tp then Inr True
                else if precAsc tp = precAsc up \<and> precAsc tp \<noteq> AssocNon then
                  (if precAsc tp = AssocLeft then Inr False else Inr True)
                else Inl (AmbiguityConflict ShiftReduce t)
            | _ \<Rightarrow> Inl (AmbiguityConflict ShiftReduce t)))"

definition isReduce :: "'t action \<Rightarrow> bool" where
  "isReduce a = (case a of Reduce _ _ _ \<Rightarrow> True | _ \<Rightarrow> False)"

definition isShift :: "'t action \<Rightarrow> bool" where
  "isShift a = (case a of Shift _ \<Rightarrow> True | _ \<Rightarrow> False)"

definition addAction :: "'t parserdef \<Rightarrow> ('t \<Rightarrow> prec option) \<Rightarrow> 't \<Rightarrow> 't action \<Rightarrow> 't lrstate \<Rightarrow> 't lalr_error + 't lrstate" where
  "addAction p px t a s =
     (case s t of
        None \<Rightarrow> Inr (s(t \<mapsto> a))
      | Some b \<Rightarrow>
          if b = a then Inr s
          else if isReduce a \<and> isReduce b then Inl (AmbiguityConflict ReduceReduce t)
          else if isShift a then mapR (\<lambda>sh. if sh then s(t \<mapsto> a) else s) (shiftInstead p px t b)
          else mapR (\<lambda>sh. if \<not> sh then s(t \<mapsto> a) else s) (shiftInstead p px t a))"

text \<open>\<open>std::map::insert\<close> leaves an entry that is there.\<close>

definition insertAction :: "'t \<Rightarrow> 't action \<Rightarrow> 't lrstate \<Rightarrow> 't lrstate" where
  "insertAction t a s = (if s t = None then s(t \<mapsto> a) else s)"

definition addAccept :: "'t \<Rightarrow> 't lrstate \<Rightarrow> 't lrstate" where
  "addAccept t s = insertAction t Accept s"

definition addGoto :: "'t \<Rightarrow> nat \<Rightarrow> 't lrstate \<Rightarrow> 't lrstate" where
  "addGoto t n s = insertAction t (GoTo n) s"

definition addReduce :: "'t::linorder parserdef \<Rightarrow> ('t \<Rightarrow> prec option) \<Rightarrow> 't set \<Rightarrow> 't item \<Rightarrow> 't lrstate \<Rightarrow> 't lalr_error + 't lrstate" where
  "addReduce p px ts i s =
     (case i of (agg, len, rule) \<Rightarrow> foldE (\<lambda>t. addAction p px t (Reduce agg rule len)) (sorted_list_of_set ts) s)"

definition addShift :: "'t parserdef \<Rightarrow> ('t \<Rightarrow> prec option) \<Rightarrow> 't \<Rightarrow> nat \<Rightarrow> 't lrstate \<Rightarrow> 't lalr_error + 't lrstate" where
  "addShift p px t n s = addAction p px t (Shift n) s"

definition rowStep :: "'t::linorder parserdef \<Rightarrow> 't \<Rightarrow> ('t \<Rightarrow> prec option) \<Rightarrow> nat \<Rightarrow> 't item \<Rightarrow> 't lrstate \<Rightarrow> 't lalr_error + 't lrstate" where
  "rowStep p eof px n i s =
     bindE (nextI (pdG p) i) (\<lambda>t.
       case t of
         None \<Rightarrow> addReduce p px (pdLa p n i) i s
       | Some t \<Rightarrow>
           if hasRule (pdG p) t then mapR (\<lambda>m. addGoto t m s) (followQ p n t)
           else if t = eof then Inr (addAccept t s)
           else bindE (followQ p n t) (\<lambda>m. addShift p px t m s))"

definition lrRow :: "'t::linorder parserdef \<Rightarrow> 't \<Rightarrow> ('t \<Rightarrow> prec option) \<Rightarrow> nat \<Rightarrow> 't lalr_error + 't lrstate" where
  "lrRow p eof px n =
     (case foldE (rowStep p eof px n) (sorted_list_of_set (pdStates p ! n)) Map.empty of
        Inl (AmbiguityConflict c t) \<Rightarrow> Inl (CompileTableFailure c (pdStates p ! n) t)
      | r \<Rightarrow> r)"

text \<open>The rows are filled in the order of the item sets.\<close>

definition lalrTable :: "'t::linorder parserdef \<Rightarrow> 't \<Rightarrow> ('t \<Rightarrow> prec option) \<Rightarrow> 't lalr_error + 't lrstate list" where
  "lalrTable p eof px =
     foldE (\<lambda>n r. mapR (\<lambda>row. r[n := row]) (lrRow p eof px n))
       (sort_key (\<lambda>n. sorted_list_of_set (pdStates p ! n)) [0..<length (pdStates p)])
       (replicate (length (pdStates p)) Map.empty)"

definition lalrTableOf :: "'t::linorder \<Rightarrow> 't \<Rightarrow> 't grammar \<Rightarrow> 't \<Rightarrow> ('t \<Rightarrow> prec option) \<Rightarrow>
    ('t lalr_error option + 't lrstate list) option" where
  "lalrTableOf boot eof g s px =
     map_option (\<lambda>r. bindE r (\<lambda>p. case lalrTable p eof px of Inl e \<Rightarrow> Inl (Some e) | Inr t \<Rightarrow> Inr t)) (lalr1parser boot eof g s)"

section \<open>Transitions of the LR(0) parser\<close>

definition lrOK :: "'t::linorder \<Rightarrow> 't itemset \<Rightarrow> 't parserdef \<Rightarrow> bool" where
  "lrOK eof start p \<longleftrightarrow> lrInv eof start (length (pdStates p)) p \<and> validSet (pdG p) start \<and> (\<exists>X. start = closed (pdG p) X)"

lemma lrOK_trans:
  assumes "lrOK eof start p" "n < length (pdStates p)"
  shows "transitionsOf p n = Inr (pdTrans p ! n)" "validSet (pdG p) (pdStates p ! n)"
    "transOK (pdG p) eof (pdStates p) (pdStates p ! n) (pdTrans p ! n)"
  using assms by (auto simp: lrOK_def lrInv_def transitionsOf_def)

lemma lrOK_followT:
  assumes "lrOK eof start p" "n < length (pdStates p)" "t \<in> nexts (pdG p) (pdStates p ! n)" "t \<noteq> eof"
  shows "\<exists>m. map_of (pdTrans p ! n) t = Some m"
proof -
  have "finite (nexts (pdG p) (pdStates p ! n))" using lrOK_trans(2) [OF assms(1,2)] by (simp add: nexts_finite validSet_finite)
  then have "t \<in> set (map fst (pdTrans p ! n))" using lrOK_trans(3) [OF assms(1,2)] assms(3,4) by (simp add: transOK_def)
  then show ?thesis by (metis map_of_eq_None_iff not_Some_eq set_map)
qed

lemma lrOK_to:
  assumes "lrOK eof start p" "n < length (pdStates p)" "map_of (pdTrans p ! n) t = Some m"
  shows "m < length (pdStates p)" "pdStates p ! m = gotoSet (pdG p) (pdStates p ! n) t"
    "t \<in> nexts (pdG p) (pdStates p ! n)" "t \<noteq> eof"
proof -
  have T: "map fst (pdTrans p ! n) = filter (\<lambda>v. v \<noteq> eof) (sorted_list_of_set (nexts (pdG p) (pdStates p ! n)))"
      "\<forall>(v, m) \<in> set (pdTrans p ! n). m < length (pdStates p) \<and> pdStates p ! m = gotoSet (pdG p) (pdStates p ! n) v"
    using lrOK_trans(3) [OF assms(1,2)] by (simp_all add: transOK_def)
  have "finite (nexts (pdG p) (pdStates p ! n))" using lrOK_trans(2) [OF assms(1,2)] by (simp add: nexts_finite validSet_finite)
  moreover have e: "(t, m) \<in> set (pdTrans p ! n)" using assms(3) by (rule map_of_SomeD)
  then have "t \<in> set (map fst (pdTrans p ! n))" by force
  ultimately show "t \<in> nexts (pdG p) (pdStates p ! n)" "t \<noteq> eof" unfolding T(1) by simp_all
  show "m < length (pdStates p)" "pdStates p ! m = gotoSet (pdG p) (pdStates p ! n) t" using T(2) e by auto
qed

lemma transitions_iff:
  assumes "lrOK eof start p"
  shows "(n, t) \<in> transitionSet p \<longleftrightarrow> n < length (pdStates p) \<and> hasRule (pdG p) t \<and> map_of (pdTrans p ! n) t \<noteq> None"
proof -
  have "(n, t) \<in> transitionSet p \<longleftrightarrow> n < length (pdTrans p) \<and> hasRule (pdG p) t \<and> t \<in> fst ` set (pdTrans p ! n)"
    unfolding transitionSet_def set_concat set_map set_filter by auto
  moreover have "length (pdTrans p) = length (pdStates p)" using assms by (simp add: lrOK_def lrInv_def)
  ultimately show ?thesis by (simp add: map_of_eq_None_iff)
qed

lemma lrOK_follow:
  assumes "lrOK eof start p" "x \<in> transitionSet p"
  shows "\<exists>m. followQ p (fst x) (snd x) = Inr m \<and> m < length (pdStates p)"
proof -
  obtain n t where x: "x = (n, t)" by (cases x)
  then obtain m where "n < length (pdStates p)" "map_of (pdTrans p ! n) t = Some m"
    using assms transitions_iff [OF assms(1), of n t] by auto
  then show ?thesis using lrOK_to(1) [OF assms(1)] lrOK_trans(1) [OF assms(1)] x by (simp add: followQ_def followT_def)
qed

text \<open>A state holds the start of every rule of its next symbols.\<close>

lemma lrOK_closed:
  assumes "lrOK eof start p" "n < length (pdStates p)" "t \<in> nexts (pdG p) (pdStates p ! n)" "map_of (pdG p) t = Some rs" "r < length rs"
  shows "(t, 0, r) \<in> pdStates p ! n"
proof -
  have "pdStates p ! n \<in> lrStates (pdG p) eof start" using assms(1,2) unfolding lrOK_def lrInv_def using nth_mem by blast
  then have "\<exists>X. pdStates p ! n = closed (pdG p) X"
    using assms(1) by (cases rule: lrStates.cases) (auto simp: lrOK_def gotoSet_def)
  then show ?thesis using assms(3-5) closed.rule by (fastforce simp: nexts_def)
qed

text \<open>From a state with a transition on a symbol, the rules of the symbol can be followed, up to the end of the file.\<close>

lemma lrOK_word:
  assumes I: "lrOK eof start p" and x: "(n, t) \<in> transitionSet p" and r: "map_of (pdG p) t = Some rs" "r < length rs"
    and "i \<le> length (rs ! r)" "eof \<notin> set (take i (rs ! r))"
  shows "\<exists>m. followWord p n (take i (rs ! r)) = Inr m \<and> m < length (pdStates p) \<and> (t, i, r) \<in> pdStates p ! m"
  using assms(5-)
proof (induction i)
  case 0
  obtain m where n: "n < length (pdStates p)" "map_of (pdTrans p ! n) t = Some m" using x transitions_iff [OF I] by auto
  then have "(t, 0, r) \<in> pdStates p ! n" using lrOK_closed [OF I n(1) lrOK_to(3) [OF I n] r] by simp
  then show ?case using n(1) by (simp add: followWord_def)
next
  case (Suc i)
  let ?w = "rs ! r"
  have i: "i < length ?w" and tk: "take (Suc i) ?w = take i ?w @ [?w ! i]" using Suc.prems(1) by (simp_all add: take_Suc_conv_app_nth)
  obtain m where m: "followWord p n (take i ?w) = Inr m" "m < length (pdStates p)" "(t, i, r) \<in> pdStates p ! m"
    using Suc i tk by auto
  have nx: "itemNext (pdG p) (t, i, r) = Some (?w ! i)" using r(1) i by (simp add: itemNext_def ruleOf_def ruleElement_def)
  then have "?w ! i \<in> nexts (pdG p) (pdStates p ! m)" "?w ! i \<noteq> eof" using m(3) Suc.prems(2) tk by (auto simp: nexts_def)
  then obtain k where k: "map_of (pdTrans p ! m) (?w ! i) = Some k" using lrOK_followT [OF I m(2)] by blast
  have "(t, Suc i, r) \<in> advance (pdG p) (pdStates p ! m) (?w ! i)" using m(3) nx by (force simp: advance_def succItem_def)
  then have "(t, Suc i, r) \<in> pdStates p ! k" using lrOK_to(2) [OF I m(2) k] by (simp add: gotoSet_def closed.base)
  moreover have "followQ p m (?w ! i) = Inr k" using k lrOK_trans(1) [OF I m(2)] by (simp add: followQ_def followT_def)
  moreover have "foldE f (us @ [u]) s = bindE (foldE f us s) (f u)" for f :: "'a \<Rightarrow> nat \<Rightarrow> 'a lalr_error + nat" and us u s
    by (induction us arbitrary: s) (auto simp: bindE_def split: sum.splits)
  ultimately show ?case using m(1) lrOK_to(1) [OF I m(2) k] by (simp add: followWord_def tk)
qed

section \<open>The relations are defined\<close>

text \<open>The end of the file can only be the last symbol of a rule.\<close>

definition eofLast :: "'t grammar \<Rightarrow> 't \<Rightarrow> bool" where
  "eofLast g eof \<longleftrightarrow> (\<forall>(t, rs) \<in> set g. \<forall>r \<in> set rs. eof \<notin> set (butlast r))"

lemma eofLast_take: "eofLast g eof \<Longrightarrow> map_of g t = Some rs \<Longrightarrow> r \<in> set rs \<Longrightarrow> i < length r \<Longrightarrow> eof \<notin> set (take i r)"
proof -
  assume "eofLast g eof" "map_of g t = Some rs" "r \<in> set rs" "i < length r"
  then have "eof \<notin> set (butlast r)" "take i r = take i (butlast r)"
    by (auto simp: eofLast_def take_butlast dest: map_of_SomeD)
  then show ?thesis by (metis in_set_takeD)
qed

lemma endingAt_takes: "pfx \<in> set (endingAt p w a) \<Longrightarrow> \<exists>i < length w. pfx = take i w"
proof -
  have "pfx \<in> set (endingAtI p w a i) \<Longrightarrow> \<exists>j < i. pfx = take j w" for i
    by (induction i) (auto split: if_splits intro: less_SucI)
  then show "pfx \<in> set (endingAt p w a) \<Longrightarrow> \<exists>i < length w. pfx = take i w" by (auto simp: endingAt_def)
qed

lemma anyE_defined: "\<forall>x \<in> set xs. \<exists>b. f x = Inr b \<Longrightarrow> \<exists>b. anyE f xs = Inr b"
  by (induction xs) auto

lemma directReads_defined:
  assumes "lrOK eof start p" "x \<in> transitionSet p"
  shows "\<exists>v. directReads p x = Inr v"
proof -
  obtain m where "followQ p (fst x) (snd x) = Inr m" "m < length (pdStates p)" using lrOK_follow [OF assms] by blast
  then show ?thesis using lrOK_trans(2) [OF assms(1)] by (simp add: directReads_def parserStateDef_def nextPrim_valid)
qed

lemma readsT_defined:
  assumes "lrOK eof start p" "x \<in> transitionSet p"
  shows "\<exists>b. readsT p x y = Inr b"
  using lrOK_follow [OF assms] by (auto simp: readsT_def)

lemma includesT_defined:
  assumes I: "lrOK eof start p" and e: "eofLast (pdG p) eof" and y: "y \<in> transitionSet p"
  shows "\<exists>b. includesT p x y = Inr b"
proof -
  obtain n t where yy: "y = (n, t)" by (cases y)
  then obtain rs where rs: "map_of (pdG p) t = Some rs" using y transitions_iff [OF I] by (auto simp: hasRule_def)
  have "\<exists>b. mapR (\<lambda>q. q = fst x) (followWord p n pfx) = Inr b" if r: "r \<in> set rs" and p: "pfx \<in> set (endingAt p r (snd x))" for r pfx
  proof -
    obtain k where k: "k < length rs" "r = rs ! k" using r by (auto simp: in_set_conv_nth)
    obtain i where i: "i < length r" "pfx = take i r" using endingAt_takes [OF p] by blast
    then obtain m where "followWord p n pfx = Inr m"
      using lrOK_word [OF I y [unfolded yy] rs k(1), of i] eofLast_take [OF e rs r] k(2) by auto
    then show ?thesis by simp
  qed
  then have "\<exists>b. anyE (\<lambda>r. anyE (\<lambda>pfx. mapR (\<lambda>q. q = fst x) (followWord p n pfx)) (endingAt p r (snd x))) rs = Inr b"
    by (intro anyE_defined ballI) blast
  then show ?thesis using rs yy by (simp add: includesT_def aggRules_def)
qed

lemma lookWord_defined:
  "lrOK eof start p \<Longrightarrow> n < length (pdStates p) \<Longrightarrow> \<exists>b. lookWord p q w n = Inr b"
proof (induction w arbitrary: n)
  case (Cons t w)
  have t: "transitionsOf p n = Inr (pdTrans p ! n)" using lrOK_trans(1) [OF Cons.prems] .
  show ?case
  proof (cases "map_of (pdTrans p ! n) t")
    case None
    then have "lookWord p q (t # w) n = Inr False" using t by (simp add: followsT_def)
    then show ?thesis by blast
  next
    case (Some m)
    then show ?thesis using t Cons.IH [OF Cons.prems(1) lrOK_to(1) [OF Cons.prems Some]] by (simp add: followsT_def followT_def)
  qed
qed simp

lemma lookback_defined:
  assumes "lrOK eof start p" "x \<in> transitionSet p"
  shows "\<exists>b. lookback p q r w x = Inr b"
proof -
  obtain n t where x: "x = (n, t)" by (cases x)
  then have "n < length (pdStates p)" using assms(2) transitions_iff [OF assms(1), of n t] by simp
  then obtain b where "lookWord p q w n = Inr b" using lookWord_defined [OF assms(1)] by blast
  then have "lookback p q r w x = Inr (t = r \<and> b)" by (simp add: lookback_def x)
  then show ?thesis by blast
qed

section \<open>Lookahead sets\<close>

definition readRel :: "'t parserdef \<Rightarrow> ('t transition \<times> 't transition) set" where
  "readRel p = {(x, y). x \<in> transitionSet p \<and> y \<in> transitionSet p \<and> readsT p x y = Inr True}"

definition inclRel :: "'t parserdef \<Rightarrow> ('t transition \<times> 't transition) set" where
  "inclRel p = {(x, y). x \<in> transitionSet p \<and> y \<in> transitionSet p \<and> includesT p x y = Inr True}"

definition directSet :: "'t::linorder parserdef \<Rightarrow> 't transition \<Rightarrow> 't set" where
  "directSet p x = (case directReads p x of Inl e \<Rightarrow> {} | Inr v \<Rightarrow> v)"

definition followSpec :: "'t::linorder parserdef \<Rightarrow> 't transition \<Rightarrow> 't set" where
  "followSpec p = reachVals (inclRel p) (reachVals (readRel p) (directSet p))"

definition lookaheadSpec :: "'t::linorder parserdef \<Rightarrow> nat \<Rightarrow> 't item \<Rightarrow> 't set" where
  "lookaheadSpec p n i = (\<Union>x \<in> {x \<in> transitionSet p. lookback p n (fst i) (ruleOf (pdG p) i) x = Inr True}. followSpec p x)"

lemma reachVals_mono: "\<forall>y. v y \<subseteq> w y \<Longrightarrow> reachVals E v x \<subseteq> reachVals E w x"
  unfolding reachVals_def by blast

lemma reachVals_edges:
  assumes "\<forall>y \<in> X. v y = w y" "x \<in> X" "E \<subseteq> X \<times> X"
  shows "reachVals E v x = reachVals E w x"
proof -
  have "y \<in> X" if "(x, y) \<in> E\<^sup>*" for y
    using that assms(2,3) by (induction rule: rtrancl_induct) auto
  then show ?thesis using assms(1) by (auto simp: reachVals_def)
qed

lemma finite_transitions [simp]: "finite (transitionSet p)"
  by (simp add: transitionSet_def)

lemma FollowT_values:
  assumes I: "lrOK eof start p" and e: "eofLast (pdG p) eof" and ts: "ts = sorted_list_of_set (transitionSet p)"
  shows "\<exists>f. FollowT p ts = Inr f \<and> (\<forall>x \<in> transitionSet p. \<exists>w. f x = Some w \<and> w \<subseteq> followSpec p x \<and>
    (acyclic (readRel p - Id) \<longrightarrow> acyclic (inclRel p - Id) \<longrightarrow> w = followSpec p x))"
proof -
  have T: "set ts = transitionSet p" by (simp add: ts)
  let ?R = "\<lambda>x y. readsT p x y = Inr True" and ?I = "\<lambda>x y. includesT p x y = Inr True"
  have E: "dgEdges ts ?R = readRel p" "dgEdges ts ?I = inclRel p" by (auto simp: dgEdges_def readRel_def inclRel_def T)
  have "\<forall>x \<in> set ts. directReads p x = Inr (directSet p x)"
    using directReads_defined [OF I] T by (fastforce simp: directSet_def)
  moreover have "\<forall>x \<in> set ts. \<forall>y \<in> set ts. readsT p x y = Inr (?R x y)"
    using readsT_defined [OF I] T by (metis (full_types))
  ultimately obtain r where r: "ReadsT p ts = Inr r" "\<forall>x \<in> transitionSet p. \<exists>w. r x = Some w \<and> directSet p x \<subseteq> w \<and>
      w \<subseteq> reachVals (readRel p) (directSet p) x \<and> (acyclic (readRel p - Id) \<longrightarrow> w = reachVals (readRel p) (directSet p) x)"
    using digraphF_total [of ts "directReads p" "directSet p" "readsT p" ?R "length ts"] T E(1) unfolding ReadsT_def by auto
  let ?v = "\<lambda>x. if x \<in> transitionSet p then the (r x) else {}"
  have "\<forall>x \<in> set ts. mapLookup r x = Inr (?v x)" using r(2) T by (force simp: mapLookup_def)
  moreover have "\<forall>x \<in> set ts. \<forall>y \<in> set ts. includesT p x y = Inr (?I x y)"
    using includesT_defined [OF I e] T by (metis (full_types))
  ultimately obtain f where f: "digraphF (length ts) ts (mapLookup r) (includesT p) = Inr f" "\<forall>x \<in> transitionSet p. \<exists>w. f x = Some w \<and> ?v x \<subseteq> w \<and>
      w \<subseteq> reachVals (inclRel p) ?v x \<and> (acyclic (inclRel p - Id) \<longrightarrow> w = reachVals (inclRel p) ?v x)"
    using digraphF_total [of ts "mapLookup r" ?v "includesT p" ?I "length ts"] T E(2) by auto
  have "?v y \<subseteq> reachVals (readRel p) (directSet p) y" for y
  proof (cases "y \<in> transitionSet p")
    case True
    then obtain w where "r y = Some w" "w \<subseteq> reachVals (readRel p) (directSet p) y" using r(2) by blast
    then show ?thesis using True by simp
  qed simp
  then have sub: "reachVals (inclRel p) ?v x \<subseteq> followSpec p x" for x
    unfolding followSpec_def by (intro reachVals_mono allI)
  have eq: "reachVals (inclRel p) ?v x = followSpec p x" if ac: "acyclic (readRel p - Id)" and x: "x \<in> transitionSet p" for x
    unfolding followSpec_def
  proof (rule reachVals_edges [OF _ x])
    show "\<forall>y \<in> transitionSet p. ?v y = reachVals (readRel p) (directSet p) y" using r(2) ac by fastforce
  qed (auto simp: inclRel_def)
  have "\<exists>w. f x = Some w \<and> w \<subseteq> followSpec p x \<and>
      (acyclic (readRel p - Id) \<longrightarrow> acyclic (inclRel p - Id) \<longrightarrow> w = followSpec p x)" if x: "x \<in> transitionSet p" for x
  proof -
    obtain w where w: "f x = Some w" "w \<subseteq> reachVals (inclRel p) ?v x"
        "acyclic (inclRel p - Id) \<longrightarrow> w = reachVals (inclRel p) ?v x" using f(2) x by blast
    then show ?thesis using sub [of x] eq [OF _ x] by auto
  qed
  then show ?thesis using f(1) r(1) by (simp add: FollowT_def)
qed

text \<open>What \<open>apply\<close> adds to an item.\<close>

abbreviation looked :: "'t parserdef \<Rightarrow> ('t transition \<times> 't set) list \<Rightarrow> nat \<Rightarrow> 't item \<Rightarrow> 't set" where
  "looked p tla n i \<equiv> \<Union> (snd ` {x \<in> set tla. lookback p n (fst i) (ruleOf (pdG p) i) (fst x) = Inr True})"

lemma applyItem_fold:
  assumes "\<forall>x \<in> set tla. \<exists>b. lookback p n r w (fst x) = Inr b"
  shows "foldE (\<lambda>x la. mapR (\<lambda>b. if b then la(n := (la n)(i := la n i \<union> snd x)) else la) (lookback p n r w (fst x))) tla la =
    Inr (la(n := (la n)(i := la n i \<union> \<Union> (snd ` {x \<in> set tla. lookback p n r w (fst x) = Inr True}))))"
  using assms
proof (induction tla arbitrary: la)
  case (Cons x tla)
  obtain b where b: "lookback p n r w (fst x) = Inr b" using Cons.prems by auto
  show ?case
  proof (cases b)
    case True
    then have "{y \<in> set (x # tla). lookback p n r w (fst y) = Inr True} =
        insert x {y \<in> set tla. lookback p n r w (fst y) = Inr True}" using b by auto
    then show ?thesis using b True Cons by (simp add: Un_assoc fun_eq_iff)
  next
    case False
    then have "{y \<in> set (x # tla). lookback p n r w (fst y) = Inr True} = {y \<in> set tla. lookback p n r w (fst y) = Inr True}"
      using b by auto
    then show ?thesis using b False Cons by simp
  qed
qed simp

lemma itemRule_valid: "validItem g i \<Longrightarrow> itemRule g i = Inr (ruleOf g i)"
  by (auto simp: validItem_def itemRule_def aggRules_def nthRule_def ruleOf_def)

lemma applyItem_valid:
  assumes "validItem (pdG p) i" "\<forall>x \<in> set tla. \<forall>r w. \<exists>b. lookback p n r w (fst x) = Inr b"
  shows "applyItem p tla (n, i) la =
    Inr (if itemNext (pdG p) i = None then la(n := (la n)(i := la n i \<union> looked p tla n i)) else la)"
  using assms applyItem_fold [of tla p n "fst i" "ruleOf (pdG p) i" i la]
  by (simp add: applyItem_def nextI_valid itemRule_valid)

lemma applyFold_valid:
  assumes "\<forall>(n, i) \<in> set nis. validItem (pdG p) i" "\<forall>n. \<forall>x \<in> set tla. \<forall>r w. \<exists>b. lookback p n r w (fst x) = Inr b"
  shows "\<exists>la'. foldE (applyItem p tla) nis la = Inr la' \<and>
    (\<forall>n i. la' n i = la n i \<union> (if (n, i) \<in> set nis \<and> itemNext (pdG p) i = None then looked p tla n i else {}))"
  using assms(1)
proof (induction nis arbitrary: la)
  case (Cons ni nis)
  obtain n i where ni: "ni = (n, i)" by (cases ni)
  let ?la = "if itemNext (pdG p) i = None then la(n := (la n)(i := la n i \<union> looked p tla n i)) else la"
  have "applyItem p tla ni la = Inr ?la" using applyItem_valid [of p i tla n la] Cons.prems assms(2) ni by simp
  moreover obtain la' where "foldE (applyItem p tla) nis ?la = Inr la'"
      "\<forall>m j. la' m j = ?la m j \<union> (if (m, j) \<in> set nis \<and> itemNext (pdG p) j = None then looked p tla m j else {})"
    using Cons.IH [of ?la] Cons.prems by auto
  ultimately show ?case using ni by auto
qed simp

text \<open>The relations do not depend on the lookahead sets.\<close>

lemma pdLa_transitionsOf [simp]: "transitionsOf (p\<lparr>pdLa := la\<rparr>) = transitionsOf p"
  by (simp add: fun_eq_iff transitionsOf_def cong: if_cong)

lemma pdLa_follow [simp]: "followQ (p\<lparr>pdLa := la\<rparr>) = followQ p" "followWord (p\<lparr>pdLa := la\<rparr>) = followWord p"
  by (simp_all add: fun_eq_iff followWord_def followQ_def)

lemma pdLa_derivesNull [simp]: "derivesNullP (p\<lparr>pdLa := la\<rparr>) = derivesNullP p"
  by (simp add: fun_eq_iff derivesNullP_def)

lemma pdLa_relations [simp]: "transitionSet (p\<lparr>pdLa := la\<rparr>) = transitionSet p"
    "directReads (p\<lparr>pdLa := la\<rparr>) = directReads p" "readsT (p\<lparr>pdLa := la\<rparr>) = readsT p"
  by (simp_all add: fun_eq_iff transitionSet_def directReads_def parserStateDef_def readsT_def cong: if_cong)

lemma pdLa_endingAt [simp]: "endingAt (p\<lparr>pdLa := la\<rparr>) w a = endingAt p w a"
proof -
  have "endingAtI (p\<lparr>pdLa := la\<rparr>) w a i = endingAtI p w a i" for i by (induction i) simp_all
  then show ?thesis by (simp add: endingAt_def)
qed

lemma pdLa_lookback [simp]: "lookback (p\<lparr>pdLa := la\<rparr>) n r w x = lookback p n r w x"
proof -
  have "lookWord (p\<lparr>pdLa := la\<rparr>) n w = lookWord p n w" by (induction w) (rule ext, simp cong: if_cong)+
  then show ?thesis by (simp add: lookback_def)
qed

lemma pdLa_lookahead [simp]: "lookaheadSpec (p\<lparr>pdLa := la\<rparr>) n i = lookaheadSpec p n i"
    "readRel (p\<lparr>pdLa := la\<rparr>) = readRel p" "inclRel (p\<lparr>pdLa := la\<rparr>) = inclRel p"
  by (simp_all add: lookaheadSpec_def followSpec_def readRel_def inclRel_def includesT_def directSet_def [abs_def])

lemma Union_pairs: "\<Union> (snd ` {y \<in> (\<lambda>x. (x, h x)) ` A. P (fst y)}) = (\<Union>x \<in> {x \<in> A. P x}. h x)"
  by auto

lemma laParser_run:
  assumes I: "lrOK eof start p" and e: "eofLast (pdG p) eof" and la: "pdLa p = (\<lambda>_ _. {})"
  shows "\<exists>la. laParser p = Inr (p\<lparr>pdLa := la\<rparr>) \<and>
    (\<forall>n < length (pdStates p). \<forall>i \<in> pdStates p ! n. itemNext (pdG p) i = None \<longrightarrow>
      la n i \<subseteq> lookaheadSpec p n i \<and>
      (acyclic (readRel p - Id) \<longrightarrow> acyclic (inclRel p - Id) \<longrightarrow> la n i = lookaheadSpec p n i))"
proof -
  let ?ts = "sorted_list_of_set (transitionSet p)"
  let ?nis = "concat (map (\<lambda>n. map (Pair n) (sorted_list_of_set (pdStates p ! n))) [0..<length (pdStates p)])"
  obtain f where f: "FollowT p ?ts = Inr f" "\<forall>x \<in> transitionSet p. \<exists>w. f x = Some w \<and> w \<subseteq> followSpec p x \<and>
      (acyclic (readRel p - Id) \<longrightarrow> acyclic (inclRel p - Id) \<longrightarrow> w = followSpec p x)"
    using FollowT_values [OF I e refl] by blast
  let ?tla = "map (\<lambda>x. (x, the (f x))) ?ts"
  have fin: "finite (pdStates p ! n)" "validSet (pdG p) (pdStates p ! n)" if "n < length (pdStates p)" for n
    using lrOK_trans(2) [OF I that] validSet_finite by auto
  have nis: "(n, i) \<in> set ?nis \<longleftrightarrow> n < length (pdStates p) \<and> i \<in> pdStates p ! n" for n i
    using fin(1) by auto
  have "\<forall>(n, i) \<in> set ?nis. validItem (pdG p) i" using nis fin(2) unfolding validSet_def by blast
  moreover have "\<forall>n. \<forall>x \<in> set ?tla. \<forall>r w. \<exists>b. lookback p n r w (fst x) = Inr b"
    using lookback_defined [OF I] by auto
  ultimately obtain la where l: "foldE (applyItem p ?tla) ?nis (pdLa p) = Inr la"
      "\<forall>n i. la n i = pdLa p n i \<union> (if (n, i) \<in> set ?nis \<and> itemNext (pdG p) i = None then looked p ?tla n i else {})"
    using applyFold_valid [of ?nis p ?tla "pdLa p"] by blast
  have "laParser p = Inr (p\<lparr>pdLa := la\<rparr>)" using f(1) l(1) by (simp add: laParser_def applyLa_def)
  moreover have "la n i \<subseteq> lookaheadSpec p n i \<and>
      (acyclic (readRel p - Id) \<longrightarrow> acyclic (inclRel p - Id) \<longrightarrow> la n i = lookaheadSpec p n i)"
    if "n < length (pdStates p)" "i \<in> pdStates p ! n" "itemNext (pdG p) i = None" for n i
  proof -
    let ?B = "{x \<in> transitionSet p. lookback p n (fst i) (ruleOf (pdG p) i) x = Inr True}"
    have "la n i = looked p ?tla n i" using l(2) [rule_format, of n i] la that nis [of n i] by simp
    then have eq: "la n i = (\<Union>x \<in> ?B. the (f x))"
      using Union_pairs [of "the \<circ> f" "transitionSet p" "\<lambda>x. lookback p n (fst i) (ruleOf (pdG p) i) x = Inr True"] by simp
    have "the (f x) \<subseteq> followSpec p x" if "x \<in> ?B" for x using f(2) that by force
    then have "la n i \<subseteq> lookaheadSpec p n i" unfolding eq lookaheadSpec_def by (intro UN_mono subset_refl)
    moreover have "la n i = lookaheadSpec p n i" if "acyclic (readRel p - Id)" "acyclic (inclRel p - Id)"
    proof -
      have "the (f x) = followSpec p x" if "x \<in> ?B" for x using f(2) that \<open>acyclic (readRel p - Id)\<close> \<open>acyclic (inclRel p - Id)\<close> by force
      then show ?thesis unfolding eq lookaheadSpec_def by (intro SUP_cong refl)
    qed
    ultimately show ?thesis by blast
  qed
  ultimately show ?thesis by blast
qed

lemma lr0parser_OK:
  "\<exists>p. lr0parser boot eof g s = Some (Inr p) \<and> pdG p = bootGrammar boot eof g s \<and> pdLa p = (\<lambda>_ _. {}) \<and>
    lrOK eof (startSet (pdG p) boot) p"
proof -
  obtain p where p: "lr0parser boot eof g s = Some (Inr p)" "pdG p = bootGrammar boot eof g s" "pdLa p = (\<lambda>_ _. {})"
      "lrInv eof (startSet (pdG p) boot) (length (pdStates p)) p"
    using lr0parser_run [of boot eof g s] by auto
  have "validSet (pdG p) (startSet (pdG p) boot)" unfolding startSet_def
    by (rule closed_valid) (auto simp: validSet_def)
  then show ?thesis using p by (auto simp: lrOK_def startSet_def)
qed

lemma eofLast_boot:
  assumes "eof \<notin> set (concat (concat (map snd g)))" "s \<noteq> eof"
  shows "eofLast (bootGrammar boot eof g s) eof"
  using assms by (fastforce simp: eofLast_def bootGrammar_def addRule_def dest: in_set_butlastD)

section \<open>What the table holds\<close>

fun actionOK :: "'t parserdef \<Rightarrow> 't \<Rightarrow> nat \<Rightarrow> 't \<Rightarrow> 't action \<Rightarrow> bool" where
  "actionOK p eof n t (GoTo m) \<longleftrightarrow> hasRule (pdG p) t \<and> followQ p n t = Inr m"
| "actionOK p eof n t (Shift m) \<longleftrightarrow> \<not> hasRule (pdG p) t \<and> t \<noteq> eof \<and> followQ p n t = Inr m"
| "actionOK p eof n t (Reduce a r len) \<longleftrightarrow>
     (a, len, r) \<in> pdStates p ! n \<and> itemNext (pdG p) (a, len, r) = None \<and> t \<in> pdLa p n (a, len, r)"
| "actionOK p eof n t Accept \<longleftrightarrow> \<not> hasRule (pdG p) t \<and> t = eof \<and> t \<in> nexts (pdG p) (pdStates p ! n)"

definition itemSymbols :: "'t parserdef \<Rightarrow> nat \<Rightarrow> 't item \<Rightarrow> 't set" where
  "itemSymbols p n i = (case itemNext (pdG p) i of None \<Rightarrow> pdLa p n i | Some t \<Rightarrow> {t})"

definition rowOK :: "'t parserdef \<Rightarrow> 't \<Rightarrow> nat \<Rightarrow> 't lrstate \<Rightarrow> bool" where
  "rowOK p eof n s \<longleftrightarrow> (\<forall>t a. s t = Some a \<longrightarrow> actionOK p eof n t a)"

lemma rowOK_upd: "rowOK p eof n s \<Longrightarrow> actionOK p eof n t a \<Longrightarrow> rowOK p eof n (s(t \<mapsto> a))"
  by (simp add: rowOK_def)

lemma addAction_ok:
  assumes "addAction p px t a s = Inr s'" "rowOK p eof n s" "actionOK p eof n t a"
  shows "rowOK p eof n s' \<and> dom s' = insert t (dom s)"
  using assms rowOK_upd [OF assms(2,3)]
  by (auto simp: addAction_def mapR_Inr_iff split: option.splits if_splits)

lemma insertAction_ok:
  "rowOK p eof n s \<Longrightarrow> actionOK p eof n t a \<Longrightarrow> rowOK p eof n (insertAction t a s) \<and> dom (insertAction t a s) = insert t (dom s)"
  using rowOK_upd by (auto simp: insertAction_def)

lemma addReduce_ok:
  assumes "addReduce p px ts i s = Inr s'" "rowOK p eof n s" "i \<in> pdStates p ! n" "itemNext (pdG p) i = None"
    "finite ts" "ts \<subseteq> pdLa p n i"
  shows "rowOK p eof n s' \<and> dom s' = ts \<union> dom s"
proof -
  obtain agg len r where i: "i = (agg, len, r)" by (cases i)
  have "foldE (\<lambda>t. addAction p px t (Reduce agg r len)) xs s = Inr s' \<Longrightarrow> rowOK p eof n s \<Longrightarrow> set xs \<subseteq> ts \<Longrightarrow>
      rowOK p eof n s' \<and> dom s' = set xs \<union> dom s" for xs s
  proof (induction xs arbitrary: s)
    case (Cons x xs)
    obtain s1 where s1: "addAction p px x (Reduce agg r len) s = Inr s1" "foldE (\<lambda>t. addAction p px t (Reduce agg r len)) xs s1 = Inr s'"
      using Cons.prems(1) by (auto simp: bindE_Inr_iff)
    have "actionOK p eof n x (Reduce agg r len)" using assms(3,4,6) Cons.prems(3) i by auto
    from addAction_ok [OF s1(1) Cons.prems(2) this] show ?case using Cons.IH [OF s1(2)] Cons.prems(3) by auto
  qed simp
  from this [of "sorted_list_of_set ts" s] show ?thesis using assms i by (simp add: addReduce_def)
qed

lemma nextI_Inr: "nextI g i = Inr t \<Longrightarrow> t = itemNext g i"
  by (auto simp: nextI_def itemRule_def aggRules_def nthRule_def itemNext_def ruleOf_def mapR_Inr_iff bindE_Inr_iff
      split: option.splits prod.splits if_splits)

lemma rowStep_ok:
  assumes r: "rowStep p eof px n i s = Inr s'" and s: "rowOK p eof n s" and i: "i \<in> pdStates p ! n" and la: "itemNext (pdG p) i = None \<longrightarrow> finite (pdLa p n i)"
  shows "rowOK p eof n s' \<and> dom s' = itemSymbols p n i \<union> dom s"
proof (cases "itemNext (pdG p) i")
  case None
  then have "addReduce p px (pdLa p n i) i s = Inr s'"
    using r by (auto simp: rowStep_def bindE_Inr_iff dest!: nextI_Inr)
  then show ?thesis using addReduce_ok [OF _ s i None] la None by (simp add: itemSymbols_def)
next
  case (Some t)
  obtain t' where "nextI (pdG p) i = Inr t'" using r by (auto simp: rowStep_def bindE_Inr_iff)
  then have nx: "nextI (pdG p) i = Inr (Some t)" using nextI_Inr Some by metis
  have t: "t \<in> nexts (pdG p) (pdStates p ! n)" using Some i by (auto simp: nexts_def)
  consider (goto) m where "hasRule (pdG p) t" "followQ p n t = Inr m" "s' = addGoto t m s"
    | (acc) "\<not> hasRule (pdG p) t" "t = eof" "s' = addAccept t s"
    | (shift) m where "\<not> hasRule (pdG p) t" "t \<noteq> eof" "followQ p n t = Inr m" "addShift p px t m s = Inr s'"
    using r nx by (auto simp: rowStep_def bindE_Inr_iff mapR_Inr_iff split: if_splits)
  then show ?thesis
  proof cases
    case goto
    then show ?thesis using insertAction_ok [OF s, of t "GoTo m"] Some by (simp add: addGoto_def itemSymbols_def)
  next
    case acc
    then show ?thesis using insertAction_ok [OF s, of t Accept] Some t by (simp add: addAccept_def itemSymbols_def)
  next
    case shift
    then show ?thesis using addAction_ok [of p px t "Shift m" s s' eof n] s Some by (simp add: addShift_def itemSymbols_def)
  qed
qed

lemma lrRow_ok:
  assumes r: "lrRow p eof px n = Inr s" and fin: "finite (pdStates p ! n)" "\<forall>i \<in> pdStates p ! n. itemNext (pdG p) i = None \<longrightarrow> finite (pdLa p n i)"
  shows "rowOK p eof n s \<and> dom s = (\<Union>i \<in> pdStates p ! n. itemSymbols p n i)"
proof -
  have "foldE (rowStep p eof px n) xs s0 = Inr s \<Longrightarrow> rowOK p eof n s0 \<Longrightarrow> set xs \<subseteq> pdStates p ! n \<Longrightarrow>
      rowOK p eof n s \<and> dom s = (\<Union>i \<in> set xs. itemSymbols p n i) \<union> dom s0" for xs s0
  proof (induction xs arbitrary: s0)
    case (Cons i xs)
    obtain s1 where s1: "rowStep p eof px n i s0 = Inr s1" "foldE (rowStep p eof px n) xs s1 = Inr s"
      using Cons.prems(1) by (auto simp: bindE_Inr_iff)
    then show ?case using rowStep_ok [OF s1(1) Cons.prems(2)] Cons.IH [OF s1(2)] Cons.prems(3) fin(2) by auto
  qed simp
  moreover have "foldE (rowStep p eof px n) (sorted_list_of_set (pdStates p ! n)) Map.empty = Inr s"
    using r by (auto simp: lrRow_def split: sum.splits lalr_error.splits)
  ultimately show ?thesis using fin(1) by (simp add: rowOK_def)
qed

lemma lalrTable_rows:
  assumes "lalrTable p eof px = Inr r"
  shows "length r = length (pdStates p)" "\<forall>n < length (pdStates p). lrRow p eof px n = Inr (r ! n)"
proof -
  let ?N = "length (pdStates p)"
  have *: "foldE (\<lambda>n r. mapR (\<lambda>row. r[n := row]) (lrRow p eof px n)) ns r0 = Inr r \<Longrightarrow> distinct ns \<Longrightarrow> set ns \<subseteq> {..<?N} \<Longrightarrow>
      length r0 = ?N \<Longrightarrow> length r = ?N \<and> (\<forall>n \<in> set ns. lrRow p eof px n = Inr (r ! n)) \<and> (\<forall>n < ?N. n \<notin> set ns \<longrightarrow> r ! n = r0 ! n)"
    for ns r0
  proof (induction ns arbitrary: r0)
    case (Cons n ns)
    obtain row where row: "lrRow p eof px n = Inr row"
        "foldE (\<lambda>n r. mapR (\<lambda>row. r[n := row]) (lrRow p eof px n)) ns (r0[n := row]) = Inr r"
      using Cons.prems(1) by (auto simp: bindE_Inr_iff mapR_Inr_iff)
    have "length r = ?N \<and> (\<forall>n \<in> set ns. lrRow p eof px n = Inr (r ! n)) \<and> (\<forall>k < ?N. k \<notin> set ns \<longrightarrow> r ! k = r0[n := row] ! k)"
      using Cons.IH [OF row(2)] Cons.prems(2-4) by simp
    then show ?case using row(1) Cons.prems(2-4) by auto
  qed simp
  from * [OF assms [unfolded lalrTable_def]] have "length r = ?N \<and> (\<forall>n < ?N. lrRow p eof px n = Inr (r ! n))"
    by (simp add: atLeast0LessThan)
  then show "length r = length (pdStates p)" "\<forall>n < length (pdStates p). lrRow p eof px n = Inr (r ! n)" by simp_all
qed

lemma finite_reachVals:
  assumes "finite E" "\<forall>y. finite (v y)"
  shows "finite (reachVals E v x)"
proof -
  have "E\<^sup>* `` {x} \<subseteq> insert x (Range E)" by (auto elim: rtranclE)
  then have "finite (E\<^sup>* `` {x})" using assms(1) by (meson finite_Range finite_insert finite_subset)
  then show ?thesis using assms(2) by (simp add: reachVals_def)
qed

lemma finite_lookahead:
  assumes "lrOK eof start p"
  shows "finite (lookaheadSpec p n i)"
proof -
  have "finite (directSet p x)" for x
  proof (cases "directReads p x")
    case (Inr v)
    then obtain m where "m < length (pdStates p)" "nextPrim (pdG p) (pdStates p ! m) = Inr v"
      by (auto simp: directReads_def bindE_Inr_iff parserStateDef_def split: if_splits)
    then have "v \<subseteq> nexts (pdG p) (pdStates p ! m)" "finite (nexts (pdG p) (pdStates p ! m))"
      using lrOK_trans(2) [OF assms, of m] by (auto simp: nextPrim_valid nexts_finite validSet_finite)
    then show ?thesis using Inr finite_subset by (auto simp: directSet_def)
  qed (simp add: directSet_def)
  moreover have "finite (readRel p)" "finite (inclRel p)"
    by (rule finite_subset [of _ "transitionSet p \<times> transitionSet p"]; auto simp: readRel_def inclRel_def)+
  ultimately have "finite (followSpec p x)" for x by (simp add: followSpec_def finite_reachVals)
  then show ?thesis by (simp add: lookaheadSpec_def)
qed

section \<open>Properties\<close>

text \<open>
  C5. If the rules of a grammar do not use the end of the file, \<open>lalr1parser\<close> ends without an error, and the lookahead
  of a completed item has only symbols that the relations give: what can be read after a transition that the item looks
  back to, or after one that this transition includes, in any number of steps. When neither relation has a cycle of two or
  more transitions it has all of these.
\<close>

theorem lalr1_lookahead:
  assumes "eof \<notin> set (concat (concat (map snd g)))" "s \<noteq> eof"
  shows "\<exists>p. lalr1parser boot eof g s = Some (Inr p) \<and>
    (\<forall>n < length (pdStates p). \<forall>i \<in> pdStates p ! n. itemNext (pdG p) i = None \<longrightarrow>
      pdLa p n i \<subseteq> lookaheadSpec p n i \<and>
      (acyclic (readRel p - Id) \<longrightarrow> acyclic (inclRel p - Id) \<longrightarrow> pdLa p n i = lookaheadSpec p n i))"
proof -
  obtain p where p: "lr0parser boot eof g s = Some (Inr p)" "pdG p = bootGrammar boot eof g s" "pdLa p = (\<lambda>_ _. {})"
      "lrOK eof (startSet (pdG p) boot) p"
    using lr0parser_OK [of boot eof g s] by blast
  then obtain la where "laParser p = Inr (p\<lparr>pdLa := la\<rparr>)"
      "\<forall>n < length (pdStates p). \<forall>i \<in> pdStates p ! n. itemNext (pdG p) i = None \<longrightarrow>
      la n i \<subseteq> lookaheadSpec p n i \<and>
      (acyclic (readRel p - Id) \<longrightarrow> acyclic (inclRel p - Id) \<longrightarrow> la n i = lookaheadSpec p n i)"
    using laParser_run [OF p(4)] eofLast_boot [OF assms] by force
  then show ?thesis using p(1) by (intro exI [of _ "p\<lparr>pdLa := la\<rparr>"]) (simp add: lalr1parser_def)
qed

text \<open>The grammar with the one rule from 5 to a terminal 7.\<close>

lemma lalr1_lookahead_witness: "\<exists>p. lalr1parser 9 0 [(5::nat, [[7]])] 5 = Some (Inr p)"
  using lalr1_lookahead [of 0 "[(5::nat, [[7]])]" 5 9] by auto

text \<open>
  C12. When the generator makes a table, it has a row for each state, and a row has an entry exactly for the symbols of its
  items: the next symbol of an item, or the lookahead of a completed one. Each entry is right for its state: a goto or a
  shift goes where the LR(0) parser goes, an accept is at the end of the file where an item reads it, a reduction is of a
  completed item of the state on a symbol of its lookahead.
\<close>

theorem lalrTable_exact:
  assumes "eof \<notin> set (concat (concat (map snd g)))" "s \<noteq> eof" "lalrTableOf boot eof g s px = Some (Inr r)"
  shows "\<exists>p. lalr1parser boot eof g s = Some (Inr p) \<and> length r = length (pdStates p) \<and>
    (\<forall>n < length (pdStates p). (\<forall>t a. (r ! n) t = Some a \<longrightarrow> actionOK p eof n t a) \<and>
      dom (r ! n) = (\<Union>i \<in> pdStates p ! n. itemSymbols p n i))"
proof -
  obtain p0 where p0: "lr0parser boot eof g s = Some (Inr p0)" "pdG p0 = bootGrammar boot eof g s" "pdLa p0 = (\<lambda>_ _. {})"
      "lrOK eof (startSet (pdG p0) boot) p0"
    using lr0parser_OK [of boot eof g s] by blast
  then obtain la where la: "laParser p0 = Inr (p0\<lparr>pdLa := la\<rparr>)"
      "\<forall>n < length (pdStates p0). \<forall>i \<in> pdStates p0 ! n. itemNext (pdG p0) i = None \<longrightarrow> la n i \<subseteq> lookaheadSpec p0 n i"
    using laParser_run [OF p0(4)] eofLast_boot [OF assms(1,2)] by force
  let ?p = "p0\<lparr>pdLa := la\<rparr>"
  have p: "lalr1parser boot eof g s = Some (Inr ?p)" using p0(1) la(1) by (simp add: lalr1parser_def)
  then have t: "lalrTable ?p eof px = Inr r" using assms(3) by (auto simp: lalrTableOf_def split: sum.splits)
  have "rowOK ?p eof n (r ! n) \<and> dom (r ! n) = (\<Union>i \<in> pdStates ?p ! n. itemSymbols ?p n i)" if n: "n < length (pdStates p0)" for n
  proof (rule lrRow_ok)
    show "lrRow ?p eof px n = Inr (r ! n)" using lalrTable_rows(2) [OF t] n by simp
    show "finite (pdStates ?p ! n)" using lrOK_trans(2) [OF p0(4) n] validSet_finite by simp
    show "\<forall>i \<in> pdStates ?p ! n. itemNext (pdG ?p) i = None \<longrightarrow> finite (pdLa ?p n i)"
      using la(2) n finite_lookahead [OF p0(4)] finite_subset by fastforce
  qed
  then show ?thesis using p lalrTable_rows(1) [OF t] by (intro exI [of _ ?p]) (simp add: rowOK_def)
qed

text \<open>The table of the grammar with the one rule from 5 to a terminal 7.\<close>

lemma lalrTable_exact_witness:
  "\<exists>r p. lalrTableOf 9 0 [(5::nat, [[7]])] 5 Map.empty = Some (Inr r) \<and> lalr1parser 9 0 [(5::nat, [[7]])] 5 = Some (Inr p) \<and>
     length r = length (pdStates p)"
proof -
  have "map_option (mapR length) (lalrTableOf 9 0 [(5::nat, [[7]])] 5 Map.empty) = Some (Inr 3)" by code_simp
  then obtain r where r: "lalrTableOf 9 0 [(5::nat, [[7]])] 5 Map.empty = Some (Inr r)" by (auto simp: mapR_Inr_iff)
  then show ?thesis using lalrTable_exact [of 0 "[(5::nat, [[7]])]" 5 9 Map.empty r] by auto
qed

text \<open>The language of a grammar.\<close>

inductive yields :: "'t grammar \<Rightarrow> 't list \<Rightarrow> 't list \<Rightarrow> bool" for g where
  nil: "yields g [] []"
| token: "map_of g t = None \<Longrightarrow> yields g ss w \<Longrightarrow> yields g (t # ss) (t # w)"
| expand: "map_of g t = Some rs \<Longrightarrow> r \<in> set rs \<Longrightarrow> yields g (r @ ss) w \<Longrightarrow> yields g (t # ss) w"

definition cyclicGrammar :: "nat grammar" where
  "cyclicGrammar = [(10, [[13], [4, 13, 6]]), (11, [[12]]), (12, [[13], [3]]), (13, [[1, 11]])]"

lemma both_results:
  "map_option (mapR f) r = Some (Inr a) \<Longrightarrow> map_option (mapR h) r = Some (Inr b) \<Longrightarrow>
    map_option (mapR (\<lambda>p. (f p, h p))) r = Some (Inr (a, b))"
  by (auto simp: mapR_def split: sum.splits)

lemma cyclic_shifts:
  "map_option (mapR (\<lambda>p. map (\<lambda>(n, t). map_of (pdTrans p ! n) t) [(0, 4), (2, 1), (1, 3)]))
     (lalr1parser 9 0 cyclicGrammar 10) = Some (Inr [Some 2, Some 1, Some 5])"
  by code_simp

lemma cyclic_row:
  "map_option (mapR (\<lambda>p. mapR (\<lambda>r. [r 6, r 0]) (lrRow p 0 Map.empty 5))) (lalr1parser 9 0 cyclicGrammar 10) =
     Some (Inr (Inr [None, Some (Reduce 12 1 1)]))"
  by code_simp

text \<open>
  C39. Lookaheads are missed. In this grammar the symbols 11, 12 and 13 end in one another, the transitions on them
  include one another in a cycle, and \<open>digraphF\<close> does not join it: 4 1 3 6 is in the language, the parser shifts 4 1 3
  from state 0 to state 5, and the row of this state in the table reduces 3 on the end but has no entry for 6.
\<close>

theorem lalr1_misses:
  "yields cyclicGrammar [10] [4, 1, 3, 6] \<and>
   map_option (mapR (\<lambda>p. (map (\<lambda>(n, t). map_of (pdTrans p ! n) t) [(0, 4), (2, 1), (1, 3)],
         mapR (\<lambda>r. [r 6, r 0]) (lrRow p 0 Map.empty 5))))
       (lalr1parser 9 0 cyclicGrammar 10) =
     Some (Inr ([Some 2, Some 1, Some 5], Inr [None, Some (Reduce 12 1 1)]))"
proof
  have g: "map_of cyclicGrammar 10 = Some [[13], [4, 13, 6]]" "map_of cyclicGrammar 11 = Some [[12]]"
      "map_of cyclicGrammar 12 = Some [[13], [3]]" "map_of cyclicGrammar 13 = Some [[1, 11]]"
    by (simp_all add: cyclicGrammar_def)
  have t: "map_of cyclicGrammar n = None" if "n < 10" for n using that by (simp add: cyclicGrammar_def)
  have "yields cyclicGrammar [3, 6] [3, 6]" by (intro yields.token t yields.nil) simp_all
  then have "yields cyclicGrammar [12, 6] [3, 6]" using yields.expand [OF g(3), of "[3]" "[6]"] by simp
  then have "yields cyclicGrammar [11, 6] [3, 6]" using yields.expand [OF g(2), of "[12]" "[6]"] by simp
  then have "yields cyclicGrammar [1, 11, 6] [1, 3, 6]" by (intro yields.token t) simp_all
  then have "yields cyclicGrammar [13, 6] [1, 3, 6]" using yields.expand [OF g(4), of "[1, 11]" "[6]"] by simp
  then have "yields cyclicGrammar [4, 13, 6] [4, 1, 3, 6]" by (intro yields.token t) simp_all
  then show "yields cyclicGrammar [10] [4, 1, 3, 6]" using yields.expand [OF g(1), of "[4, 13, 6]" "[]"] by simp
  show "map_option (mapR (\<lambda>p. (map (\<lambda>(n, t). map_of (pdTrans p ! n) t) [(0, 4), (2, 1), (1, 3)],
         mapR (\<lambda>r. [r 6, r 0]) (lrRow p 0 Map.empty 5))))
       (lalr1parser 9 0 cyclicGrammar 10) =
     Some (Inr ([Some 2, Some 1, Some 5], Inr [None, Some (Reduce 12 1 1)]))"
    by (rule both_results [OF cyclic_shifts cyclic_row])
qed

end
