(* ===== verification/Spec2Isabelle.thy ===== *)
theory Spec2Isabelle
  imports Region Regex_Correct Type_Codec Prefix_Tree Unifier_Correct Expr_Show Expr_Codec Macro_Expand LALR
begin

text \<open>
  A model of the compiler and the run time library of hobbes, and proofs about it.

  \<^bold>\<open>The program.\<close> hobbes compiles a small functional language with structural types to machine
  code. Text is parsed with LALR(1) tables, generated by \<^verbatim>\<open>lib/hobbes/parse\<close>; the syntax trees of
  \<^verbatim>\<open>lib/hobbes/lang/expr.C\<close> are typed by unification (\<^verbatim>\<open>lib/hobbes/lang/typeinf.C\<close>) of the types of
  \<^verbatim>\<open>lib/hobbes/lang/type.C\<close> in a type environment with constraints; patterns, among them regular
  expressions, are compiled to automata (\<^verbatim>\<open>lib/hobbes/lang/pat\<close>); the result runs on values laid out as
  their types say, in memory taken from regions (\<^verbatim>\<open>lib/hobbes/util/region.C\<close>). Types and expressions are
  sent to other processes and stored in files with binary codecs.

  \<^bold>\<open>Conventions.\<close> Every definition is a translation of the code named in its theory. Machine integers
  are words (\<open>u8\<close>, \<open>u32\<close>, \<open>u64\<close>) where they can wrap, numbers where the code only counts. A thrown exception is \<open>Inl\<close> of an error of the component (\<^theory_text>\<open>Results\<close> has the operators); an
  operation without a result, because a loop does not end or C++ gives it no meaning, is \<open>None\<close>. State is
  passed and returned. Sets and maps of the C++ library that are iterated over are lists in their order.
  Shared pointers that are compared by what they point to are values; hash consing of types is left out.

  \<^bold>\<open>Memory.\<close> \<^theory_text>\<open>Region\<close> models \<open>region\<close> (\<^verbatim>\<open>util/region.H\<close>, \<^verbatim>\<open>util/region.C\<close>): a record with the lists of used
  and free pages and the base of each page, and \<open>malloc\<close>, \<open>clear\<close>, \<open>reset\<close> and the page operations on it. A
  reachability relation closes the initial region under the operations; its invariant gives that blocks
  handed out do not overlap. The theorem on wrapped sizes shows where the check of \<open>malloc\<close> fails.

  \<^bold>\<open>Regular expressions.\<close> \<^theory_text>\<open>Range_Map\<close> models \<open>range_map\<close> (\<^verbatim>\<open>util/rmap.H\<close>) at byte keys: sorted lists of
  disjoint ranges, with insertion by the cases of how two ranges lie, merging, splitting and compaction. The
  locales \<open>range_dict\<close> and \<open>range_accum\<close> state it as a map from keys. \<^theory_text>\<open>Bit_Table\<close> has the table of flags
  of \<^verbatim>\<open>util/array.H\<close>. On these, along \<^verbatim>\<open>lang/pat/regex.C\<close>: \<^theory_text>\<open>Regex_Syntax\<close> the parser (a recursive descent
  whose progress lemmas give its termination), \<^theory_text>\<open>Regex_NFA\<close> the automaton with epsilon edges and its
  language (locale \<open>labelling\<close>, interpreted for the language and for a measure of progress), \<^theory_text>\<open>Regex_DFA\<close>
  closure and subset construction, \<^theory_text>\<open>Regex_Match\<close> merging, minimisation and the generated code,
  \<^theory_text>\<open>Regex_Equiv\<close> and \<^theory_text>\<open>Regex_Correct\<close> their correctness up to \<open>makeRegexFn\<close>: the function made for a list of
  regular expressions reports exactly those that match. It needs that no star is around an expression that
  can be empty; a theorem shows that matches are lost otherwise.

  \<^bold>\<open>Types.\<close> \<^theory_text>\<open>Types\<close> has the datatype of \<open>MonoType\<close> with its classes as constructors; \<^theory_text>\<open>Type_Layout\<close>
  sizes, alignment, the layout of records, substitution and the type functors; \<^theory_text>\<open>Type_Vars\<close> constraints,
  qualified and polymorphic types, instantiation and generalisation; \<^theory_text>\<open>Type_Codec\<close> the binary form;
  \<^theory_text>\<open>Type_Show\<close> the text; \<^theory_text>\<open>Type_Env\<close> the scopes of \<open>TEnv\<close> and the set of unqualifiers, with the contract of
  a type predicate as a locale that the set of predicates satisfies when its members do (a sublocale).
  \<^theory_text>\<open>Layout_Props\<close> and \<^theory_text>\<open>Type_Subst\<close> hold the proofs: members of resolved records are aligned and disjoint,
  padding realises the layout, generalised types instantiate back.

  \<^bold>\<open>Unification.\<close> \<^theory_text>\<open>Union_Find\<close> models \<open>equivalence_mappings\<close> (\<^verbatim>\<open>util/unionfind.H\<close>), with the locale
  \<open>equality_store\<close> as its contract; \<^theory_text>\<open>Unifier\<close> is \<open>MonoTypeUnifier\<close> on it, and \<^theory_text>\<open>Unifier_Correct\<close> proves that
  unification from scratch computes exactly the solutions of the equations, for types without binders.
  The code has no occurs check and can run for ever, so the model has fuel, and the theorem is about runs that return;
  that two infinite types make it run for ever is a lemma.

  \<^bold>\<open>Expressions.\<close> \<^theory_text>\<open>Expr\<close> has the syntax trees, what constructors refuse, copying and equality; \<^theory_text>\<open>Expr_Show\<close>
  the two printed forms; \<^theory_text>\<open>Expr_Ops\<close> substitution, free variables and the passes over annotations;
  \<^theory_text>\<open>Expr_Laws\<close> their properties; \<^theory_text>\<open>Expr_Codec\<close> the binary form, with the contract it needs of the codec of
  qualified types as a locale, interpreted with the one of \<^theory_text>\<open>Type_Codec\<close>; \<^theory_text>\<open>Macro_Expand\<close>
  the expansion of the short circuit operators (\<^verbatim>\<open>lang/macroexpand.C\<close>) and what it does to the free variables.

  \<^bold>\<open>Parser generator.\<close> Along \<^verbatim>\<open>parse/lalr.C\<close>: \<^theory_text>\<open>Grammar\<close> analyses grammars, \<^theory_text>\<open>LR_States\<close> has items,
  closure and the states of the LR(0) parser, \<^theory_text>\<open>Digraph\<close> the traversal \<open>digraphF\<close> of \<^verbatim>\<open>parse/lalr.H\<close>, \<^theory_text>\<open>LALR\<close> the
  relations on transitions, the lookahead sets, conflicts and the table. The LR(0) parser is exact for every
  grammar; lookaheads are sound, and complete when the relations have no cycles; with a cycle they are not,
  since the traversal leaves out a step of the algorithm, and a theorem has a sentence that is rejected.

  \<^bold>\<open>Strings.\<close> \<^theory_text>\<open>Strings\<close> has the functions of \<^verbatim>\<open>util/str.C\<close>, \<^theory_text>\<open>Prefix_Tree\<close> the search for similar words
  that makes the suggestions in error messages, against the edit distance.

  \<^bold>\<open>Bounds and fuel.\<close> Loops end by measures where they do: the items or symbols not yet in a set
  (closure, null symbols), the length of the input (parsers, decoders), the ranges left. Fuel stands for the depth of a
  recursion over a graph: \<open>symbolsUsed\<close> has two more than the number of symbols, \<open>digraphF\<close> the number of nodes,
  \<open>find\<close> in an equivalence mapping the number of its nodes, and each is proved to be enough (the last for mappings
  that the operations build). The search for equivalent states (\<open>while_option\<close>) and \<open>lr0loop\<close> (a partial function) could
  fail to end in the model and are proved to end: pairs of states are only struck out, and the states of a grammar are
  subsets of its items. The transitive substitution and unification take fuel because the code can really run for ever
  on what it is given; \<open>None\<close> or \<open>NoReturn\<close> for all fuel is that behaviour.

  \<^bold>\<open>Not modelled.\<close> Lexical annotations (positions in files), the printing of automata and tables, and
  output to streams. The comprehension, formatting and time constant helpers at the end of \<^verbatim>\<open>expr.C\<close>. Constraint sets
  and inference for expressions (\<^verbatim>\<open>typeinf.C\<close> beyond the unifier), the built in predicates of \<^verbatim>\<open>lang/preds\<close> except
  type classes, closure conversion, modules, and the compilation of pattern matrices
  (\<^verbatim>\<open>lang/pat/dfa.C\<close>), whose output are expressions for the code generator. The rest of \<^verbatim>\<open>parse\<close>, which builds
  hobbes expressions that run the table. \<^verbatim>\<open>eval\<close> and the evaluators of \<^verbatim>\<open>bin\<close>, which are calls of LLVM;
  \<^verbatim>\<open>db\<close>, \<^verbatim>\<open>ipc\<close>, \<^verbatim>\<open>events\<close> and \<^verbatim>\<open>storage.H\<close>, which are mapped files, sockets and shared memory; generated
  lexers, parsers and boot data. What is modelled is listed with its source lines in the manifest of the
  development.
\<close>

end
